(* ===== verification/KOS_Prelude.thy ===== *)
theory KOS_Prelude
  imports Main "HOL-Library.Word" "HOL-Library.Monad_Syntax"
begin

text \<open>
  Shared vocabulary of the K-OS development: the C integer types of
  \<^verbatim>\<open>kernel/inc/common/types.h\<close> as machine words, the reading of a kernel panic as
  the value \<^term>\<open>None\<close>, and the generic facts on words, lists and options that the
  component theories use.
\<close>

unbundle bit_operations_syntax

section \<open>Machine types\<close>

type_synonym u8 = "8 word"
type_synonym u16 = "16 word"
type_synonym u32 = "32 word"
type_synonym u64 = "64 word"

section \<open>Panics\<close>

text \<open>
  \<^verbatim>\<open>BUG()\<close>, \<^verbatim>\<open>BUG_ON(c)\<close> and \<^verbatim>\<open>panic()\<close> never return. An operation that can reach one of
  them returns an option, and \<^term>\<open>None\<close> is the halted kernel. The kernel is modelled with
  \<^verbatim>\<open>CONFIG_DEBUG_BUGCHECKS\<close> defined, as \<^verbatim>\<open>kernel/config.h\<close> has it.
\<close>

definition bug_on :: "bool \<Rightarrow> unit option" where
  "bug_on c = (if c then None else Some ())"

lemma bug_on_simps [simp]:
  "bug_on True = None"
  "bug_on False = Some ()"
  by (simp_all add: bug_on_def)

lemma bug_on_eq_Some [simp]: "bug_on c = Some u \<longleftrightarrow> \<not> c"
  by (simp add: bug_on_def)

lemma bug_on_bind [simp]: "(bug_on c \<bind> f) = (if c then None else f ())"
  by (simp add: bug_on_def)

lemma bind_eq_SomeD:
  assumes "(m \<bind> f) = Some y"
  obtains x where "m = Some x" and "f x = Some y"
  using assms by (cases m) auto

section \<open>Named collections\<close>

named_theorems word_unat \<open>reading word arithmetic as arithmetic on naturals\<close>

lemmas [word_unat] = unat_word_ariths word_less_nat_alt word_le_nat_alt

lemma unat_add_no_wrap:
  fixes a b :: "'a::len word"
  assumes "unat a + unat b < 2 ^ LENGTH('a)"
  shows "unat (a + b) = unat a + unat b"
  using assms by (simp add: unat_word_ariths)

lemma unat_diff_le:
  fixes a b :: "'a::len word"
  assumes "unat b \<le> unat a"
  shows "unat (a - b) = unat a - unat b"
  using assms by (simp add: unat_sub word_le_nat_alt)

lemma unat_lt_32: "unat (x :: u32) < 4294967296"
  using unsigned_less [of x] by simp

lemma unat_lt_64: "unat (x :: u64) < 18446744073709551616"
  using unsigned_less [of x] by simp

lemma unat_lt_16: "unat (x :: u16) < 65536"
  using unsigned_less [of x] by simp

lemma unat_drop_bit: "unat (drop_bit n (w::'a::len word)) = unat w div 2 ^ n"
  by (subst unat_drop_bit_eq) (rule drop_bit_eq_div)

lemma unat_take_bit: "unat (take_bit n (w::'a::len word)) = unat w mod 2 ^ n"
  by (rule bit_eqI [where 'a = nat, THEN trans]) (auto simp: bit_simps take_bit_eq_mod[symmetric])

lemma unat_ucast: "unat (ucast (w::'a::len word) :: 'b::len word) = unat w mod 2 ^ LENGTH('b)"
  by (simp only: unsigned_ucast_eq take_bit_eq_mod)

lemma unat_ucast_up:
  assumes "LENGTH('a) \<le> LENGTH('b)"
  shows "unat (ucast (w::'a::len word) :: 'b::len word) = unat w"
proof -
  have "unat w < 2 ^ LENGTH('b)"
    using unsigned_less [of w] assms by (meson less_le_trans one_le_numeral power_increasing)
  then show ?thesis by (simp add: unat_ucast)
qed

section \<open>Powers of two\<close>

lemma dvd_pow2_le:
  fixes k m :: nat
  assumes "k \<le> m" and "(2::nat) ^ m dvd i"
  shows "2 ^ k dvd i"
  using assms by (meson dvd_trans le_imp_power_dvd)

end
