(* ===== verification/Word_Ops.thy ===== *)
theory Word_Ops
  imports KOS_Prelude
begin

text \<open>
  The arithmetic helpers of the kernel: byte swapping (\<^verbatim>\<open>common/swap.h\<close>), the division and
  logarithm macros (\<^verbatim>\<open>common/math.h\<close>, \<^verbatim>\<open>arch/math.h\<close>), the software 64-bit division
  (\<^verbatim>\<open>lib/math.c\<close>), the hash functions (\<^verbatim>\<open>common/hash.h\<close>), the pseudo-random generator
  (\<^verbatim>\<open>lib/rand.c\<close>) and the Internet checksum fold (\<^verbatim>\<open>net/ip/checksum.h\<close>).
\<close>

section \<open>Byte swapping\<close>

definition swap_int16 :: "u16 \<Rightarrow> u16" where
  "swap_int16 val = push_bit 8 val OR (signed_drop_bit 8 val AND 0xFF)"

definition swap_uint16 :: "u16 \<Rightarrow> u16" where
  "swap_uint16 val = push_bit 8 val OR drop_bit 8 val"

definition swap_int32 :: "u32 \<Rightarrow> u32" where
  "swap_int32 val0 =
     (let val = (push_bit 8 val0 AND 0xFF00FF00) OR (signed_drop_bit 8 val0 AND 0xFF00FF)
      in push_bit 16 val OR (signed_drop_bit 16 val AND 0xFFFF))"

definition swap_uint32 :: "u32 \<Rightarrow> u32" where
  "swap_uint32 val0 =
     (let val = (push_bit 8 val0 AND 0xFF00FF00) OR (drop_bit 8 val0 AND 0xFF00FF)
      in push_bit 16 val OR drop_bit 16 val)"

definition swap_int64 :: "u64 \<Rightarrow> u64" where
  "swap_int64 val0 =
     (let val1 = (push_bit 8 val0 AND 0xFF00FF00FF00FF00)
                 OR (signed_drop_bit 8 val0 AND 0x00FF00FF00FF00FF);
          val2 = (push_bit 16 val1 AND 0xFFFF0000FFFF0000)
                 OR (signed_drop_bit 16 val1 AND 0x0000FFFF0000FFFF)
      in push_bit 32 val2 OR (signed_drop_bit 32 val2 AND 0xFFFFFFFF))"

definition swap_uint64 :: "u64 \<Rightarrow> u64" where
  "swap_uint64 val0 =
     (let val1 = (push_bit 8 val0 AND 0xFF00FF00FF00FF00)
                 OR (drop_bit 8 val0 AND 0x00FF00FF00FF00FF);
          val2 = (push_bit 16 val1 AND 0xFFFF0000FFFF0000)
                 OR (drop_bit 16 val1 AND 0x0000FFFF0000FFFF)
      in push_bit 32 val2 OR drop_bit 32 val2)"

section \<open>Division and logarithms\<close>

text \<open>
  \<^verbatim>\<open>__udivdi3\<close> is the routine the compiler calls for 64-bit division. Its first loop shifts
  the divisor up until its sign bit is set; it would not end for a zero divisor, which is why
  it is a partial function here and why the code traps first (\<^verbatim>\<open>__divide_by_zero\<close> divides one
  by zero), read as \<^term>\<open>None\<close>.
\<close>

partial_function (option) udiv_normalise :: "u64 \<Rightarrow> u64 \<Rightarrow> (u64 \<times> u64) option" where
  "udiv_normalise d b =
     (if 0 \<le> sint d then udiv_normalise (push_bit 1 d) (push_bit 1 b) else Some (d, b))"

lemma unat_half_less: "b \<noteq> 0 \<Longrightarrow> unat (drop_bit 1 b) < unat b"
  by (simp add: drop_bit_eq_div unat_div unat_gt_0)

function udiv_loop :: "u64 \<Rightarrow> u64 \<Rightarrow> u64 \<Rightarrow> u64 \<Rightarrow> u64" where
  "udiv_loop n d q b =
     (if b \<noteq> 0 then
        (let (n', q') = (if d \<le> n then (n - d, q + b) else (n, q))
         in udiv_loop n' (drop_bit 1 d) q' (drop_bit 1 b))
      else q)"
  by pat_completeness auto
termination
  by (relation "measure (\<lambda>(n, d, q, b). unat b)") (simp_all only: in_measure case_prod_conv unat_half_less wf_measure not_False_eq_True)

declare udiv_loop.simps [simp del]

definition udivdi3 :: "u64 \<Rightarrow> u64 \<Rightarrow> u64 option" where
  "udivdi3 n d = (if d = 0 then None
     else do { (d', b) \<leftarrow> udiv_normalise d 1; Some (udiv_loop n d' 0 b) })"

definition DIV_DOWN :: "u32 \<Rightarrow> u32 \<Rightarrow> u32" where
  "DIV_DOWN x y = x div y"

definition DIV_UP :: "u32 \<Rightarrow> u32 \<Rightarrow> u32" where
  "DIV_UP x y = (if x = 0 then 0 else (x - 1) div y + 1)"

definition MIN_u :: "u32 \<Rightarrow> u32 \<Rightarrow> u32" where "MIN_u a b = (if a < b then a else b)"
definition MAX_u :: "u32 \<Rightarrow> u32 \<Rightarrow> u32" where "MAX_u a b = (if a > b then a else b)"

text \<open>
  \<^verbatim>\<open>fls32\<close> and \<^verbatim>\<open>fls64\<close> are the instruction \<^verbatim>\<open>bsr\<close> (index of the highest set bit) plus one;
  \<^verbatim>\<open>-1\<close> is preloaded for a zero operand. The macro \<^verbatim>\<open>log2\<close> has a second, compile-time
  branch: a cascade that tests bit 63, then 62, down to bit 0 (\<open>log2_const\<close>).
\<close>

fun fls_nat :: "nat \<Rightarrow> nat" where
  "fls_nat n = (if n = 0 then 0 else Suc (fls_nat (n div 2)))"

declare fls_nat.simps [simp del]

definition fls32 :: "u32 \<Rightarrow> u32" where
  "fls32 x = of_nat (fls_nat (unat x))"

definition fls64 :: "u64 \<Rightarrow> u32" where
  "fls64 x = of_nat (fls_nat (unat x))"

definition log2_32 :: "u32 \<Rightarrow> u32" where
  "log2_32 n = fls32 n - 1"

definition log2_64 :: "u64 \<Rightarrow> u32" where
  "log2_64 n = fls64 n - 1"

definition log2_const :: "u64 \<Rightarrow> nat option" where
  "log2_const n = (if n < 1 then None else List.find (\<lambda>i. bit n i) (rev [0..<64]))"

section \<open>Hashing\<close>

definition HASH_PRIME :: u32 where "HASH_PRIME = 0x9e370001"

text \<open>
  A shift by the width of the operand or more is undefined in C; \<open>hash_64\<close> and \<open>hash_32\<close> are
  \<^term>\<open>None\<close> there, that is outside \<open>1 \<le> bits \<le> 64\<close> and \<open>1 \<le> bits \<le> 32\<close> (the unsigned
  difference wraps when \<open>bits\<close> is larger).
\<close>

definition hash_64 :: "u64 \<Rightarrow> nat \<Rightarrow> u64 option" where
  "hash_64 key bits =
     (let hash0 = key;
          n1 = push_bit 18 hash0; hash1 = hash0 - n1;
          n2 = push_bit 33 n1; hash2 = hash1 - n2;
          n3 = push_bit 3 n2; hash3 = hash2 + n3;
          n4 = push_bit 3 n3; hash4 = hash3 - n4;
          n5 = push_bit 4 n4; hash5 = hash4 + n5;
          n6 = push_bit 2 n5; hash6 = hash5 + n6
      in if 1 \<le> bits \<and> bits \<le> 64 then Some (drop_bit (64 - bits) hash6) else None)"

definition hash_32 :: "u32 \<Rightarrow> nat \<Rightarrow> u32 option" where
  "hash_32 key bits =
     (if 1 \<le> bits \<and> bits \<le> 32 then Some (drop_bit (32 - bits) (key * HASH_PRIME)) else None)"

fun str_to_key_loop :: "u32 \<Rightarrow> u8 list \<Rightarrow> u32" where
  "str_to_key_loop key [] = key"
| "str_to_key_loop key (c # cs) = str_to_key_loop (key * scast c) cs"

definition str_to_key :: "u8 list \<Rightarrow> nat \<Rightarrow> u32" where
  "str_to_key str len = str_to_key_loop 1 (take len str)"

text \<open>
  \<^verbatim>\<open>common/hashtable.h\<close>: a table is an array of chains, its bit width the logarithm of the
  array size, and a key is filed under \<^verbatim>\<open>hash(key, HASHTABLE_BITS(table))\<close>.
  \<^verbatim>\<open>DEFINE_HASHTABLE\<close> makes an array of \<^verbatim>\<open>1 << (bits - 1)\<close> chains,
  \<^verbatim>\<open>DECLARE_HASHTABLE\<close> one of \<^verbatim>\<open>1 << bits\<close>.
\<close>

text \<open>
  The sizes are computed as 32-bit integers; \<^verbatim>\<open>1 << 31\<close> does not fit an \<^verbatim>\<open>int\<close>, so \<open>bits\<close> is at most
  31 for the first and 30 for the second form. The macro \<^verbatim>\<open>hash\<close> chooses the hash function by the
  width of the key; \<open>hashtable_index\<close> is its case of keys of at most four bytes.
\<close>

definition DEFINE_HASHTABLE_size :: "nat \<Rightarrow> u64" where
  "DEFINE_HASHTABLE_size bits = ucast (push_bit (bits - 1) 1 :: u32)"

definition DECLARE_HASHTABLE_size :: "nat \<Rightarrow> u64" where
  "DECLARE_HASHTABLE_size bits = ucast (push_bit bits 1 :: u32)"

definition HASHTABLE_BITS :: "u64 \<Rightarrow> nat option" where
  "HASHTABLE_BITS n = log2_const n"

datatype hash_key = Key32 u32 | Key64 u64

fun hash :: "hash_key \<Rightarrow> nat \<Rightarrow> u64 option" where
  "hash (Key32 k) bits = do { h \<leftarrow> hash_32 k bits; Some (ucast h) }"
| "hash (Key64 k) bits = hash_64 k bits"

definition bucket :: "hash_key \<Rightarrow> u64 \<Rightarrow> u64 option" where
  "bucket key n = do { bits \<leftarrow> HASHTABLE_BITS n; hash key bits }"

definition hashtable_index :: "u32 \<Rightarrow> u64 \<Rightarrow> u32 option" where
  "hashtable_index key n = do { i \<leftarrow> bucket (Key32 key) n; Some (ucast i) }"

section \<open>Pseudo-random numbers\<close>

text \<open>
  The state \<^verbatim>\<open>holdrand\<close> is passed explicitly. \<^verbatim>\<open>rand16\<close> and \<^verbatim>\<open>rand32\<close> combine two calls in one
  expression; C leaves their order open and the model draws the high half first.
\<close>

definition rand8 :: "u32 \<Rightarrow> u32 \<times> u8" where
  "rand8 holdrand =
     (let holdrand' = holdrand * 214013 + 2531011
      in (holdrand', ucast (drop_bit 16 holdrand' AND 0x7fff)))"

definition rand16 :: "u32 \<Rightarrow> u32 \<times> u16" where
  "rand16 s0 = (let (s1, a) = rand8 s0; (s2, b) = rand8 s1
                in (s2, push_bit 8 (ucast a) OR ucast b))"

definition rand32 :: "u32 \<Rightarrow> u32 \<times> u32" where
  "rand32 s0 = (let (s1, a) = rand16 s0; (s2, b) = rand16 s1
                in (s2, push_bit 16 (ucast a) OR ucast b))"

section \<open>The Internet checksum\<close>

lemma unat_fold_halves:
  fixes s :: u32
  shows "unat (drop_bit 16 s + (s AND 0xFFFF)) = unat s div 65536 + unat s mod 65536"
proof -
  have m: "s AND 0xFFFF = take_bit 16 s" by (simp add: take_bit_eq_mask mask_eq_exp_minus_1)
  have t: "unat (take_bit 16 s) = unat s mod 65536"
    by (subst unat_take_bit) simp
  have d: "unat (drop_bit 16 s) = unat s div 65536"
    by (subst unat_drop_bit) simp
  have "unat s div 65536 + unat s mod 65536 < 2 ^ LENGTH(32)" using unat_lt_32 [of s] by simp
  then show ?thesis by (simp only: m t d unat_add_no_wrap)
qed

lemma fold_halves_less:
  fixes s :: u32
  assumes "drop_bit 16 s \<noteq> 0"
  shows "unat (drop_bit 16 s + (s AND 0xFFFF)) < unat s"
proof -
  have "unat (drop_bit 16 s) \<noteq> 0" using assms by (simp only: unat_eq_0 not_False_eq_True)
  then have "unat s div 2 ^ 16 \<noteq> 0" by (simp only: unat_drop_bit not_False_eq_True)
  then have "0 < unat s div 65536" by simp
  then have "unat s div 65536 + unat s mod 65536 < unat s" 
    using mult_div_mod_eq [of 65536 "unat s"] by linarith
  then show ?thesis by (simp only: unat_fold_halves)
qed

function sum_to_checksum :: "u32 \<Rightarrow> u16" where
  "sum_to_checksum s =
     (if drop_bit 16 s \<noteq> 0 then sum_to_checksum (drop_bit 16 s + (s AND 0xFFFF))
      else ucast (NOT s))"
  by pat_completeness auto
termination
  by (relation "measure unat") (simp_all only: in_measure fold_halves_less wf_measure not_False_eq_True)

declare sum_to_checksum.simps [simp del]

section \<open>Byte order\<close>

text \<open>The little-endian bytes of a word: what the word is in memory on this machine.\<close>

definition le_bytes :: "nat \<Rightarrow> 'a::len word \<Rightarrow> u8 list" where
  "le_bytes n w = map (\<lambda>i. ucast (drop_bit (8 * i) w)) [0..<n]"

lemma u8_eqI: "(\<And>n. n < 8 \<Longrightarrow> bit a n = bit b n) \<Longrightarrow> a = (b::u8)"
  by (rule bit_word_eqI) simp

lemma less_8_cases:
  "n < 8 \<Longrightarrow> n = 0 \<or> n = 1 \<or> n = 2 \<or> n = 3 \<or> n = 4 \<or> n = 5 \<or> n = 6 \<or> n = (7::nat)"
  by arith

lemmas swap_bits = bit_push_bit_iff bit_drop_bit_eq bit_or_iff bit_and_iff bit_unsigned_iff
  bit_signed_drop_bit_iff

lemma le_bytes_inject:
  fixes v w :: "'a::len word"
  assumes "LENGTH('a) = 8 * n" and "le_bytes n v = le_bytes n w"
  shows "v = w"
proof (rule bit_word_eqI)
  fix i assume "i < LENGTH('a)"
  then have "i div 8 < n" using assms(1) by (simp add: less_mult_imp_div_less)
  then have "le_bytes n v ! (i div 8) = ucast (drop_bit (8 * (i div 8)) v)"
    and "le_bytes n w ! (i div 8) = ucast (drop_bit (8 * (i div 8)) w)"
    by (simp_all add: le_bytes_def)
  with assms(2) have "bit (ucast (drop_bit (8 * (i div 8)) v) :: u8) (i mod 8)
      = bit (ucast (drop_bit (8 * (i div 8)) w) :: u8) (i mod 8)" by simp
  then show "bit v i = bit w i" by (simp add: bit_unsigned_iff bit_drop_bit_eq)
qed

lemma swap_uint16_bytes: "le_bytes 2 (swap_uint16 v) = rev (le_bytes 2 v)"
  by (simp add: le_bytes_def swap_uint16_def upt_rec,
      intro conjI u8_eqI; drule less_8_cases; elim disjE; simp add: swap_bits)

lemma swap_int16_bytes: "le_bytes 2 (swap_int16 v) = rev (le_bytes 2 v)"
  by (simp add: le_bytes_def swap_int16_def upt_rec,
      intro conjI u8_eqI; drule less_8_cases; elim disjE; simp add: swap_bits)

lemma swap_uint32_bytes: "le_bytes 4 (swap_uint32 v) = rev (le_bytes 4 v)"
  by (simp add: le_bytes_def swap_uint32_def upt_rec Let_def,
      intro conjI u8_eqI; drule less_8_cases; elim disjE; simp add: swap_bits)

lemma swap_int32_bytes: "le_bytes 4 (swap_int32 v) = rev (le_bytes 4 v)"
  by (simp add: le_bytes_def swap_int32_def upt_rec Let_def,
      intro conjI u8_eqI; drule less_8_cases; elim disjE; simp add: swap_bits)

lemma swap_uint64_bytes: "le_bytes 8 (swap_uint64 v) = rev (le_bytes 8 v)"
  by (simp add: le_bytes_def swap_uint64_def upt_rec Let_def,
      intro conjI u8_eqI; drule less_8_cases; elim disjE; simp add: swap_bits)

lemma swap_int64_bytes: "le_bytes 8 (swap_int64 v) = rev (le_bytes 8 v)"
  by (simp add: le_bytes_def swap_int64_def upt_rec Let_def,
      intro conjI u8_eqI; drule less_8_cases; elim disjE; simp add: swap_bits)

lemmas swap_bytes = swap_uint16_bytes swap_int16_bytes swap_uint32_bytes swap_int32_bytes
  swap_uint64_bytes swap_int64_bytes

lemma swap_uint16_twice [simp]: "swap_uint16 (swap_uint16 v) = v"
  by (rule le_bytes_inject [of 2]) (simp_all add: swap_bytes)

lemma swap_uint32_twice [simp]: "swap_uint32 (swap_uint32 v) = v"
  by (rule le_bytes_inject [of 4]) (simp_all add: swap_bytes)

lemma swap_uint64_twice [simp]: "swap_uint64 (swap_uint64 v) = v"
  by (rule le_bytes_inject [of 8]) (simp_all add: swap_bytes)

text \<open>
  Every byte-swap routine reverses the bytes of its argument in memory, for all three
  widths and for the signed and the unsigned variants; so each is its own inverse.
\<close>
theorem swap_reverses_bytes:
  "le_bytes 2 (swap_uint16 a) = rev (le_bytes 2 a) \<and> swap_int16 a = swap_uint16 a
   \<and> le_bytes 4 (swap_uint32 b) = rev (le_bytes 4 b) \<and> swap_int32 b = swap_uint32 b
   \<and> le_bytes 8 (swap_uint64 c) = rev (le_bytes 8 c) \<and> swap_int64 c = swap_uint64 c
   \<and> swap_uint16 (swap_uint16 a) = a \<and> swap_uint32 (swap_uint32 b) = b
   \<and> swap_uint64 (swap_uint64 c) = c"
  by (simp add: swap_bytes le_bytes_inject [of 2 "swap_int16 a" "swap_uint16 a"]
      le_bytes_inject [of 4 "swap_int32 b" "swap_uint32 b"]
      le_bytes_inject [of 8 "swap_int64 c" "swap_uint64 c"])

section \<open>Software division\<close>

lemma sint_nonneg: "0 \<le> sint (d::u64) \<longleftrightarrow> unat d < 2 ^ 63"
proof -
  have "bit d 63 \<longleftrightarrow> sint d < 0"
    using bit_last_iff [of d] by simp
  moreover have "bit d 63 \<longleftrightarrow> bit (unat d) 63"
    by (simp add: bit_unsigned_iff)
  moreover have "bit (unat d) 63 \<longleftrightarrow> odd (unat d div 2 ^ 63)"
    by (simp add: bit_iff_odd)
  moreover have "unat d div 2 ^ 63 = (if unat d < 2 ^ 63 then 0 else 1)"
    using unat_lt_64 [of d] by auto
  ultimately show ?thesis by (auto split: if_splits)
qed

lemma push_bit_of_nat: "push_bit 1 (of_nat n :: u64) = of_nat (2 * n)"
  by (simp add: push_bit_eq_mult)

lemma udiv_normalise_eq:
  assumes "0 < m" and "m < 2 ^ 64" 
  shows "\<exists>k. m * 2 ^ k < 2 ^ 64 \<and> 2 ^ 63 \<le> m * 2 ^ k \<and>
     udiv_normalise (of_nat m) (of_nat c) = Some (of_nat (m * 2 ^ k), of_nat (c * 2 ^ k))"
  using assms
proof (induction "2 ^ 63 - m" arbitrary: m c rule: less_induct)
  case less
  have m: "unat (of_nat m :: u64) = m" using less.prems by (simp add: unat_of_nat)
  show ?case
  proof (cases "m < 2 ^ 63")
    case True
    then have "2 ^ 63 - 2 * m < 2 ^ 63 - m" using less.prems by simp
    then obtain k where k: "2 * m * 2 ^ k < 2 ^ 64" "2 ^ 63 \<le> 2 * m * 2 ^ k"
      "udiv_normalise (of_nat (2 * m)) (of_nat (2 * c)) = Some (of_nat (2 * m * 2 ^ k), of_nat (2 * c * 2 ^ k))"
      using less.hyps [of "2 * m" "2 * c"] True less.prems by auto
    have "udiv_normalise (of_nat m) (of_nat c) = udiv_normalise (of_nat (2 * m)) (of_nat (2 * c))"
      using True by (subst udiv_normalise.simps) (simp only: sint_nonneg m push_bit_of_nat if_True)
    with k show ?thesis by (intro exI [of _ "Suc k"]) (simp add: ac_simps)
  next
    case False
    then have "udiv_normalise (of_nat m) (of_nat c) = Some (of_nat m, of_nat c)"
      by (subst udiv_normalise.simps) (simp only: sint_nonneg m if_False)
    with False less.prems show ?thesis by (intro exI [of _ 0]) simp
  qed
qed

lemma drop_bit_of_nat_double: "2 * n < 2 ^ 64 \<Longrightarrow> drop_bit 1 (of_nat (2 * n) :: u64) = of_nat n"
  by (rule word_unat_eq_iff [THEN iffD2])
    (simp add: drop_bit_eq_div unat_div unat_of_nat del: of_nat_mult)

lemma udiv_loop_eq:
  assumes "0 < m" and "m * 2 ^ k < 2 ^ 64" and "unat n < 2 * (m * 2 ^ k)"
  shows "udiv_loop n (of_nat (m * 2 ^ k)) q (of_nat (2 ^ k)) = q + of_nat (unat n div m)"
  using assms
proof (induction k arbitrary: n q)
  case 0
  have d: "unat (of_nat m :: u64) = m" using 0 by (simp add: unat_of_nat)
  have "unat n div m = (if m \<le> unat n then 1 else 0)"
    using 0 by (auto simp: div_nat_eqI)
  moreover have "udiv_loop n' d' q' 0 = q'" for n' d' q'
    by (subst udiv_loop.simps) simp
  ultimately show ?case
    using 0 d by (subst udiv_loop.simps) (simp add: word_le_nat_alt drop_bit_eq_div)
next
  case (Suc k)
  let ?d = "m * 2 ^ Suc k"
  have d: "unat (of_nat ?d :: u64) = ?d" using Suc.prems(2) by (simp only: unat_of_nat) simp
  have "2 ^ Suc k \<le> ?d" using Suc.prems(1) by simp
  then have "(2::nat) ^ Suc k < 2 ^ 64" using Suc.prems(2) by (rule le_less_trans)
  then have b: "(of_nat (2 ^ Suc k) :: u64) \<noteq> 0" 
    by (simp only: word_unat_eq_iff unat_of_nat) simp
  have db: "drop_bit 1 (of_nat (2 ^ Suc k) :: u64) = of_nat (2 ^ k)"
    using drop_bit_of_nat_double [of "2 ^ k"] \<open>(2::nat) ^ Suc k < 2 ^ 64\<close> by simp
  have dd: "drop_bit 1 (of_nat ?d :: u64) = of_nat (m * 2 ^ k)"
    using drop_bit_of_nat_double [of "m * 2 ^ k"] Suc.prems(2) by (simp add: ac_simps)
  have small: "m * 2 ^ k < 2 ^ 64" using Suc.prems(2) by simp
  show ?case
  proof (cases "?d \<le> unat n")
    case True
    then have le: "of_nat ?d \<le> n" by (simp only: word_le_nat_alt d)
    have un: "unat (n - of_nat ?d) = unat n - ?d" using unat_sub [OF le] d by simp
    have "unat n div m = (unat n - ?d) div m + 2 ^ Suc k"
      using True Suc.prems(1) by (metis add.commute div_mult_self2 le_add_diff_inverse2 less_not_refl2)
    then show ?thesis
      using le b Suc.IH [of "n - of_nat ?d" "q + of_nat (2 ^ Suc k)"] Suc.prems small un
      by (subst udiv_loop.simps) (simp only: if_True Let_def case_prod_conv db dd, simp)
  next
    case False
    then have "\<not> of_nat ?d \<le> n" by (simp only: word_le_nat_alt d not_False_eq_True)
    then show ?thesis
      using b Suc.IH [of n q] Suc.prems small False
      by (subst udiv_loop.simps) (simp only: if_True if_False Let_def case_prod_conv db dd, simp)
  qed
qed

lemma udivdi3_eq: "d \<noteq> 0 \<Longrightarrow> udivdi3 n d = Some (n div d)"
proof -
  assume "d \<noteq> 0"
  then have "0 < unat d" by (simp add: unat_gt_0)
  then obtain k where k: "unat d * 2 ^ k < 2 ^ 64" "2 ^ 63 \<le> unat d * 2 ^ k"
    "udiv_normalise (of_nat (unat d)) (of_nat 1) = Some (of_nat (unat d * 2 ^ k), of_nat (1 * 2 ^ k))"
    using udiv_normalise_eq [of "unat d" 1] unat_lt_64 [of d] by auto
  have "udiv_loop n (of_nat (unat d * 2 ^ k)) 0 (of_nat (2 ^ k)) = 0 + of_nat (unat n div unat d)"
    using \<open>0 < unat d\<close> k unat_lt_64 [of n] by (intro udiv_loop_eq) auto
  moreover have "of_nat (unat n div unat d) = n div d"
    by (simp add: unat_div_distrib [symmetric])
  ultimately show ?thesis using k(3) \<open>d \<noteq> 0\<close> by (simp add: udivdi3_def)
qed

text \<open>
  C38. The software division of \<^verbatim>\<open>lib/math.c\<close> returns the quotient for every dividend and
  every non-zero divisor, and in particular both its loops end; a zero divisor traps.
\<close>
theorem udivdi3_correct: "udivdi3 n d = (if d = 0 then None else Some (n div d))"
  using udivdi3_eq [of d n] by (simp add: udivdi3_def)

section \<open>Logarithms, rounding, hashing\<close>

lemma fls_nat_0 [simp]: "fls_nat 0 = 0"
  by (simp add: fls_nat.simps)

lemma fls_nat_bounds:
  "0 < n \<Longrightarrow> 2 ^ (fls_nat n - 1) \<le> n \<and> n < 2 ^ fls_nat n \<and> 0 < fls_nat n"
proof (induction n rule: fls_nat.induct)
  case (1 n)
  show ?case
  proof (cases "n div 2 = 0")
    case True
    with 1 have "n = 1" by simp
    then show ?thesis by (simp add: fls_nat.simps [of "Suc 0"])
  next
    case False
    with 1 have IH: "2 ^ (fls_nat (n div 2) - 1) \<le> n div 2 \<and> n div 2 < 2 ^ fls_nat (n div 2)
        \<and> 0 < fls_nat (n div 2)" by simp
    then obtain k where k: "fls_nat (n div 2) = Suc k" by (cases "fls_nat (n div 2)") auto
    with IH have "2 ^ k \<le> n div 2" "n div 2 < 2 ^ Suc k" by simp_all
    then have "2 ^ Suc k \<le> n" "n < 2 ^ Suc (Suc k)" by simp_all
    moreover have "fls_nat n = Suc (Suc k)" using 1(2) k by (simp add: fls_nat.simps [of n])
    ultimately show ?thesis by simp
  qed
qed

lemma pow2_unique:
  fixes j k n :: nat
  assumes "2 ^ j \<le> n" "n < 2 ^ Suc j" "2 ^ k \<le> n" "n < 2 ^ Suc k"
  shows "j = k"
proof -
  have "(2::nat) ^ j < 2 ^ Suc k" "(2::nat) ^ k < 2 ^ Suc j" using assms by linarith+
  then have "j < Suc k" "k < Suc j" using power_less_imp_less_exp [of "2::nat"] by (meson one_less_numeral_iff semiring_norm(76))+
  then show ?thesis by simp
qed

lemma fls_nat_eq: "2 ^ k \<le> n \<Longrightarrow> n < 2 ^ Suc k \<Longrightarrow> fls_nat n = Suc k"
proof -
  assume a: "2 ^ k \<le> n" "n < 2 ^ Suc k"
  have "0 < (2::nat) ^ k" by simp
  with a have "0 < n" by linarith
  from fls_nat_bounds [OF this] obtain j where "fls_nat n = Suc j" "2 ^ j \<le> n" "n < 2 ^ Suc j"
    by (cases "fls_nat n") auto
  with a pow2_unique show ?thesis by blast
qed

lemma find_top_bit:
  assumes "bit (n::nat) k" and "n < 2 ^ Suc k" and "k < m"
  shows "List.find (\<lambda>i. bit n i) (rev [0..<m]) = Some k"
  using \<open>k < m\<close>
proof (induction m)
  case (Suc m)
  show ?case
  proof (cases "k = m")
    case True with assms(1) show ?thesis by simp
  next
    case False
    with Suc have "k < m" by simp
    then have "2 ^ Suc k \<le> (2::nat) ^ m" by (intro power_increasing) auto
    with assms(2) have "n < 2 ^ m" by simp
    then have "\<not> bit n m" by (simp add: bit_iff_odd)
    with Suc \<open>k < m\<close> show ?thesis by simp
  qed
qed simp

lemma bit_unat_word: "bit (w::'a::len word) i \<longleftrightarrow> bit (unat w) i"
  by (auto simp: bit_unsigned_iff dest: bit_imp_le_length)

lemma log2_const_eq:
  assumes "n \<noteq> 0"
  shows "log2_const n = Some (unat (log2_64 n))"
    and "2 ^ unat (log2_64 n) \<le> unat n" and "unat n < 2 ^ Suc (unat (log2_64 n))"
proof -
  from assms have n0: "0 < unat n" by (simp add: unat_gt_0)
  then obtain k where k: "fls_nat (unat n) = Suc k" "2 ^ k \<le> unat n" "unat n < 2 ^ Suc k"
    using fls_nat_bounds [OF n0] by (cases "fls_nat (unat n)") auto
  have "(2::nat) ^ k < 2 ^ 64" using k(2) unat_lt_64 [of n] by simp
  then have k64: "k < 64" using power_less_imp_less_exp [of "2::nat" k 64] by simp
  have l: "unat (log2_64 n) = k"
    using k64 by (simp add: log2_64_def fls64_def k unat_of_nat)
  have "unat n div 2 ^ k = 1" using k by (intro div_nat_eqI) auto
  then have "bit (unat n) k" by (simp add: bit_iff_odd)
  have bits: "bit n = bit (unat n)" by (rule ext) (rule bit_unat_word)
  from find_top_bit [OF \<open>bit (unat n) k\<close> k(3) k64] assms
  show "log2_const n = Some (unat (log2_64 n))"
    using n0 bits by (simp add: log2_const_def l word_less_nat_alt del: unat_gt_0)
  show "2 ^ unat (log2_64 n) \<le> unat n" "unat n < 2 ^ Suc (unat (log2_64 n))" using k l by simp_all
qed

lemma DIV_UP_eq:
  assumes "y \<noteq> 0"
  shows "unat (DIV_UP x y) = (unat x + unat y - 1) div unat y"
proof (cases "x = 0")
  case True
  with assms show ?thesis by (simp add: DIV_UP_def unat_gt_0)
next
  case False
  then have x: "0 < unat x" by (simp add: unat_gt_0)
  have y: "0 < unat y" using assms by (simp add: unat_gt_0)
  have "1 \<le> x" using x by (simp add: word_le_nat_alt Suc_le_eq)
  then have d: "unat (x - 1) = unat x - 1" by (simp add: unat_sub)
  have "unat x - 1 < 2 ^ 32 - 1" using unat_lt_32 [of x] x by simp
  moreover have "(unat x - 1) div unat y \<le> unat x - 1" by simp
  ultimately have "(unat x - 1) div unat y < 2 ^ 32 - 1" by linarith
  then have "unat ((x - 1) div y + 1) = (unat x - 1) div unat y + 1"
    by (subst unat_add_no_wrap) (simp_all add: unat_div d)
  also have "\<dots> = (unat x - 1 + unat y) div unat y"
    using y by (simp add: div_add_self2 del: unat_gt_0)
  finally show ?thesis using False x by (simp add: DIV_UP_def)
qed

lemma drop_bit_bound:
  fixes w :: "'a::len word"
  assumes "k \<le> LENGTH('a)"
  shows "unat (drop_bit (LENGTH('a) - k) w) < 2 ^ k"
proof -
  have "unat w < 2 ^ k * 2 ^ (LENGTH('a) - k)"
    using unsigned_less [of w] assms by (simp flip: power_add)
  then have "drop_bit (LENGTH('a) - k) (unat w) < 2 ^ k"
    by (simp add: drop_bit_eq_div less_mult_imp_div_less)
  then show ?thesis by (simp only: unat_drop_bit_eq)
qed

lemma hash_32_bound:
  "1 \<le> bits \<Longrightarrow> bits \<le> 32 \<Longrightarrow> \<exists>h. hash_32 key bits = Some h \<and> unat h < 2 ^ bits"
  using drop_bit_bound [where 'a = 32, of bits] by (simp add: hash_32_def)

lemma hash_64_bound:
  "1 \<le> bits \<Longrightarrow> bits \<le> 64 \<Longrightarrow> \<exists>h. hash_64 key bits = Some h \<and> unat h < 2 ^ bits"
  using drop_bit_bound [where 'a = 64, of bits] by (simp add: hash_64_def Let_def)

text \<open>
  The compile-time cascade of the macro \<^verbatim>\<open>log2\<close> and its run-time branch compute the same
  number, the \<open>k\<close> with \<open>2 ^ k \<le> n < 2 ^ (k + 1)\<close>.
\<close>
theorem log2_branches_agree:
  assumes "n \<noteq> 0"
  shows "log2_const n = Some (unat (log2_64 n))
    \<and> 2 ^ unat (log2_64 n) \<le> unat n \<and> unat n < 2 ^ Suc (unat (log2_64 n))"
  using log2_const_eq [OF assms] by simp

theorem log2_branches_agree_witness:
  "log2_const 4096 = Some (unat (log2_64 4096)) \<and> 2 ^ unat (log2_64 4096) \<le> (4096::nat)"
  using log2_branches_agree [of 4096] by simp

lemma unat_pow2_64: "k < 64 \<Longrightarrow> unat (2 ^ k :: u64) = 2 ^ k"
  using unat_of_nat [where 'a = 64, of "2 ^ k"] power_strict_increasing [of k 64 "2 :: nat"] by simp

lemma HASHTABLE_BITS_pow2: "k < 64 \<Longrightarrow> HASHTABLE_BITS (2 ^ k) = Some k"
proof -
  assume k: "k < 64"
  then have u: "unat (2 ^ k :: u64) = 2 ^ k" by (rule unat_pow2_64)
  then have "(2 ^ k :: u64) \<noteq> 0" by (metis power_not_zero unsigned_0 zero_neq_numeral)
  from log2_const_eq [OF this] u have "log2_const (2 ^ k) = Some k"
    using pow2_unique [of "unat (log2_64 (2 ^ k))" "2 ^ k" k] by simp
  then show ?thesis by (simp add: HASHTABLE_BITS_def)
qed

lemma table_sizes:
  "bits \<le> 31 \<Longrightarrow> DEFINE_HASHTABLE_size bits = 2 ^ (bits - 1)" "bits \<le> 30 \<Longrightarrow> DECLARE_HASHTABLE_size bits = 2 ^ bits"
proof -
  have "ucast (2 ^ k :: u32) = (2 ^ k :: u64)" if "k < 32" for k
  proof -
    have "unat (2 ^ k :: u32) = 2 ^ k"
      using that unat_of_nat [where 'a = 32, of "2 ^ k"] power_strict_increasing [of k 32 "2 :: nat"] by simp
    then show ?thesis using that by (simp add: word_unat_eq_iff unat_ucast_up unat_pow2_64)
  qed
  then show "bits \<le> 31 \<Longrightarrow> DEFINE_HASHTABLE_size bits = 2 ^ (bits - 1)" "bits \<le> 30 \<Longrightarrow> DECLARE_HASHTABLE_size bits = 2 ^ bits"
    by (simp_all add: DEFINE_HASHTABLE_size_def DECLARE_HASHTABLE_size_def push_bit_eq_mult)
qed

lemma hash_bound:
  assumes "1 \<le> k" "k \<le> 32"
  shows "\<exists>h. hash key k = Some h \<and> unat h < 2 ^ k"
proof (cases key)
  case (Key32 x)
  then show ?thesis using hash_32_bound [OF assms, of x] by (auto simp: unat_ucast_up)
next
  case (Key64 x)
  then show ?thesis using hash_64_bound [of k x] assms by simp
qed

lemma bucket_pow2:
  "1 \<le> k \<Longrightarrow> k \<le> 32 \<Longrightarrow> \<exists>i. bucket key (2 ^ k) = Some i \<and> unat i < unat (2 ^ k :: u64)"
  using hash_bound [of k key] by (simp add: bucket_def HASHTABLE_BITS_pow2 unat_pow2_64)

lemma ucast_up_down: "ucast (ucast (h :: u32) :: u64) = h"
  by (rule bit_word_eqI) (simp add: bit_simps)

lemma hashtable_index_pow2:
  assumes "1 \<le> k" "k \<le> 32"
  shows "\<exists>i. hashtable_index key (2 ^ k) = Some i \<and> unat i < unat (2 ^ k :: u64)"
  using hash_32_bound [OF assms, of key] assms
  by (auto simp: hashtable_index_def bucket_def HASHTABLE_BITS_pow2 unat_pow2_64 ucast_up_down)



section \<open>Checksums\<close>

lemma mod_65535: "(n::nat) mod 65535 = (n div 65536 + n mod 65536) mod 65535"
proof -
  have "n = n div 65536 * 65535 + (n div 65536 + n mod 65536)"
    using mult_div_mod_eq [of 65536 n] by linarith
  then show ?thesis by (metis mod_mult_self3)
qed

lemma fold_halves_eq_0: 
  fixes s :: u32
  shows "drop_bit 16 s + (s AND 0xFFFF) = 0 \<longleftrightarrow> s = 0"
proof -
  have "unat (drop_bit 16 s + (s AND 0xFFFF)) = 0 \<longleftrightarrow> unat s = 0"
    unfolding unat_fold_halves by (metis add_is_0 div_mult_mod_eq mult_zero_left div_0 mod_0)
  then show ?thesis by (simp only: unat_eq_0)
qed

lemma checksum_fold:
  "unat (NOT (sum_to_checksum s)) mod 65535 = unat s mod 65535 \<and>
   (NOT (sum_to_checksum s) = 0 \<longleftrightarrow> s = 0)"
proof (induction s rule: sum_to_checksum.induct)
  case (1 s)
  show ?case
  proof (cases "drop_bit 16 s = 0")
    case True
    then have "unat (drop_bit 16 s) = 0" by (simp only: unsigned_0)
    then have "unat s div 2 ^ 16 = 0" by (simp only: unat_drop_bit)
    then have s: "unat s < 65536" by simp
    have n: "NOT (sum_to_checksum s) = (ucast s :: u16)"
      unfolding sum_to_checksum.simps [of s] using True
      by (simp only: not_True_eq_False if_False) (rule bit_word_eqI, simp add: bit_simps)
    have "unat (ucast s :: u16) = unat s" using s by (simp add: unat_ucast)
    with n show ?thesis by (metis unat_eq_0)
  next
    case False
    from 1 [OF this] show ?thesis
      unfolding sum_to_checksum.simps [of s] mod_65535 [of "unat s"]
      using False by (simp only: unat_fold_halves fold_halves_eq_0 if_True not_False_eq_True)
  qed
qed

lemma multiple_65535:
  fixes n :: nat
  assumes "n \<noteq> 0" and "n mod 65535 = 0" and "n < 65536"
  shows "n = 65535"
proof -
  from assms(2) have "65535 dvd n" by (simp add: mod_eq_0_iff_dvd)
  then obtain q where "n = 65535 * q" by (elim dvdE)
  with assms(1,3) show ?thesis by (cases q) auto
qed

text \<open>
  C40. A header whose checksum field holds \<^verbatim>\<open>sum_to_checksum\<close> of the sum of its other 16-bit
  words passes the receiver's test: summing everything, the checksum included, folds to the
  checksum zero. The bound says that the 32-bit accumulator cannot overflow, which holds for
  any packet of less than 65536 words.
\<close>
theorem checksum_verifies:
  assumes "unat s + 65535 < 2 ^ 32"
  shows "sum_to_checksum (s + ucast (sum_to_checksum s)) = 0"
proof -
  let ?c = "sum_to_checksum s"
  have uc: "unat (ucast ?c :: u32) = unat ?c" by (rule unat_ucast_up) simp
  have m1: "unat (- 1 :: u16) = 65535"
    by (simp add: unsigned_minus_1_eq_mask mask_eq_exp_minus_1)
  have nc: "unat (NOT ?c) = 65535 - unat ?c"
  proof -
    have "NOT ?c = - 1 - ?c" by (simp add: not_eq_complement)
    then show ?thesis using unat_sub [of ?c "- 1"] m1 by simp
  qed
  have c: "unat ?c \<le> 65535" using unat_lt_16 [of ?c] by simp
  have sum: "unat (s + ucast ?c) = unat s + unat ?c"
    using assms c uc by (subst unat_add_no_wrap) simp_all
  have "unat (NOT ?c) mod 65535 = unat s mod 65535" using checksum_fold by blast
  then have "(unat s + unat ?c) mod 65535 = (65535 - unat ?c + unat ?c) mod 65535"
    unfolding nc by (metis mod_add_left_eq)
  then have *: "unat (s + ucast ?c) mod 65535 = 0" using c sum by simp
  have "s + ucast ?c \<noteq> 0"
  proof
    assume "s + ucast ?c = 0"
    then have "unat s = 0" "unat ?c = 0" using sum by simp_all
    then have "s = 0" "?c = 0" by (simp_all only: unat_eq_0)
    then show False using checksum_fold [of s] by simp
  qed
  then have "unat (NOT (sum_to_checksum (s + ucast ?c))) \<noteq> 0"
    using checksum_fold [of "s + ucast ?c"] by (simp only: unat_eq_0) simp
  moreover have "unat (NOT (sum_to_checksum (s + ucast ?c))) mod 65535 = 0"
    using checksum_fold [of "s + ucast ?c"] * by metis
  moreover have "unat (NOT (sum_to_checksum (s + ucast ?c))) < 65536" by (rule unat_lt_16)
  ultimately have "unat (NOT (sum_to_checksum (s + ucast ?c))) = 65535" by (rule multiple_65535)
  then have "NOT (sum_to_checksum (s + ucast ?c)) = - 1" by (simp only: word_unat_eq_iff m1)
  then have "NOT (NOT (sum_to_checksum (s + ucast ?c))) = NOT (- 1)" by (simp only:)
  then show ?thesis by simp
qed

theorem checksum_verifies_witness:
  "sum_to_checksum (0x4500 + ucast (sum_to_checksum 0x4500)) = 0"
  using checksum_verifies [of "0x4500"] by simp

end
