(* ===== verification/Intrusive_List.thy ===== *)
theory Intrusive_List
  imports KOS_Prelude
begin

text \<open>
  The intrusive lists of \<^verbatim>\<open>inc/common/list.h\<close>. A \<^verbatim>\<open>list_head_t\<close> embedded in an object is a node
  of a circular doubly linked list; the list itself is one more node, its head. Nodes are
  addresses of an arbitrary type and the memory of all nodes is a pair of functions, so that
  aliasing between the head, its neighbours and the new node is explicit. The abstraction
  relation \<open>is_list h head xs\<close> says that from \<open>head\<close> the memory \<open>h\<close> holds the ring with the
  entries \<open>xs\<close>; every operation is shown to implement one operation on \<open>xs\<close> and to leave
  disjoint lists alone. The second half does the same for the NULL-terminated chains, whose
  back pointer \<^verbatim>\<open>pprev\<close> is the address of a pointer field.
\<close>

section \<open>Circular lists: the code\<close>

record 'a list_mem =
  lnext :: "'a \<Rightarrow> 'a"
  lprev :: "'a \<Rightarrow> 'a"

definition set_next :: "'a \<Rightarrow> 'a \<Rightarrow> 'a list_mem \<Rightarrow> 'a list_mem" where
  "set_next a v h = h\<lparr>lnext := (lnext h)(a := v)\<rparr>"

definition set_prev :: "'a \<Rightarrow> 'a \<Rightarrow> 'a list_mem \<Rightarrow> 'a list_mem" where
  "set_prev a v h = h\<lparr>lprev := (lprev h)(a := v)\<rparr>"

definition list_init :: "'a \<Rightarrow> 'a list_mem \<Rightarrow> 'a list_mem" where
  "list_init entry h = set_prev entry entry (set_next entry entry h)"

definition list_empty :: "'a list_mem \<Rightarrow> 'a \<Rightarrow> bool" where
  "list_empty h head = (lnext h head = head)"

definition list_first :: "'a list_mem \<Rightarrow> 'a \<Rightarrow> 'a" where
  "list_first h head = lnext h head"

definition list_next :: "'a list_mem \<Rightarrow> 'a \<Rightarrow> 'a \<Rightarrow> 'a option" where
  "list_next h pos head = (if lnext h pos = head then None else Some (lnext h pos))"

definition list_is_singular :: "'a list_mem \<Rightarrow> 'a \<Rightarrow> bool" where
  "list_is_singular h head = (\<not> list_empty h head \<and> lnext h head = lprev h head)"

definition list_insert :: "'a \<Rightarrow> 'a \<Rightarrow> 'a \<Rightarrow> 'a list_mem \<Rightarrow> 'a list_mem" where
  "list_insert new prev next h =
     set_next prev new (set_prev new prev (set_next new next (set_prev next new h)))"

definition list_add :: "'a \<Rightarrow> 'a \<Rightarrow> 'a list_mem \<Rightarrow> 'a list_mem" where
  "list_add new old h = list_insert new old (lnext h old) h"

definition list_add_before :: "'a \<Rightarrow> 'a \<Rightarrow> 'a list_mem \<Rightarrow> 'a list_mem" where
  "list_add_before new old h = list_insert new (lprev h old) old h"

definition list_join :: "'a \<Rightarrow> 'a \<Rightarrow> 'a list_mem \<Rightarrow> 'a list_mem" where
  "list_join first second h = set_prev second first (set_next first second h)"

definition list_replace :: "'a \<Rightarrow> 'a \<Rightarrow> 'a list_mem \<Rightarrow> 'a list_mem" where
  "list_replace old new h =
     (let h1 = set_next new (lnext h old) h;
          h2 = set_prev (lnext h1 new) new h1;
          h3 = set_prev new (lprev h2 old) h2
      in set_next (lprev h3 new) new h3)"

definition list_rm :: "'a \<Rightarrow> 'a list_mem \<Rightarrow> 'a list_mem" where
  "list_rm entry h = list_join (lprev h entry) (lnext h entry) h"

definition list_move :: "'a \<Rightarrow> 'a \<Rightarrow> 'a list_mem \<Rightarrow> 'a list_mem" where
  "list_move entry head h = list_add entry head (list_rm entry h)"

definition list_move_before :: "'a \<Rightarrow> 'a \<Rightarrow> 'a list_mem \<Rightarrow> 'a list_mem" where
  "list_move_before entry head h = list_add_before entry head (list_rm entry h)"

definition list_rotate_left :: "'a \<Rightarrow> 'a list_mem \<Rightarrow> 'a list_mem" where
  "list_rotate_left head h =
     (if \<not> list_empty h head then list_move_before (lnext h head) head h else h)"

text \<open>
  \<^verbatim>\<open>LIST_FOR_EACH\<close>: the nodes the loop visits, in order. On a damaged ring the loop may never
  reach the head again, which is the value \<^term>\<open>None\<close>.
\<close>

partial_function (option) list_walk :: "'a list_mem \<Rightarrow> 'a \<Rightarrow> 'a \<Rightarrow> 'a list option" where
  [code]: "list_walk h head pos =
     (if pos = head then Some []
      else do { rest \<leftarrow> list_walk h head (lnext h pos); Some (pos # rest) })"

definition LIST_FOR_EACH :: "'a list_mem \<Rightarrow> 'a \<Rightarrow> 'a list option" where
  "LIST_FOR_EACH h head = list_walk h head (lnext h head)"

section \<open>Circular lists: the abstraction\<close>

text \<open>\<open>links h L\<close>: consecutive nodes of \<open>L\<close> are linked both ways.\<close>

fun links :: "'a list_mem \<Rightarrow> 'a list \<Rightarrow> bool" where
  "links h (a # b # r) = (lnext h a = b \<and> lprev h b = a \<and> links h (b # r))"
| "links h _ = True"

definition is_list :: "'a list_mem \<Rightarrow> 'a \<Rightarrow> 'a list \<Rightarrow> bool" where
  "is_list h head xs = (distinct (head # xs) \<and> links h (head # xs @ [head]))"

lemma lmem_simps [simp]:
  "lnext (set_next a v h) = (lnext h)(a := v)" "lprev (set_next a v h) = lprev h"
  "lprev (set_prev a v h) = (lprev h)(a := v)" "lnext (set_prev a v h) = lnext h"
  by (simp_all add: set_next_def set_prev_def)

lemma links_append:
  "links h (as @ p # bs) = (links h (as @ [p]) \<and> links h (p # bs))"
  by (induction h as rule: links.induct) auto

lemma links_frame:
  assumes "\<And>a. a \<in> set (butlast L) \<Longrightarrow> lnext h' a = lnext h a"
    and "\<And>a. a \<in> set (tl L) \<Longrightarrow> lprev h' a = lprev h a"
  shows "links h' L = links h L"
  using assms by (induction h L rule: links.induct) auto

lemma in_set_tlD: "x \<in> set (tl xs) \<Longrightarrow> x \<in> set xs"
  by (cases xs) auto

definition ring_like :: "'a list \<Rightarrow> bool" where
  "ring_like L = (distinct (butlast L) \<and> distinct (tl L))"

lemma links_split:
  "links h (as @ p # n # bs) =
     (links h (as @ [p]) \<and> lnext h p = n \<and> lprev h n = p \<and> links h (n # bs))"
  by (subst links_append) simp

lemma butlast_append_Cons: "butlast (as @ p # bs) = as @ butlast (p # bs)"
  by (simp add: butlast_append)

lemma ring_like_notin:
  assumes "ring_like (as @ p # ms @ n # bs)"
  shows "p \<notin> set as" and "n \<notin> set bs" and "n \<notin> set (tl (as @ [p]))"
    and "p \<notin> set (butlast (n # bs))"
proof -
  have d: "distinct (as @ p # ms @ butlast (n # bs))" "distinct (tl (as @ p # ms @ n # bs))"
    using assms by (simp_all add: ring_like_def butlast_append)
  show "p \<notin> set as" "p \<notin> set (butlast (n # bs))" using d(1) by auto
  have "distinct (tl (as @ [p]) @ ms @ n # bs)" using d(2) by (cases as) auto
  then show "n \<notin> set bs" "n \<notin> set (tl (as @ [p]))" by auto
qed

lemma list_insert_links:
  assumes l: "links h (as @ p # n # bs)" and r: "ring_like (as @ p # n # bs)"
    and new: "new \<notin> set (as @ p # n # bs)"
  shows "links (list_insert new p n h) (as @ p # new # n # bs)"
proof -
  let ?h = "list_insert new p n h"
  note nn = ring_like_notin [of as p "[]" n bs, simplified, OF r]
  have "links ?h (as @ [p]) = links h (as @ [p])"
    by (rule links_frame) (use nn new in \<open>auto simp: list_insert_def dest: in_set_butlastD
        in_set_tlD\<close>)
  moreover have "links ?h (n # bs) = links h (n # bs)"
    by (rule links_frame) (use nn new in \<open>auto simp: list_insert_def dest: in_set_butlastD
        split: if_splits\<close>)
  ultimately show ?thesis using l new
    by (auto simp: links_append [of _ as p "n # bs"] links_append [of _ as p "new # n # bs"]
        list_insert_def)
qed

lemma list_join_links:
  assumes l: "links h (as @ p # e # n # bs)" and r: "ring_like (as @ p # e # n # bs)"
  shows "links (list_join p n h) (as @ p # n # bs)"
proof -
  let ?h = "list_join p n h"
  note nn = ring_like_notin [of as p "[e]" n bs, simplified, OF r]
  have "links ?h (as @ [p]) = links h (as @ [p])"
    by (rule links_frame) (use nn in \<open>auto simp: list_join_def\<close>)
  moreover have "links ?h (n # bs) = links h (n # bs)"
    by (rule links_frame) (use nn in \<open>auto simp: list_join_def\<close>)
  ultimately show ?thesis using l
    by (simp add: links_append [of h as p "e # n # bs"]
        links_append [of _ as p "n # bs"] list_join_def)
qed

lemma ring_like_ring [simp]: "ring_like (head # xs @ [head]) = distinct (head # xs)"
  by (auto simp: ring_like_def butlast_append)

lemma ring_at:
  obtains as p n bs where "head # xs @ ys @ [head] = as @ p # n # bs"
    and "p = last (head # xs)" and "n = hd (ys @ [head])"
    and "as @ [p] = head # xs" and "n # bs = ys @ [head]"
proof -
  have "butlast (head # xs) @ [last (head # xs)] = head # xs" by (rule append_butlast_last_id) simp
  moreover have "hd (ys @ [head]) # tl (ys @ [head]) = ys @ [head]" by (cases ys) auto
  ultimately show thesis
    using that [of "butlast (head # xs)" "last (head # xs)" "hd (ys @ [head])" "tl (ys @ [head])"]
    by (metis append.assoc append_Cons append_Nil)
qed

lemma is_list_ring:
  "is_list h head xs \<longleftrightarrow> links h (head # xs @ [head]) \<and> ring_like (head # xs @ [head])"
  by (auto simp: is_list_def)

lemma is_list_neighbours:
  assumes "is_list h head (xs @ ys)"
  shows "lnext h (last (head # xs)) = hd (ys @ [head])"
    and "lprev h (hd (ys @ [head])) = last (head # xs)"
proof -
  obtain as p n bs where e: "head # xs @ ys @ [head] = as @ p # n # bs"
    and p: "p = last (head # xs)" and n: "n = hd (ys @ [head])" by (rule ring_at)
  from assms have "links h (as @ p # n # bs)" unfolding e [symmetric] by (simp add: is_list_def)
  then have "lnext h p = n \<and> lprev h n = p" by (simp add: links_split)
  then show "lnext h (last (head # xs)) = hd (ys @ [head])"
    and "lprev h (hd (ys @ [head])) = last (head # xs)" by (simp_all only: n p)
qed

lemma list_insert_at:
  assumes l: "is_list h head (xs @ ys)" and new: "new \<notin> set (head # xs @ ys)"
  shows "is_list (list_insert new (last (head # xs)) (hd (ys @ [head])) h) head (xs @ new # ys)"
proof -
  obtain as p n bs where e: "head # xs @ ys @ [head] = as @ p # n # bs"
    and p: "p = last (head # xs)" and n: "n = hd (ys @ [head])" and as: "as @ [p] = head # xs"
    and bs: "n # bs = ys @ [head]" by (rule ring_at)
  have "links (list_insert new p n h) (as @ p # new # n # bs)"
    by (rule list_insert_links; unfold e [symmetric]) (use l new in \<open>simp_all add: is_list_ring\<close>)
  also have "as @ p # new # n # bs = head # (xs @ new # ys) @ [head]"
    using as bs by (metis append.assoc append_Cons append_Nil)
  finally show ?thesis unfolding p [symmetric] n [symmetric] using l new by (auto simp: is_list_def)
qed

lemma list_add_at:
  "is_list h head (xs @ ys) \<Longrightarrow> new \<notin> set (head # xs @ ys) \<Longrightarrow> old = last (head # xs) \<Longrightarrow>
     is_list (list_add new old h) head (xs @ new # ys)"
  by (simp only: list_add_def is_list_neighbours(1) list_insert_at not_False_eq_True)

lemma list_add_before_at:
  "is_list h head (xs @ ys) \<Longrightarrow> new \<notin> set (head # xs @ ys) \<Longrightarrow> old = hd (ys @ [head]) \<Longrightarrow>
     is_list (list_add_before new old h) head (xs @ new # ys)"
  by (simp only: list_add_before_def is_list_neighbours(2) list_insert_at not_False_eq_True)

lemma list_rm_eq:
  assumes "is_list h head (xs @ e # ys)"
  shows "list_rm e h = list_join (last (head # xs)) (hd (ys @ [head])) h"
  using is_list_neighbours(2) [of h head xs "e # ys"] is_list_neighbours(1) [of h head "xs @ [e]" ys]
    assms by (simp add: list_rm_def)

lemma list_rm_at:
  assumes l: "is_list h head (xs @ e # ys)"
  shows "is_list (list_rm e h) head (xs @ ys)"
proof -
  obtain as p n bs where eq: "head # xs @ ys @ [head] = as @ p # n # bs"
    and p: "p = last (head # xs)" and n: "n = hd (ys @ [head])" and as: "as @ [p] = head # xs"
    and bs: "n # bs = ys @ [head]" by (rule ring_at)
  have eq': "head # (xs @ e # ys) @ [head] = as @ p # e # n # bs"
    using as bs by (metis append.assoc append_Cons append_Nil)
  have "links (list_join p n h) (as @ p # n # bs)"
    by (rule list_join_links [of h as p e n bs]; unfold eq' [symmetric]) (use l in \<open>simp_all only: is_list_ring\<close>)
  then show ?thesis using l
    unfolding list_rm_eq [OF l] p [symmetric] n [symmetric] by (simp add: is_list_def flip: eq)
qed

text \<open>Lists that share no node with the one operated on are untouched.\<close>

lemma is_list_frame:
  "is_list h head xs \<Longrightarrow> (\<And>a. a \<in> set (head # xs) \<Longrightarrow> lnext h' a = lnext h a \<and> lprev h' a = lprev h a)
     \<Longrightarrow> is_list h' head xs"
  unfolding is_list_def by (subst links_frame [of _ h' h]) (auto simp: butlast_append)

lemma list_insert_untouched:
  "a \<notin> {new, p, n} \<Longrightarrow> lnext (list_insert new p n h) a = lnext h a"
  "a \<notin> {new, p, n} \<Longrightarrow> lprev (list_insert new p n h) a = lprev h a"
  by (auto simp: list_insert_def)

lemma list_join_untouched:
  "a \<notin> {p, n} \<Longrightarrow> lnext (list_join p n h) a = lnext h a"
  "a \<notin> {p, n} \<Longrightarrow> lprev (list_join p n h) a = lprev h a"
  by (auto simp: list_join_def)

lemma list_walk_links:
  "links h (pos # xs @ [head]) \<Longrightarrow> head \<notin> set (pos # xs) \<Longrightarrow> list_walk h head pos = Some (pos # xs)"
proof (induction xs arbitrary: pos)
  case Nil
  then show ?case by (simp add: list_walk.simps [of h head pos] list_walk.simps [of h head head])
next
  case (Cons x xs)
  then show ?case by (auto simp: list_walk.simps [of h head pos])
qed

lemma LIST_FOR_EACH_is_list: "is_list h head xs \<Longrightarrow> LIST_FOR_EACH h head = Some xs"
  using list_walk_links [of h "hd xs" "tl xs" head]
  by (cases xs) (auto simp: LIST_FOR_EACH_def is_list_def list_walk.simps [of h head head])


section \<open>Circular lists: every operation on the abstract list\<close>

lemma list_init_is_list: "is_list (list_init head h) head []"
  by (simp add: is_list_def list_init_def)

lemma list_empty_iff: "is_list h head xs \<Longrightarrow> list_empty h head \<longleftrightarrow> xs = []"
  by (cases xs) (auto simp: is_list_def list_empty_def)

lemma list_first_hd: "is_list h head (x # xs) \<Longrightarrow> list_first h head = x"
  by (simp add: is_list_def list_first_def)

lemma list_next_at:
  "is_list h head (xs @ x # ys) \<Longrightarrow> list_next h x head = (case ys of [] \<Rightarrow> None | y # _ \<Rightarrow> Some y)"
  using is_list_neighbours(1) [of h head "xs @ [x]" ys]
  by (auto simp: list_next_def is_list_def split: list.split)

lemma list_is_singular_iff: "is_list h head xs \<Longrightarrow> list_is_singular h head \<longleftrightarrow> length xs = 1"
proof (cases xs rule: rev_cases)
  case (snoc ys y)
  assume l: "is_list h head xs"
  with snoc have "lprev h head = y" using is_list_neighbours(2) [of h head "ys @ [y]" "[]"] by simp
  moreover have "lnext h head = hd (ys @ [y])" using l snoc list_first_hd [of h head]
    by (cases ys) (auto simp: list_first_def)
  moreover have "y \<notin> set ys" using l snoc by (simp add: is_list_def)
  ultimately show ?thesis using list_empty_iff [OF l] snoc
    by (cases ys) (auto simp: list_is_singular_def)
qed (simp add: list_is_singular_def list_empty_iff)

lemma list_rm_frame:
  assumes "is_list h head (xs @ e # ys)" and "is_list h q zs"
    and "set (head # xs @ ys) \<inter> set (q # zs) = {}"
  shows "is_list (list_rm e h) q zs"
proof (rule is_list_frame [OF assms(2)])
  fix a assume "a \<in> set (q # zs)"
  moreover have "last (head # xs) \<in> set (head # xs)" by (rule last_in_set) simp
  moreover have "hd (ys @ [head]) \<in> set (ys @ [head])" by (rule hd_in_set) simp
  ultimately have "a \<notin> {last (head # xs), hd (ys @ [head])}" using assms(3) by auto
  then show "lnext (list_rm e h) a = lnext h a \<and> lprev (list_rm e h) a = lprev h a"
    unfolding list_rm_eq [OF assms(1)] by (simp only: list_join_untouched not_False_eq_True)
qed

lemma list_add_frame:
  assumes l: "is_list h head xs" and q: "is_list h q zs"
    and d: "set (head # xs) \<inter> set (q # zs) = {}" and new: "new \<notin> set (q # zs)"
  shows "is_list (list_add new head h) q zs" "is_list (list_add_before new head h) q zs"
proof -
  have "hd (xs @ [head]) \<in> set (xs @ [head])" by (rule hd_in_set) simp
  then have "lnext h head \<in> set (head # xs)" using is_list_neighbours(1) [of h head "[]" xs] l by simp
  moreover have "last (head # xs) \<in> set (head # xs)" by (rule last_in_set) simp
  then have "lprev h head \<in> set (head # xs)" using is_list_neighbours(2) [of h head xs "[]"] l by simp
  ultimately have n: "a \<notin> {new, head, lnext h head} \<and> a \<notin> {new, lprev h head, head}"
    if "a \<in> set (q # zs)" for a
    using d new that by fastforce
  have "lnext (list_add new head h) a = lnext h a \<and> lprev (list_add new head h) a = lprev h a"
    if "a \<in> set (q # zs)" for a
    using n [OF that] by (auto simp: list_add_def intro: list_insert_untouched)
  then show "is_list (list_add new head h) q zs" by (rule is_list_frame [OF q])
  have "lnext (list_add_before new head h) a = lnext h a
      \<and> lprev (list_add_before new head h) a = lprev h a" if "a \<in> set (q # zs)" for a
    using n [OF that] by (auto simp: list_add_before_def intro: list_insert_untouched)
  then show "is_list (list_add_before new head h) q zs" by (rule is_list_frame [OF q])
qed

lemma list_replace_at:
  assumes l: "is_list h head (xs @ old # ys)" and new: "new \<notin> set (head # xs @ old # ys)"
  shows "is_list (list_replace old new h) head (xs @ new # ys)"
proof -
  let ?p = "last (head # xs)" and ?n = "hd (ys @ [head])"
  have po: "lprev h old = ?p" and no: "lnext h old = ?n"
    using is_list_neighbours(2) [of h head xs "old # ys"] is_list_neighbours(1) [of h head "xs @ [old]" ys] l
    by simp_all
  have "?p \<in> set (head # xs)" by (rule last_in_set) simp
  moreover have "?n \<in> set (ys @ [head])" by (rule hd_in_set) simp
  ultimately have d: "new \<noteq> ?p" "new \<noteq> ?n" "old \<noteq> ?p" "old \<noteq> ?n" using new l
    by (auto simp: is_list_def)
  have "list_replace old new h = list_insert new ?p ?n (list_rm old h)"
    using d unfolding list_rm_eq [OF l]
    by (intro list_mem.equality ext)
      (simp_all add: list_replace_def list_insert_def list_join_def po no Let_def set_next_def
        set_prev_def del: last.simps)
  then show ?thesis using list_insert_at [OF list_rm_at [OF l], of new] new by simp
qed

section \<open>The list interface its clients use\<close>

text \<open>
  What the clients of the lists rely on (free lists of the page and slab allocators, run
  queues, wait queues, open sockets): an abstraction to HOL lists, the effect of the four
  updates on the list operated on, and that disjoint lists are left alone.
\<close>

locale linked_list =
  fixes lst :: "'h \<Rightarrow> 'a \<Rightarrow> 'a list \<Rightarrow> bool"
    and add add_before :: "'a \<Rightarrow> 'a \<Rightarrow> 'h \<Rightarrow> 'h"
    and rm :: "'a \<Rightarrow> 'h \<Rightarrow> 'h"
    and first :: "'h \<Rightarrow> 'a \<Rightarrow> 'a"
  assumes lst_distinct: "lst h q xs \<Longrightarrow> distinct (q # xs)"
    and first_hd: "lst h q (x # xs) \<Longrightarrow> first h q = x"
    and add_front: "lst h q xs \<Longrightarrow> new \<notin> set (q # xs) \<Longrightarrow> lst (add new q h) q (new # xs)"
    and add_back: "lst h q xs \<Longrightarrow> new \<notin> set (q # xs) \<Longrightarrow> lst (add_before new q h) q (xs @ [new])"
    and rm_mid: "lst h q (xs @ e # ys) \<Longrightarrow> lst (rm e h) q (xs @ ys)"
    and add_other: "lst h q xs \<Longrightarrow> lst h r zs \<Longrightarrow> set (q # xs) \<inter> set (r # zs) = {}
      \<Longrightarrow> new \<notin> set (r # zs) \<Longrightarrow> lst (add new q h) r zs"
    and add_before_other: "lst h q xs \<Longrightarrow> lst h r zs \<Longrightarrow> set (q # xs) \<inter> set (r # zs) = {}
      \<Longrightarrow> new \<notin> set (r # zs) \<Longrightarrow> lst (add_before new q h) r zs"
    and rm_other: "lst h q (xs @ e # ys) \<Longrightarrow> lst h r zs \<Longrightarrow> set (q # xs @ ys) \<inter> set (r # zs) = {}
      \<Longrightarrow> lst (rm e h) r zs"
begin

lemma take_first: "lst h q (x # xs) \<Longrightarrow> lst (rm (first h q) h) q xs"
  using rm_mid [of h q "[]" x xs] by (simp add: first_hd)

lemma add_rm_cancel: "lst h q xs \<Longrightarrow> new \<notin> set (q # xs) \<Longrightarrow> lst (rm new (add new q h)) q xs"
  using rm_mid [of _ q "[]" new xs] add_front by fastforce

lemma move_between:
  assumes "lst h q (xs @ e # ys)" and "lst h r zs"
    and "set (q # xs @ e # ys) \<inter> set (r # zs) = {}"
  shows "lst (add e r (rm e h)) q (xs @ ys) \<and> lst (add e r (rm e h)) r (e # zs)"
proof -
  have q: "lst (rm e h) q (xs @ ys)" using assms(1) by (rule rm_mid)
  have r: "lst (rm e h) r zs" using rm_other [OF assms(1,2)] assms(3) by auto
  have e: "e \<notin> set (q # xs @ ys)" using lst_distinct [OF assms(1)] by auto
  have "lst (add e r (rm e h)) q (xs @ ys)" using add_other [OF r q] assms(3) e by auto
  moreover have "lst (add e r (rm e h)) r (e # zs)" using add_front [OF r] assms(3) by auto
  ultimately show ?thesis ..
qed

lemma rotate: "lst h q (x # xs) \<Longrightarrow> lst (add_before (first h q) q (rm (first h q) h)) q (xs @ [x])"
  using take_first [of h q x xs] lst_distinct [of h q "x # xs"] add_back first_hd [of h q x xs] by auto

end

interpretation list_h: linked_list is_list list_add list_add_before list_rm list_first
proof (unfold_locales, goal_cases)
  case 1 then show ?case by (simp add: is_list_def)
next
  case 2 then show ?case by (rule list_first_hd)
next
  case (3 h q xs new) then show ?case using list_add_at [of h q "[]" xs new q] by simp
next
  case (4 h q xs new) then show ?case using list_add_before_at [of h q xs "[]" new q] by simp
next
  case 5 then show ?case by (rule list_rm_at)
next
  case 6 then show ?case by (rule list_add_frame)
next
  case 7 then show ?case by (rule list_add_frame)
next
  case 8 then show ?case by (rule list_rm_frame)
qed

text \<open>A concrete memory for the instances below: heads 0 and 7, entries 2 to 5.\<close>

definition sample_lists :: "nat list_mem" where
  "sample_lists = list_add_before 5 7 (list_add 2 0 (list_add 3 0 (list_add 4 0
     (list_init 7 (list_init 0 \<lparr>lnext = id, lprev = id\<rparr>)))))"

lemma sample_lists_are:
  "is_list sample_lists 0 [2, 3, 4]" "is_list sample_lists 7 [5]"
  by (simp_all add: sample_lists_def is_list_def list_add_def list_add_before_def list_insert_def
      list_init_def)

text \<open>
  C28. Moving an entry from the middle of one list to another (\<^verbatim>\<open>list_move\<close>, the unlinking and
  relinking behind every queue of the kernel) takes exactly that entry out of the first list,
  puts it at the front of the second, and keeps both rings well formed, back pointers included.
\<close>
theorem list_move_refines:
  assumes "is_list h a (xs @ e # ys)" and "is_list h b zs"
    and "set (a # xs @ e # ys) \<inter> set (b # zs) = {}"
  shows "is_list (list_move e b h) a (xs @ ys) \<and> is_list (list_move e b h) b (e # zs)"
  using list_h.move_between [OF assms] by (simp add: list_move_def)

theorem list_move_refines_witness:
  "is_list (list_move 3 7 sample_lists) 0 [2, 4] \<and> is_list (list_move 3 7 sample_lists) 7 [3, 5]"
  using list_move_refines [of sample_lists 0 "[2]" 3 "[4]" 7 "[5]"] by (simp add: sample_lists_are)

text \<open>
  C29. \<^verbatim>\<open>LIST_FOR_EACH\<close> on a well-formed list terminates and visits every entry exactly once, in
  list order; \<^verbatim>\<open>list_rotate_left\<close> moves the first entry to the end (and does nothing on an
  empty list), and \<^verbatim>\<open>list_replace\<close> puts the new entry where the old one was.
\<close>
theorem list_traversal:
  assumes "is_list h head xs"
  shows "LIST_FOR_EACH h head = Some xs
    \<and> LIST_FOR_EACH (list_rotate_left head h) head = Some (rotate1 xs)
    \<and> (\<forall>i new. i < length xs \<longrightarrow> new \<notin> set (head # xs) \<longrightarrow>
          LIST_FOR_EACH (list_replace (xs ! i) new h) head = Some (xs[i := new]))"
proof (intro conjI allI impI)
  show "LIST_FOR_EACH h head = Some xs" by (rule LIST_FOR_EACH_is_list [OF assms])
  show "LIST_FOR_EACH (list_rotate_left head h) head = Some (rotate1 xs)"
  proof (cases xs)
    case (Cons x ys)
    then show ?thesis using list_h.rotate [of h head x ys] assms list_empty_iff [OF assms]
      by (intro LIST_FOR_EACH_is_list)
        (simp add: list_rotate_left_def list_move_before_def list_first_def)
  qed (use assms list_empty_iff [OF assms] in
      \<open>simp add: list_rotate_left_def LIST_FOR_EACH_is_list\<close>)
  fix i new assume i: "i < length xs" and new: "new \<notin> set (head # xs)"
  have "xs = take i xs @ xs ! i # drop (Suc i) xs" using i by (rule id_take_nth_drop)
  then have "is_list (list_replace (xs ! i) new h) head (take i xs @ new # drop (Suc i) xs)"
    using list_replace_at [of h head "take i xs" "xs ! i" "drop (Suc i) xs" new] assms new by simp
  then show "LIST_FOR_EACH (list_replace (xs ! i) new h) head = Some (xs[i := new])"
    using i by (simp add: LIST_FOR_EACH_is_list upd_conv_take_nth_drop)
qed

theorem list_traversal_witness:
  "LIST_FOR_EACH sample_lists 0 = Some [2, 3, 4]
   \<and> LIST_FOR_EACH (list_rotate_left 0 sample_lists) 0 = Some [3, 4, 2]
   \<and> LIST_FOR_EACH (list_replace 3 9 sample_lists) 0 = Some [2, 9, 4]"
proof -
  note t = list_traversal [OF sample_lists_are(1)]
  then have "LIST_FOR_EACH (list_replace ([2, 3, 4] ! 1) 9 sample_lists) 0 = Some ([2, 3, 4][1 := 9])"
    by (elim conjE allE [where x = 1] allE [where x = 9]) simp
  with t show ?thesis by simp
qed

end
