(* ===== verification/Hash_Table.thy ===== *)
theory Hash_Table
  imports Word_Ops
begin

text \<open>
  The NULL-terminated chains of \<^verbatim>\<open>inc/common/list.h\<close> and the hash tables of
  \<^verbatim>\<open>inc/common/hashtable.h\<close> made of them. A chain node holds the next node and \<^verbatim>\<open>pprev\<close>, the
  address of the pointer that points to it: the \<^verbatim>\<open>first\<close> field of a head or the \<^verbatim>\<open>next\<close> field
  of another node. That address is the datatype \<open>slot\<close>, and writing through it is \<open>store\<close>. A
  NULL that is dereferenced is a page fault in the kernel, which panics: \<^term>\<open>None\<close>.
\<close>

section \<open>Chains: the code\<close>

datatype ('h, 'n) slot = HeadFirst 'h | NodeNext 'n

record ('h, 'n) chain_mem =
  cfirst :: "'h \<Rightarrow> 'n option"
  cnext :: "'n \<Rightarrow> 'n option"
  cpprev :: "'n \<Rightarrow> ('h, 'n) slot option"

fun load :: "('h, 'n) chain_mem \<Rightarrow> ('h, 'n) slot \<Rightarrow> 'n option" where
  "load m (HeadFirst h) = cfirst m h"
| "load m (NodeNext n) = cnext m n"

fun store :: "('h, 'n) slot \<Rightarrow> 'n option \<Rightarrow> ('h, 'n) chain_mem \<Rightarrow> ('h, 'n) chain_mem" where
  "store (HeadFirst h) v m = m\<lparr>cfirst := (cfirst m)(h := v)\<rparr>"
| "store (NodeNext n) v m = m\<lparr>cnext := (cnext m)(n := v)\<rparr>"

definition set_pprev ::
  "'n \<Rightarrow> ('h, 'n) slot option \<Rightarrow> ('h, 'n) chain_mem \<Rightarrow> ('h, 'n) chain_mem" where
  "set_pprev n v m = m\<lparr>cpprev := (cpprev m)(n := v)\<rparr>"

definition chain_init :: "'h \<Rightarrow> ('h, 'n) chain_mem \<Rightarrow> ('h, 'n) chain_mem" where
  "chain_init head m = store (HeadFirst head) None m"

definition chain_init_node :: "'n \<Rightarrow> ('h, 'n) chain_mem \<Rightarrow> ('h, 'n) chain_mem" where
  "chain_init_node n m = set_pprev n None (store (NodeNext n) None m)"

definition chain_unhashed :: "('h, 'n) chain_mem \<Rightarrow> 'n \<Rightarrow> bool" where
  "chain_unhashed m n = (cpprev m n = None)"

definition chain_empty :: "('h, 'n) chain_mem \<Rightarrow> 'h \<Rightarrow> bool" where
  "chain_empty m head = (cfirst m head = None)"

definition chain_join :: "('h, 'n) slot option \<Rightarrow> 'n option \<Rightarrow> ('h, 'n) chain_mem
    \<Rightarrow> ('h, 'n) chain_mem option" where
  "chain_join pprev next m =
     (case pprev of None \<Rightarrow> None
      | Some s \<Rightarrow> Some (case next of None \<Rightarrow> store s None m
                        | Some x \<Rightarrow> set_pprev x (Some s) (store s (Some x) m)))"

definition chain_rm :: "'n \<Rightarrow> ('h, 'n) chain_mem \<Rightarrow> ('h, 'n) chain_mem option" where
  "chain_rm n m = do {
     m1 \<leftarrow> chain_join (cpprev m n) (cnext m n) m;
     Some (set_pprev n None (store (NodeNext n) None m1)) }"

definition chain_add_head :: "'n \<Rightarrow> 'h \<Rightarrow> ('h, 'n) chain_mem \<Rightarrow> ('h, 'n) chain_mem" where
  "chain_add_head n h m =
     (let first = cfirst m h;
          m1 = store (NodeNext n) first m;
          m2 = (case first of None \<Rightarrow> m1 | Some f \<Rightarrow> set_pprev f (Some (NodeNext n)) m1)
      in set_pprev n (Some (HeadFirst h)) (store (HeadFirst h) (Some n) m2))"

definition chain_add_before :: "'n \<Rightarrow> 'n \<Rightarrow> ('h, 'n) chain_mem \<Rightarrow> ('h, 'n) chain_mem option" where
  "chain_add_before n next m =
     (let m1 = set_pprev n (cpprev m next) m;
          m2 = store (NodeNext n) (Some next) m1;
          m3 = set_pprev next (Some (NodeNext n)) m2
      in (case cpprev m3 n of None \<Rightarrow> None | Some s \<Rightarrow> Some (store s (Some n) m3)))"

definition chain_add_after :: "'n \<Rightarrow> 'n \<Rightarrow> ('h, 'n) chain_mem \<Rightarrow> ('h, 'n) chain_mem" where
  "chain_add_after n next m =
     (let m1 = store (NodeNext next) (cnext m n) m;
          m2 = store (NodeNext n) (Some next) m1;
          m3 = set_pprev next (Some (NodeNext n)) m2
      in (case cnext m3 next of None \<Rightarrow> m3 | Some y \<Rightarrow> set_pprev y (Some (NodeNext next)) m3))"

definition chain_move_list :: "'h \<Rightarrow> 'h \<Rightarrow> ('h, 'n) chain_mem \<Rightarrow> ('h, 'n) chain_mem" where
  "chain_move_list old new m =
     (let m1 = store (HeadFirst new) (cfirst m old) m;
          m2 = (case cfirst m1 new of None \<Rightarrow> m1
                | Some f \<Rightarrow> set_pprev f (Some (HeadFirst new)) m1)
      in store (HeadFirst old) None m2)"

text \<open>\<^verbatim>\<open>CHAIN_FOR_EACH\<close>: the nodes visited, \<^term>\<open>None\<close> if the chain never ends.\<close>

partial_function (option) chain_walk :: "('h, 'n) chain_mem \<Rightarrow> 'n option \<Rightarrow> 'n list option" where
  [code]: "chain_walk m pos =
     (case pos of None \<Rightarrow> Some []
      | Some n \<Rightarrow> do { rest \<leftarrow> chain_walk m (cnext m n); Some (n # rest) })"

definition CHAIN_FOR_EACH :: "('h, 'n) chain_mem \<Rightarrow> 'h \<Rightarrow> 'n list option" where
  "CHAIN_FOR_EACH m head = chain_walk m (cfirst m head)"

section \<open>Hash tables: the code\<close>

text \<open>A table is an array of \<open>n\<close> chain heads; a head is its index, as the code computes it.\<close>

fun hashtable_init_loop :: "nat \<Rightarrow> (u32, 'n) chain_mem \<Rightarrow> (u32, 'n) chain_mem" where
  "hashtable_init_loop 0 m = m"
| "hashtable_init_loop (Suc k) m = chain_init (of_nat k) (hashtable_init_loop k m)"

definition hashtable_init_size :: "u32 \<Rightarrow> (u32, 'n) chain_mem \<Rightarrow> (u32, 'n) chain_mem" where
  "hashtable_init_size n m = hashtable_init_loop (unat n) m"

definition hashtable_add ::
  "u32 \<Rightarrow> 'n \<Rightarrow> u64 \<Rightarrow> (u32, 'n) chain_mem \<Rightarrow> (u32, 'n) chain_mem option" where
  "hashtable_add key node n m = do { i \<leftarrow> hashtable_index key n; Some (chain_add_head node i m) }"

definition hashtable_rm :: "'n \<Rightarrow> (u32, 'n) chain_mem \<Rightarrow> (u32, 'n) chain_mem option" where
  "hashtable_rm node m = chain_rm node m"

definition HASHTABLE_FOR_EACH_COLLISION ::
  "u32 \<Rightarrow> u64 \<Rightarrow> (u32, 'n) chain_mem \<Rightarrow> 'n list option" where
  "HASHTABLE_FOR_EACH_COLLISION key n m = do { i \<leftarrow> hashtable_index key n; CHAIN_FOR_EACH m i }"

section \<open>Chains: the abstraction\<close>

text \<open>
  \<open>cpath m s xs\<close>: following pointers from the slot \<open>s\<close> one meets the nodes \<open>xs\<close>, each with a
  back pointer to the slot it was reached through; \<open>end_slot\<close> is the slot reached last.
\<close>

fun cpath :: "('h, 'n) chain_mem \<Rightarrow> ('h, 'n) slot \<Rightarrow> 'n list \<Rightarrow> bool" where
  "cpath m s [] = True"
| "cpath m s (x # xs) = (load m s = Some x \<and> cpprev m x = Some s \<and> cpath m (NodeNext x) xs)"

fun end_slot :: "('h, 'n) slot \<Rightarrow> 'n list \<Rightarrow> ('h, 'n) slot" where
  "end_slot s [] = s"
| "end_slot s (x # xs) = end_slot (NodeNext x) xs"

definition is_chain :: "('h, 'n) chain_mem \<Rightarrow> 'h \<Rightarrow> 'n list \<Rightarrow> bool" where
  "is_chain m h xs = (distinct xs \<and> cpath m (HeadFirst h) xs
     \<and> load m (end_slot (HeadFirst h) xs) = None)"

lemma load_store [simp]: "load (store s v m) t = (if t = s then v else load m t)"
  by (cases s; cases t) auto

lemma cpprev_store [simp]: "cpprev (store s v m) = cpprev m"
  by (cases s) auto

lemma set_pprev_simps [simp]:
  "load (set_pprev n v m) t = load m t" "cpprev (set_pprev n v m) = (cpprev m)(n := v)"
  by (cases t; simp add: set_pprev_def)+

declare load.simps [simp del] store.simps [simp del]

lemma load_fields [simp]:
  "cfirst m h = load m (HeadFirst h)" "cnext m n = load m (NodeNext n)"
  by (simp_all add: load.simps)

lemma cpath_append:
  "cpath m s (xs @ ys) = (cpath m s xs \<and> cpath m (end_slot s xs) ys)"
  by (induction xs arbitrary: s) auto

lemma end_slot_append [simp]: "end_slot s (xs @ ys) = end_slot (end_slot s xs) ys"
  by (induction xs arbitrary: s) auto

lemma end_slot_last: "xs \<noteq> [] \<Longrightarrow> end_slot s xs = NodeNext (last xs)"
  by (induction xs arbitrary: s) auto

lemma end_slot_cases: "end_slot s xs = s \<and> xs = [] \<or> (\<exists>x\<in>set xs. end_slot s xs = NodeNext x)"
  by (cases "xs = []") (auto simp: end_slot_last)

lemma cpath_frame:
  assumes "xs \<noteq> [] \<Longrightarrow> load m' s = load m s"
    and "\<And>x. x \<in> set (butlast xs) \<Longrightarrow> load m' (NodeNext x) = load m (NodeNext x)"
    and "\<And>x. x \<in> set xs \<Longrightarrow> cpprev m' x = cpprev m x"
  shows "cpath m' s xs = cpath m s xs"
  using assms
proof (induction xs arbitrary: s)
  case (Cons x xs)
  have "cpath m' (NodeNext x) xs = cpath m (NodeNext x) xs"
  proof (rule Cons.IH)
    show "load m' (NodeNext x) = load m (NodeNext x)" if "xs \<noteq> []" using Cons.prems(2) that by simp
    show "load m' (NodeNext y) = load m (NodeNext y)" if "y \<in> set (butlast xs)" for y
      using Cons.prems(2) [of y] that by (cases xs) auto
  qed (use Cons.prems(3) in simp)
  moreover have "load m' s = load m s" using Cons.prems(1) by simp
  moreover have "cpprev m' x = cpprev m x" using Cons.prems(3) by simp
  ultimately show ?case by simp
qed simp

lemma is_chain_frame:
  assumes "is_chain m h xs" and "load m' (HeadFirst h) = load m (HeadFirst h)"
    and "\<And>x. x \<in> set xs \<Longrightarrow> load m' (NodeNext x) = load m (NodeNext x) \<and> cpprev m' x = cpprev m x"
  shows "is_chain m' h xs"
proof -
  have "cpath m' (HeadFirst h) xs = cpath m (HeadFirst h) xs"
    by (rule cpath_frame) (use assms in \<open>auto dest: in_set_butlastD\<close>)
  moreover have "load m' (end_slot (HeadFirst h) xs) = load m (end_slot (HeadFirst h) xs)"
    using end_slot_cases [of "HeadFirst h" xs] assms by auto
  ultimately show ?thesis using assms(1) by (simp add: is_chain_def)
qed

lemma distinct_butlast_last: "distinct xs \<Longrightarrow> last xs \<notin> set (butlast xs)"
  by (induction xs) (auto dest: in_set_butlastD)

lemma chain_rm_at:
  assumes c: "is_chain m h (xs @ n # ys)"
  shows "\<exists>m'. chain_rm n m = Some m' \<and> is_chain m' h (xs @ ys) \<and> chain_unhashed m' n
     \<and> (\<forall>t. t \<notin> insert (NodeNext n) (insert (HeadFirst h) (NodeNext ` set xs)) \<longrightarrow> load m' t = load m t)
     \<and> (\<forall>x. x \<notin> insert n (set ys) \<longrightarrow> cpprev m' x = cpprev m x)"
proof -
  let ?s = "end_slot (HeadFirst h) xs"
  have d: "distinct (xs @ n # ys)" and p: "cpath m (HeadFirst h) xs"
    and s: "load m ?s = Some n" "cpprev m n = Some ?s" and q: "cpath m (NodeNext n) ys"
    and e: "load m (end_slot (NodeNext n) ys) = None"
    using c by (auto simp: is_chain_def cpath_append)
  have sl: "?s = HeadFirst h \<and> xs = [] \<or> (\<exists>x\<in>set xs. ?s = NodeNext x \<and> x = last xs)"
    by (cases "xs = []") (auto simp: end_slot_last)
  then have sn: "?s \<noteq> NodeNext n" "\<And>y. y \<in> set ys \<Longrightarrow> NodeNext y \<noteq> ?s"
    and sx: "xs \<noteq> [] \<Longrightarrow> HeadFirst h \<noteq> ?s" "\<And>x. x \<in> set (butlast xs) \<Longrightarrow> NodeNext x \<noteq> ?s"
    using d by (auto simp: distinct_butlast_last)
  have nn: "load m (NodeNext n) = (case ys of [] \<Rightarrow> None | y # _ \<Rightarrow> Some y)"
    using q e by (cases ys) auto
  define m' where "m' = set_pprev n None (store (NodeNext n) None
      (case cnext m n of None \<Rightarrow> store ?s None m
       | Some y \<Rightarrow> set_pprev y (Some ?s) (store ?s (Some y) m)))"
  have rm: "chain_rm n m = Some m'" by (simp add: chain_rm_def chain_join_def s m'_def)
  have lm: "load m' t = (if t = NodeNext n then None
      else if t = ?s then load m (NodeNext n) else load m t)" for t
    by (simp add: m'_def split: option.split)
  have pm: "cpprev m' x = (if x = n then None
      else if Some x = load m (NodeNext n) then Some ?s else cpprev m x)" for x
    by (auto simp: m'_def split: option.split)
  have "cpath m' (HeadFirst h) xs = cpath m (HeadFirst h) xs"
  proof (rule cpath_frame)
    show "load m' (HeadFirst h) = load m (HeadFirst h)" if "xs \<noteq> []" using sx(1) [OF that] by (simp add: lm)
    show "load m' (NodeNext x) = load m (NodeNext x)" if "x \<in> set (butlast xs)" for x
      using sx(2) [OF that] in_set_butlastD [OF that] d by (auto simp: lm)
    show "cpprev m' x = cpprev m x" if "x \<in> set xs" for x
      using that d nn by (auto simp: pm split: list.splits)
  qed
  moreover have "cpath m' ?s ys"
  proof (cases ys)
    case (Cons y zs)
    have "cpath m' (NodeNext y) zs = cpath m (NodeNext y) zs"
      by (rule cpath_frame) (use d sn(2) nn Cons in \<open>auto simp: lm pm dest: in_set_butlastD\<close>)
    then show ?thesis using Cons d sn(1) q nn by (auto simp: lm pm)
  qed simp
  moreover have "load m' (end_slot ?s ys) = None"
  proof (cases "ys = []")
    case False
    then have "last ys \<noteq> n" "NodeNext (last ys) \<noteq> ?s" using d sn(2) by auto
    then show ?thesis using e False by (simp add: lm end_slot_last)
  qed (use nn sn(1) in \<open>simp add: lm\<close>)
  ultimately have "is_chain m' h (xs @ ys)" using d p by (simp add: is_chain_def cpath_append)
  moreover have "chain_unhashed m' n" by (simp add: chain_unhashed_def pm)
  moreover have "load m' t = load m t"
    if "t \<notin> insert (NodeNext n) (insert (HeadFirst h) (NodeNext ` set xs))" for t
    using that sl by (auto simp: lm)
  moreover have "cpprev m' x = cpprev m x" if "x \<notin> insert n (set ys)" for x
    using that nn by (auto simp: pm split: list.splits)
  ultimately show ?thesis using rm by blast
qed

text \<open>All three insertions have this effect on slots and back pointers.\<close>

lemma chain_insert_at:
  assumes c: "is_chain m h (xs @ ys)" and new: "n \<notin> set (xs @ ys)"
    and lm: "\<And>t. load m' t = (if t = end_slot (HeadFirst h) xs then Some n
        else if t = NodeNext n then load m (end_slot (HeadFirst h) xs) else load m t)"
    and pm: "\<And>x. cpprev m' x = (if x = n then Some (end_slot (HeadFirst h) xs)
        else if Some x = load m (end_slot (HeadFirst h) xs) then Some (NodeNext n) else cpprev m x)"
  shows "is_chain m' h (xs @ n # ys)"
proof -
  let ?s = "end_slot (HeadFirst h) xs"
  have d: "distinct (xs @ ys)" and p: "cpath m (HeadFirst h) xs" and q: "cpath m ?s ys"
    and e: "load m (end_slot ?s ys) = None"
    using c by (auto simp: is_chain_def cpath_append)
  have sl: "?s = HeadFirst h \<and> xs = [] \<or> (\<exists>x\<in>set xs. ?s = NodeNext x \<and> x = last xs)"
    by (cases "xs = []") (auto simp: end_slot_last)
  then have sn: "?s \<noteq> NodeNext n" "\<And>y. y \<in> set ys \<Longrightarrow> NodeNext y \<noteq> ?s"
    and sx: "xs \<noteq> [] \<Longrightarrow> HeadFirst h \<noteq> ?s" "\<And>x. x \<in> set (butlast xs) \<Longrightarrow> NodeNext x \<noteq> ?s"
    using d new distinct_butlast_last [of xs] by auto
  have nn: "load m ?s = (case ys of [] \<Rightarrow> None | y # _ \<Rightarrow> Some y)"
    using q e by (cases ys) auto
  have "cpath m' (HeadFirst h) xs = cpath m (HeadFirst h) xs"
  proof (rule cpath_frame)
    show "load m' (HeadFirst h) = load m (HeadFirst h)" if "xs \<noteq> []" using sx(1) [OF that] by (simp add: lm)
    show "load m' (NodeNext x) = load m (NodeNext x)" if "x \<in> set (butlast xs)" for x
      using sx(2) [OF that] in_set_butlastD [OF that] new by (auto simp: lm)
    show "cpprev m' x = cpprev m x" if "x \<in> set xs" for x
      using that d new nn by (auto simp: pm split: list.splits)
  qed
  moreover have "cpath m' (NodeNext n) ys"
  proof (cases ys)
    case (Cons y zs)
    have "cpath m' (NodeNext y) zs = cpath m (NodeNext y) zs"
      by (rule cpath_frame) (use d new sn(2) nn Cons in \<open>auto simp: lm pm dest: in_set_butlastD\<close>)
    then show ?thesis using Cons d new sn(1) q nn by (auto simp: lm pm)
  qed simp
  moreover have "load m' (end_slot (NodeNext n) ys) = None"
  proof (cases "ys = []")
    case False
    then have "last ys \<noteq> n" "NodeNext (last ys) \<noteq> ?s" using new sn(2) last_in_set [of ys] by auto
    then show ?thesis using e False by (simp add: lm end_slot_last)
  qed (use nn sn(1) in \<open>auto simp: lm\<close>)
  ultimately show ?thesis using d p new by (simp add: is_chain_def cpath_append lm pm)
qed

lemma chain_add_head_effect:
  "load (chain_add_head n h m) t = (if t = HeadFirst h then Some n
     else if t = NodeNext n then load m (HeadFirst h) else load m t)"
  "cpprev (chain_add_head n h m) x = (if x = n then Some (HeadFirst h)
     else if Some x = load m (HeadFirst h) then Some (NodeNext n) else cpprev m x)"
  by (auto simp: chain_add_head_def Let_def split: option.split)

lemma chain_add_head_at: "is_chain m h ys \<Longrightarrow> n \<notin> set ys \<Longrightarrow> is_chain (chain_add_head n h m) h (n # ys)"
  using chain_insert_at [of m h "[]" ys n "chain_add_head n h m"] by (simp add: chain_add_head_effect)

lemma chain_add_before_at:
  assumes c: "is_chain m h (xs @ next # ys)" and n: "n \<notin> set (xs @ next # ys)"
  shows "\<exists>m'. chain_add_before n next m = Some m' \<and> is_chain m' h (xs @ n # next # ys)"
proof -
  let ?s = "end_slot (HeadFirst h) xs"
  have s: "load m ?s = Some next" "cpprev m next = Some ?s"
    using c by (auto simp: is_chain_def cpath_append)
  have "?s \<noteq> NodeNext n" "next \<noteq> n" using n end_slot_cases [of "HeadFirst h" xs] by auto
  then show ?thesis using s chain_insert_at [OF c n] by (auto simp: chain_add_before_def Let_def)
qed

lemma chain_add_after_at:
  assumes c: "is_chain m h (xs @ n # ys)" and new: "next \<notin> set (xs @ n # ys)"
  shows "is_chain (chain_add_after n next m) h (xs @ n # next # ys)"
proof -
  have "load m (NodeNext n) \<noteq> Some next"
    using c new by (cases ys) (auto simp: is_chain_def cpath_append)
  then have "load (chain_add_after n next m) t = (if t = NodeNext n then Some next
        else if t = NodeNext next then load m (NodeNext n) else load m t)"
    and "cpprev (chain_add_after n next m) x = (if x = next then Some (NodeNext n)
        else if Some x = load m (NodeNext n) then Some (NodeNext next) else cpprev m x)" for t x
    using new by (auto simp: chain_add_after_def Let_def split: option.split)
  then show ?thesis using chain_insert_at [of m h "xs @ [n]" ys "next" "chain_add_after n next m"] c new
    by simp
qed

lemma chain_move_list_at:
  assumes c: "is_chain m old xs" and ne: "old \<noteq> new"
  shows "is_chain (chain_move_list old new m) new xs \<and> is_chain (chain_move_list old new m) old []"
proof -
  let ?m = "chain_move_list old new m"
  have l: "load ?m t = (if t = HeadFirst old then None
      else if t = HeadFirst new then load m (HeadFirst old) else load m t)"
   and p: "cpprev ?m x = (if Some x = load m (HeadFirst old) then Some (HeadFirst new) else cpprev m x)"
    for t x
    using ne by (auto simp: chain_move_list_def Let_def split: option.split)
  show ?thesis
  proof (cases xs)
    case (Cons x ys)
    have "cpath ?m (NodeNext x) ys = cpath m (NodeNext x) ys"
      by (rule cpath_frame) (use c Cons in \<open>auto simp: l p is_chain_def\<close>)
    then show ?thesis using c Cons ne by (simp add: is_chain_def l p) (cases "ys = []"; simp add: end_slot_last l)
  qed (use c ne in \<open>simp add: is_chain_def l\<close>)
qed

lemma chain_walk_path:
  "cpath m s xs \<Longrightarrow> load m (end_slot s xs) = None \<Longrightarrow> chain_walk m (load m s) = Some xs"
  by (induction xs arbitrary: s) (simp_all add: chain_walk.simps [of m None] chain_walk.simps [of m "Some _"])

lemma CHAIN_FOR_EACH_is_chain: "is_chain m h xs \<Longrightarrow> CHAIN_FOR_EACH m h = Some xs"
  by (simp add: CHAIN_FOR_EACH_def is_chain_def chain_walk_path)

section \<open>Hash tables\<close>

text \<open>\<open>table_ok n m f\<close>: the \<open>n\<close> chains are well formed, hold the buckets \<open>f\<close> and are disjoint.\<close>

definition table_ok :: "nat \<Rightarrow> (u32, 'n) chain_mem \<Rightarrow> (u32 \<Rightarrow> 'n list) \<Rightarrow> bool" where
  "table_ok n m f = ((\<forall>i. unat i < n \<longrightarrow> is_chain m i (f i))
     \<and> (\<forall>i j. unat i < n \<longrightarrow> unat j < n \<longrightarrow> i \<noteq> j \<longrightarrow> set (f i) \<inter> set (f j) = {}))"

lemma table_okD:
  "table_ok n m f \<Longrightarrow> unat i < n \<Longrightarrow> is_chain m i (f i)"
  "table_ok n m f \<Longrightarrow> unat i < n \<Longrightarrow> unat j < n \<Longrightarrow> i \<noteq> j \<Longrightarrow> set (f i) \<inter> set (f j) = {}"
  by (auto simp: table_ok_def)

lemma table_okI:
  "(\<And>i. unat i < n \<Longrightarrow> is_chain m i (f i)) \<Longrightarrow>
     (\<And>i j. unat i < n \<Longrightarrow> unat j < n \<Longrightarrow> i \<noteq> j \<Longrightarrow> set (f i) \<inter> set (f j) = {}) \<Longrightarrow> table_ok n m f"
  by (simp add: table_ok_def)

lemma hashtable_init_loop_load:
  "n \<le> 2 ^ 32 \<Longrightarrow> load (hashtable_init_loop n m) (HeadFirst i)
     = (if unat i < n then None else load m (HeadFirst i))"
proof (induction n)
  case (Suc n)
  then have "unat (of_nat n :: u32) = n" by (simp add: unat_of_nat)
  then have "i = of_nat n \<longleftrightarrow> unat i = n" by auto
  with Suc show ?case by (auto simp: chain_init_def)
qed simp

lemma hashtable_init_table_ok: "table_ok (unat n) (hashtable_init_size n m) (\<lambda>_. [])"
  using unat_lt_32 [of n] by (simp add: table_ok_def is_chain_def hashtable_init_size_def hashtable_init_loop_load)

lemma chain_add_head_table_ok:
  assumes t: "table_ok n m f" and i: "unat i < n" and new: "\<And>j. unat j < n \<Longrightarrow> node \<notin> set (f j)"
  shows "table_ok n (chain_add_head node i m) (f(i := node # f i))"
proof (rule table_okI)
  fix j :: u32 assume j: "unat j < n"
  show "is_chain (chain_add_head node i m) j ((f(i := node # f i)) j)"
  proof (cases "j = i")
    case True
    then show ?thesis using chain_add_head_at [OF table_okD(1) [OF t i] new [OF i]] by simp
  next
    case False
    have f: "load m (HeadFirst i) = Some x \<Longrightarrow> x \<in> set (f i)" for x
      using table_okD(1) [OF t i] by (cases "f i") (auto simp: is_chain_def)
    have "is_chain (chain_add_head node i m) j (f j)"
    proof (rule is_chain_frame [OF table_okD(1) [OF t j]])
      fix x assume "x \<in> set (f j)"
      then have "x \<noteq> node" "load m (HeadFirst i) \<noteq> Some x"
        using new [OF j] f table_okD(2) [OF t i j] False by auto
      then show "load (chain_add_head node i m) (NodeNext x) = load m (NodeNext x)
          \<and> cpprev (chain_add_head node i m) x = cpprev m x" by (simp add: chain_add_head_effect)
    qed (use False in \<open>simp add: chain_add_head_effect\<close>)
    then show ?thesis using False by simp
  qed
next
  fix j k :: u32 assume "unat j < n" "unat k < n" "j \<noteq> k"
  then show "set ((f(i := node # f i)) j) \<inter> set ((f(i := node # f i)) k) = {}"
    using table_okD(2) [OF t, of j k] new by auto
qed

lemma chain_rm_table_ok:
  assumes t: "table_ok n m f" and i: "unat i < n" and x: "f i = xs @ node # ys"
  shows "\<exists>m'. chain_rm node m = Some m' \<and> chain_unhashed m' node \<and> table_ok n m' (f(i := xs @ ys))"
proof -
  have "is_chain m i (xs @ node # ys)" using table_okD(1) [OF t i] x by simp
  from chain_rm_at [OF this] obtain m' where m': "chain_rm node m = Some m'" "is_chain m' i (xs @ ys)"
    "chain_unhashed m' node"
    and l: "\<And>t. t \<notin> insert (NodeNext node) (insert (HeadFirst i) (NodeNext ` set xs)) \<Longrightarrow> load m' t = load m t"
    and p: "\<And>x. x \<notin> insert node (set ys) \<Longrightarrow> cpprev m' x = cpprev m x" by blast
  have "table_ok n m' (f(i := xs @ ys))"
  proof (rule table_okI)
    fix j :: u32 assume j: "unat j < n"
    have "is_chain m' j (f j)" if "j \<noteq> i"
    proof (rule is_chain_frame [OF table_okD(1) [OF t j]])
      have d: "set (f j) \<inter> set (xs @ node # ys) = {}" using table_okD(2) [OF t j i] that x by simp
      then show "load m' (NodeNext z) = load m (NodeNext z) \<and> cpprev m' z = cpprev m z"
        if "z \<in> set (f j)" for z using that by (intro conjI l p) auto
      show "load m' (HeadFirst j) = load m (HeadFirst j)" using that by (intro l) auto
    qed
    then show "is_chain m' j ((f(i := xs @ ys)) j)" using m'(2) by simp
  next
    fix j k :: u32 assume "unat j < n" "unat k < n" "j \<noteq> k"
    then show "set ((f(i := xs @ ys)) j) \<inter> set ((f(i := xs @ ys)) k) = {}"
      using table_okD(2) [OF t, of j k] x by auto
  qed
  then show ?thesis using m' by blast
qed

text \<open>The two declarations of a table, as the sizes they give; a larger size is not an \<^verbatim>\<open>int\<close>.\<close>

definition table_size :: "nat \<Rightarrow> u64 \<Rightarrow> bool" where
  "table_size bits n = (1 < bits
     \<and> (n = DEFINE_HASHTABLE_size bits \<and> bits \<le> 31 \<or> n = DECLARE_HASHTABLE_size bits \<and> bits \<le> 30))"

lemma table_size_index:
  "table_size bits n \<Longrightarrow> \<exists>i. hashtable_index key n = Some i \<and> unat i < unat n"
  using hashtable_index_pow2 [of "bits - 1" key] hashtable_index_pow2 [of bits key]
  by (auto simp: table_size_def table_sizes)

lemma collisions_bucket:
  "table_ok (unat n) m f \<Longrightarrow> hashtable_index key n = Some i \<Longrightarrow> unat i < unat n \<Longrightarrow>
     HASHTABLE_FOR_EACH_COLLISION key n m = Some (f i)"
  by (simp add: HASHTABLE_FOR_EACH_COLLISION_def table_ok_def CHAIN_FOR_EACH_is_chain)

text \<open>
  C27. Adding a node under a key to a well-formed table and removing it again: the addition
  succeeds, the nodes then found under the key are the new one followed by the old ones, nodes
  under keys of other buckets are found as before, and the removal succeeds, leaves the node
  unhashed and every key with exactly the nodes it had.
\<close>
theorem hashtable_add_rm:
  assumes "table_size bits n" and "table_ok (unat n) m f"
    and "\<And>i. unat i < unat n \<Longrightarrow> node \<notin> set (f i)"
  shows "\<exists>m' m''. hashtable_add key node n m = Some m' \<and> hashtable_rm node m' = Some m''
     \<and> HASHTABLE_FOR_EACH_COLLISION key n m'
         = map_option (Cons node) (HASHTABLE_FOR_EACH_COLLISION key n m)
     \<and> (\<forall>k. hashtable_index k n \<noteq> hashtable_index key n \<longrightarrow>
          HASHTABLE_FOR_EACH_COLLISION k n m' = HASHTABLE_FOR_EACH_COLLISION k n m)
     \<and> chain_unhashed m'' node
     \<and> (\<forall>k. HASHTABLE_FOR_EACH_COLLISION k n m'' = HASHTABLE_FOR_EACH_COLLISION k n m)"
proof -
  obtain i where i: "hashtable_index key n = Some i" "unat i < unat n"
    using table_size_index [OF assms(1)] by blast
  let ?m = "chain_add_head node i m" and ?f = "f(i := node # f i)"
  have t: "table_ok (unat n) ?m ?f" by (rule chain_add_head_table_ok [OF assms(2) i(2) assms(3)])
  from chain_rm_table_ok [OF t i(2), of "[]" node "f i"] obtain m''
    where m'': "chain_rm node ?m = Some m''" "chain_unhashed m'' node" "table_ok (unat n) m'' f"
    by auto
  note c = table_size_index [OF assms(1)] collisions_bucket [OF assms(2)] collisions_bucket [OF t]
    collisions_bucket [OF m''(3)]
  have o: "HASHTABLE_FOR_EACH_COLLISION k n ?m = HASHTABLE_FOR_EACH_COLLISION k n m"
    if "hashtable_index k n \<noteq> hashtable_index key n" for k
    using c(1) [of k] c(2,3) i that by auto
  have "HASHTABLE_FOR_EACH_COLLISION k n m'' = HASHTABLE_FOR_EACH_COLLISION k n m" for k
    using c(1) [of k] c(2,4) by auto
  then show ?thesis using i o m'' c(2,3)
    by (intro exI [of _ ?m] exI [of _ m'']) (simp add: hashtable_add_def hashtable_rm_def)
qed

theorem hashtable_add_rm_witness:
  "\<exists>m' m''. hashtable_add 42 (7::nat) (DEFINE_HASHTABLE_size 5)
        (hashtable_init_size 16 \<lparr>cfirst = \<lambda>_. None, cnext = \<lambda>_. None, cpprev = \<lambda>_. None\<rparr>) = Some m'
     \<and> hashtable_rm 7 m' = Some m''
     \<and> HASHTABLE_FOR_EACH_COLLISION 42 (DEFINE_HASHTABLE_size 5) m' = Some [7]"
proof -
  let ?m = "hashtable_init_size 16 \<lparr>cfirst = \<lambda>_. None, cnext = \<lambda>_. None, cpprev = \<lambda>_. None\<rparr>
    :: (u32, nat) chain_mem"
  let ?n = "DEFINE_HASHTABLE_size 5"
  have n: "unat ?n = 16" by (simp add: DEFINE_HASHTABLE_size_def)
  have s: "table_size 5 ?n" by (simp add: table_size_def)
  have t: "table_ok (unat ?n) ?m (\<lambda>_. [])" unfolding n using hashtable_init_table_ok [of 16] by simp
  obtain i where "hashtable_index 42 ?n = Some i" "unat i < unat ?n"
    using table_size_index [OF s] by blast
  then have "HASHTABLE_FOR_EACH_COLLISION 42 ?n ?m = Some []" using collisions_bucket [OF t] by simp
  with hashtable_add_rm [OF s t, of 7 42] show ?thesis by auto
qed

end
