(* ===== verification/Ring_Buffer.thy ===== *)
theory Ring_Buffer
  imports KOS_Prelude
begin

text \<open>
  The ring buffers of \<^verbatim>\<open>inc/common/ringbuff.h\<close>: four addresses into a byte array, one element of
  which always stays unused. Addresses are 32-bit words and memory is a function from addresses
  to bytes, so wrap-around at the end of the array is the code's own. A read returns the bytes
  it copies out; the buffer of a write is the list of bytes copied in. The abstraction is the
  list of buffered bytes, and the buffer is shown to be a bounded FIFO of them.
\<close>

section \<open>The code\<close>

record ringbuff_head =
  rb_start :: u32
  rb_end :: u32
  rb_front :: u32
  rb_back :: u32

type_synonym byte_mem = "u32 \<Rightarrow> u8"

fun mem_write :: "byte_mem \<Rightarrow> u32 \<Rightarrow> u8 list \<Rightarrow> byte_mem" where
  "mem_write m a [] = m"
| "mem_write m a (b # bs) = mem_write (m(a := b)) (a + 1) bs"

fun mem_read :: "byte_mem \<Rightarrow> u32 \<Rightarrow> nat \<Rightarrow> u8 list" where
  "mem_read m a 0 = []"
| "mem_read m a (Suc n) = m a # mem_read m (a + 1) n"

text \<open>\<^verbatim>\<open>DEFINE_RINGBUFF\<close> on an array, and \<^verbatim>\<open>ringbuff_init\<close> on the address \<^verbatim>\<open>kmalloc\<close> returned.\<close>

definition DEFINE_RINGBUFF :: "u32 \<Rightarrow> u32 \<Rightarrow> ringbuff_head" where
  "DEFINE_RINGBUFF buff size_buff =
     \<lparr>rb_start = buff, rb_end = buff + size_buff, rb_front = buff, rb_back = buff\<rparr>"

definition ringbuff_init :: "u32 \<Rightarrow> u32 \<Rightarrow> u32 \<Rightarrow> ringbuff_head" where
  "ringbuff_init buff len typesize =
     \<lparr>rb_start = buff, rb_end = buff + (len + 1) * typesize, rb_front = buff, rb_back = buff\<rparr>"

definition ringbuff_chunksize_read :: "ringbuff_head \<Rightarrow> u32" where
  "ringbuff_chunksize_read rb =
     (if rb_front rb \<le> rb_back rb then rb_back rb - rb_front rb else rb_end rb - rb_front rb)"

definition ringbuff_chunksize_write :: "ringbuff_head \<Rightarrow> u32 \<Rightarrow> u32" where
  "ringbuff_chunksize_write rb typesize =
     (if rb_front rb \<le> rb_back rb
      then (rb_end rb - rb_back rb) - (if rb_front rb = rb_start rb then typesize else 0)
      else rb_front rb - rb_back rb - typesize)"

definition ringbuff_advance_front :: "ringbuff_head \<Rightarrow> u32 \<Rightarrow> ringbuff_head option" where
  "ringbuff_advance_front rb amt =
     (let front = rb_front rb + amt;
          front = (if front = rb_end rb then rb_start rb else front)
      in do { bug_on (front \<ge> rb_end rb); Some (rb\<lparr>rb_front := front\<rparr>) })"

definition ringbuff_advance_back :: "ringbuff_head \<Rightarrow> u32 \<Rightarrow> ringbuff_head option" where
  "ringbuff_advance_back rb amt =
     (let back = rb_back rb + amt;
          back = (if back = rb_end rb then rb_start rb else back)
      in do { bug_on (back \<ge> rb_end rb); Some (rb\<lparr>rb_back := back\<rparr>) })"

definition ringbuff_is_empty :: "ringbuff_head \<Rightarrow> bool" where
  "ringbuff_is_empty rb = (rb_front rb = rb_back rb)"

definition ringbuff_is_full :: "ringbuff_head \<Rightarrow> u32 \<Rightarrow> bool" where
  "ringbuff_is_full rb typesize = (rb_front rb = rb_back rb + typesize)"

text \<open>An element size of zero would trap in the remainder; it is \<^term>\<open>None\<close> like a failed check.\<close>

definition ringbuff_space_used :: "ringbuff_head \<Rightarrow> u32 \<Rightarrow> u32 option" where
  "ringbuff_space_used rb typesize =
     (let bytes_left = (if rb_front rb \<le> rb_back rb then rb_back rb - rb_front rb
                        else (rb_end rb - rb_front rb) + (rb_back rb - rb_start rb))
      in do { bug_on (typesize = 0 \<or> bytes_left mod typesize \<noteq> 0); Some (bytes_left div typesize) })"

definition ringbuff_space_left :: "ringbuff_head \<Rightarrow> u32 \<Rightarrow> u32 option" where
  "ringbuff_space_left rb typesize =
     (let bytes_left = (if rb_back rb < rb_front rb then rb_front rb - rb_back rb
                        else (rb_end rb - rb_back rb) + (rb_front rb - rb_start rb))
      in do { bug_on (typesize = 0 \<or> bytes_left mod typesize \<noteq> 0);
              Some (bytes_left div typesize - 1) })"

definition ringbuff_read_chunk ::
  "byte_mem \<Rightarrow> ringbuff_head \<Rightarrow> u32 \<Rightarrow> (ringbuff_head \<times> u8 list) option" where
  "ringbuff_read_chunk m rb len =
     (let chunk_len = ringbuff_chunksize_read rb;
          amt = min len chunk_len;
          bytes = mem_read m (rb_front rb) (unat amt)
      in do { rb' \<leftarrow> ringbuff_advance_front rb amt; Some (rb', bytes) })"

definition ringbuff_read ::
  "byte_mem \<Rightarrow> ringbuff_head \<Rightarrow> u32 \<Rightarrow> (ringbuff_head \<times> u8 list) option" where
  "ringbuff_read m rb len = do {
     (rb1, bytes1) \<leftarrow> ringbuff_read_chunk m rb len;
     if len > of_nat (length bytes1) \<and> \<not> ringbuff_is_empty rb1 then do {
       (rb2, bytes2) \<leftarrow> ringbuff_read_chunk m rb1 (len - of_nat (length bytes1));
       Some (rb2, bytes1 @ bytes2) }
     else Some (rb1, bytes1) }"

definition ringbuff_write_chunk ::
  "byte_mem \<Rightarrow> ringbuff_head \<Rightarrow> u8 list \<Rightarrow> u32 \<Rightarrow> u32 \<Rightarrow> (byte_mem \<times> ringbuff_head \<times> u32) option" where
  "ringbuff_write_chunk m rb buff len typesize =
     (let chunk_len = ringbuff_chunksize_write rb typesize;
          amt = min len chunk_len;
          m' = mem_write m (rb_back rb) (take (unat amt) buff)
      in do { rb' \<leftarrow> ringbuff_advance_back rb amt; Some (m', rb', amt) })"

definition ringbuff_write ::
  "byte_mem \<Rightarrow> ringbuff_head \<Rightarrow> u8 list \<Rightarrow> u32 \<Rightarrow> u32 \<Rightarrow> (byte_mem \<times> ringbuff_head \<times> u32) option" where
  "ringbuff_write m rb buff len typesize = do {
     (m1, rb1, amt1) \<leftarrow> ringbuff_write_chunk m rb buff len typesize;
     if len > amt1 \<and> \<not> ringbuff_is_full rb1 typesize then do {
       (m2, rb2, amt2) \<leftarrow> ringbuff_write_chunk m1 rb1 (drop (unat amt1) buff) (len - amt1) typesize;
       Some (m2, rb2, amt1 + amt2) }
     else Some (m1, rb1, amt1) }"

section \<open>The abstraction\<close>

text \<open>The bytes at the addresses from \<open>a\<close> to \<open>b - 1\<close>, as naturals, and the buffered bytes.\<close>

definition bytes_at :: "byte_mem \<Rightarrow> nat \<Rightarrow> nat \<Rightarrow> u8 list" where
  "bytes_at m a b = map (\<lambda>i. m (of_nat i)) [a..<b]"

definition rb_contents :: "byte_mem \<Rightarrow> ringbuff_head \<Rightarrow> u8 list" where
  "rb_contents m rb =
     (if rb_front rb \<le> rb_back rb then bytes_at m (unat (rb_front rb)) (unat (rb_back rb))
      else bytes_at m (unat (rb_front rb)) (unat (rb_end rb))
         @ bytes_at m (unat (rb_start rb)) (unat (rb_back rb)))"

definition rb_inv :: "u32 \<Rightarrow> ringbuff_head \<Rightarrow> bool" where
  "rb_inv ts rb = (0 < unat ts
     \<and> unat (rb_start rb) \<le> unat (rb_front rb) \<and> unat (rb_front rb) < unat (rb_end rb)
     \<and> unat (rb_start rb) \<le> unat (rb_back rb) \<and> unat (rb_back rb) < unat (rb_end rb)
     \<and> unat ts dvd unat (rb_end rb) - unat (rb_start rb)
     \<and> unat ts dvd unat (rb_front rb) - unat (rb_start rb)
     \<and> unat ts dvd unat (rb_back rb) - unat (rb_start rb))"

definition rb_capacity :: "u32 \<Rightarrow> ringbuff_head \<Rightarrow> nat" where
  "rb_capacity ts rb = unat (rb_end rb) - unat (rb_start rb) - unat ts"

subsection \<open>Bytes in memory\<close>

lemma length_bytes_at [simp]: "length (bytes_at m a b) = b - a"
  by (simp add: bytes_at_def)

lemma bytes_at_append: "a \<le> b \<Longrightarrow> b \<le> c \<Longrightarrow> bytes_at m a b @ bytes_at m b c = bytes_at m a c"
  unfolding bytes_at_def by (metis le_Suc_ex map_append upt_add_eq_append)

lemma bytes_at_take: "a + n \<le> b \<Longrightarrow> take n (bytes_at m a b) = bytes_at m a (a + n)"
  by (simp add: bytes_at_def take_map)

lemma bytes_at_drop: "drop n (bytes_at m a b) = bytes_at m (a + n) b"
  by (simp add: bytes_at_def drop_map)

lemma bytes_at_empty [simp]: "b \<le> a \<Longrightarrow> bytes_at m a b = []"
  by (simp add: bytes_at_def)

lemma bytes_at_cong:
  "(\<And>i. a \<le> i \<Longrightarrow> i < b \<Longrightarrow> m (of_nat i) = m' (of_nat i)) \<Longrightarrow> bytes_at m a b = bytes_at m' a b"
  by (simp add: bytes_at_def)

lemma bytes_at_nth: "i < b - a \<Longrightarrow> bytes_at m a b ! i = m (of_nat (a + i))"
  by (simp add: bytes_at_def)

lemma mem_read_nth: "length (mem_read m a n) = n \<and> (\<forall>i<n. mem_read m a n ! i = m (a + of_nat i))"
proof (induction n arbitrary: a)
  case (Suc n)
  show ?case
  proof (intro conjI allI impI)
    fix i assume "i < Suc n"
    then show "mem_read m a (Suc n) ! i = m (a + of_nat i)"
      using Suc [of "a + 1"] by (cases i) (auto simp: add.assoc)
  qed (use Suc in simp)
qed simp

lemma mem_read_bytes_at: "mem_read m a n = bytes_at m (unat a) (unat a + n)"
  by (rule nth_equalityI) (simp_all add: mem_read_nth bytes_at_nth)

lemma of_nat_eq_addr: "j < 2 ^ 32 \<Longrightarrow> of_nat j = (a :: u32) \<longleftrightarrow> j = unat a"
  by (auto simp: unat_of_nat)

lemma mem_write_at:
  "unat a + length bs \<le> 2 ^ 32 \<Longrightarrow> j < 2 ^ 32 \<Longrightarrow>
   mem_write m a bs (of_nat j)
     = (if unat a \<le> j \<and> j < unat a + length bs then bs ! (j - unat a) else m (of_nat j))"
proof (induction bs arbitrary: m a)
  case IH: (Cons b bs)
  define m1 where "m1 = m(a := b)"
  have m1: "m1 (of_nat j) = (if j = unat a then b else m (of_nat j))"
    using of_nat_eq_addr [OF IH.prems(2)] by (simp add: m1_def)
  show ?case
  proof (cases "bs = []")
    case True
    then show ?thesis using m1 by (simp add: m1_def) 
  next
    case False
    then have u: "unat (a + 1) = Suc (unat a)" using IH.prems by (subst unat_add_no_wrap) (cases bs; simp)+
    have "m1 a = b" by (simp add: m1_def)
    then show ?thesis using IH.IH [of "a + 1" m1] IH.prems m1
      by (auto simp: u nth_Cons' simp flip: m1_def)
  qed
qed auto

lemma bytes_at_write_same:
  "unat a + length bs \<le> 2 ^ 32 \<Longrightarrow> bytes_at (mem_write m a bs) (unat a) (unat a + length bs) = bs"
  by (rule nth_equalityI) (simp_all only: length_bytes_at bytes_at_nth mem_write_at, simp_all)

lemma bytes_at_write_other:
  assumes "unat a + length bs \<le> 2 ^ 32" and "y \<le> 2 ^ 32" and "y \<le> unat a \<or> unat a + length bs \<le> x"
  shows "bytes_at (mem_write m a bs) x y = bytes_at m x y"
proof (rule bytes_at_cong)
  fix i assume "x \<le> i" "i < y"
  then show "mem_write m a bs (of_nat i) = m (of_nat i)"
    using mem_write_at [OF assms(1), of i m] assms(2,3) by auto
qed


subsection \<open>Reading\<close>

lemma rb_contents_alt:
  "rb_contents m rb =
     (if unat (rb_front rb) \<le> unat (rb_back rb) then bytes_at m (unat (rb_front rb)) (unat (rb_back rb))
      else bytes_at m (unat (rb_front rb)) (unat (rb_end rb))
         @ bytes_at m (unat (rb_start rb)) (unat (rb_back rb)))"
  by (simp add: rb_contents_def word_le_nat_alt)

lemma rb_used:
  "rb_inv ts rb \<Longrightarrow> length (rb_contents m rb) =
     (if unat (rb_front rb) \<le> unat (rb_back rb) then unat (rb_back rb) - unat (rb_front rb)
      else (unat (rb_end rb) - unat (rb_front rb)) + (unat (rb_back rb) - unat (rb_start rb)))"
  by (simp add: rb_contents_alt)

lemma unat_chunk_read:
  "rb_inv ts rb \<Longrightarrow> unat (ringbuff_chunksize_read rb) =
     (if unat (rb_front rb) \<le> unat (rb_back rb) then unat (rb_back rb) - unat (rb_front rb)
      else unat (rb_end rb) - unat (rb_front rb))"
  by (auto simp: rb_inv_def ringbuff_chunksize_read_def word_le_nat_alt unat_diff_le)

lemma unat_min: "unat (min a b) = min (unat a) (unat b)"
  by (simp add: min_def word_le_nat_alt)

lemma dvd_add_diff: "d dvd x - s \<Longrightarrow> d dvd a \<Longrightarrow> s \<le> x \<Longrightarrow> d dvd x + a - (s::nat)"
  by (simp add: dvd_add flip: Nat.add_diff_assoc2)

lemma advance_front:
  assumes "rb_inv ts rb" and n: "unat amt \<le> unat (rb_end rb) - unat (rb_front rb)" and "unat ts dvd unat amt"
  shows "\<exists>f'. ringbuff_advance_front rb amt = Some (rb\<lparr>rb_front := f'\<rparr>) \<and> rb_inv ts (rb\<lparr>rb_front := f'\<rparr>)
    \<and> unat f' = (if unat (rb_front rb) + unat amt = unat (rb_end rb) then unat (rb_start rb)
         else unat (rb_front rb) + unat amt)"
proof -
  let ?F = "unat (rb_front rb)" and ?E = "unat (rb_end rb)" and ?S = "unat (rb_start rb)"
  have b: "?S \<le> ?F" "?F < ?E" "?E < 2 ^ 32" using assms(1) by (auto simp: rb_inv_def unat_lt_32)
  then have u: "unat (rb_front rb + amt) = ?F + unat amt" using n by (subst unat_add_no_wrap) auto
  then have e: "rb_front rb + amt = rb_end rb \<longleftrightarrow> ?F + unat amt = ?E" by (metis word_unat_eq_iff)
  have d: "unat ts dvd (?F + unat amt) - ?S" using assms(1,3) b by (auto simp: rb_inv_def intro: dvd_add_diff)
  show ?thesis
  proof (cases "?F + unat amt = ?E")
    case True
    then show ?thesis using assms(1) b e
      by (intro exI [of _ "rb_start rb"]) (auto simp: ringbuff_advance_front_def word_le_nat_alt rb_inv_def)
  next
    case False
    then show ?thesis using assms(1) b e n u d
      by (intro exI [of _ "rb_front rb + amt"]) (auto simp: ringbuff_advance_front_def word_le_nat_alt rb_inv_def)
  qed
qed

lemma advance_back:
  assumes "rb_inv ts rb" and n: "unat amt \<le> unat (rb_end rb) - unat (rb_back rb)" and "unat ts dvd unat amt"
  shows "\<exists>b'. ringbuff_advance_back rb amt = Some (rb\<lparr>rb_back := b'\<rparr>) \<and> rb_inv ts (rb\<lparr>rb_back := b'\<rparr>)
    \<and> unat b' = (if unat (rb_back rb) + unat amt = unat (rb_end rb) then unat (rb_start rb)
         else unat (rb_back rb) + unat amt)"
proof -
  let ?B = "unat (rb_back rb)" and ?E = "unat (rb_end rb)" and ?S = "unat (rb_start rb)"
  have b: "?S \<le> ?B" "?B < ?E" "?E < 2 ^ 32" using assms(1) by (auto simp: rb_inv_def unat_lt_32)
  then have u: "unat (rb_back rb + amt) = ?B + unat amt" using n by (subst unat_add_no_wrap) auto
  then have e: "rb_back rb + amt = rb_end rb \<longleftrightarrow> ?B + unat amt = ?E" by (metis word_unat_eq_iff)
  have d: "unat ts dvd (?B + unat amt) - ?S" using assms(1,3) b by (auto simp: rb_inv_def intro: dvd_add_diff)
  show ?thesis
  proof (cases "?B + unat amt = ?E")
    case True
    then show ?thesis using assms(1) b e
      by (intro exI [of _ "rb_start rb"]) (auto simp: ringbuff_advance_back_def word_le_nat_alt rb_inv_def)
  next
    case False
    then show ?thesis using assms(1) b e n u d
      by (intro exI [of _ "rb_back rb + amt"]) (auto simp: ringbuff_advance_back_def word_le_nat_alt rb_inv_def)
  qed
qed

lemma dvd_dist:
  "rb_inv ts rb \<Longrightarrow> unat (rb_front rb) \<le> unat (rb_back rb) \<Longrightarrow> unat ts dvd unat (rb_back rb) - unat (rb_front rb)"
  "rb_inv ts rb \<Longrightarrow> unat ts dvd unat (rb_end rb) - unat (rb_front rb)"
  "rb_inv ts rb \<Longrightarrow> unat ts dvd unat (rb_end rb) - unat (rb_back rb)"
  "rb_inv ts rb \<Longrightarrow> unat (rb_back rb) \<le> unat (rb_front rb) \<Longrightarrow> unat ts dvd unat (rb_front rb) - unat (rb_back rb)"
proof -
  have *: "d dvd c - b" if "d dvd b - a" "d dvd c - a" "a \<le> b" "b \<le> c" for a b c d :: nat
    using that dvd_diff_nat [of d "c - a" "b - a"] by simp
  show "rb_inv ts rb \<Longrightarrow> unat (rb_front rb) \<le> unat (rb_back rb) \<Longrightarrow> unat ts dvd unat (rb_back rb) - unat (rb_front rb)"
    "rb_inv ts rb \<Longrightarrow> unat ts dvd unat (rb_end rb) - unat (rb_front rb)"
    "rb_inv ts rb \<Longrightarrow> unat ts dvd unat (rb_end rb) - unat (rb_back rb)"
    "rb_inv ts rb \<Longrightarrow> unat (rb_back rb) \<le> unat (rb_front rb) \<Longrightarrow> unat ts dvd unat (rb_front rb) - unat (rb_back rb)"
    unfolding rb_inv_def by (rule * [of _ _ "unat (rb_start rb)"]; linarith)+
qed

lemma read_chunk:
  assumes inv: "rb_inv ts rb" and len: "unat ts dvd unat len"
  defines "n \<equiv> min (unat len) (unat (ringbuff_chunksize_read rb))"
  shows "\<exists>f'. ringbuff_read_chunk m rb len = Some (rb\<lparr>rb_front := f'\<rparr>, take n (rb_contents m rb))
     \<and> rb_inv ts (rb\<lparr>rb_front := f'\<rparr>) \<and> rb_contents m (rb\<lparr>rb_front := f'\<rparr>) = drop n (rb_contents m rb)
     \<and> n \<le> length (rb_contents m rb)
     \<and> unat f' = (if unat (rb_front rb) + n = unat (rb_end rb) then unat (rb_start rb) else unat (rb_front rb) + n)"
proof -
  let ?F = "unat (rb_front rb)" and ?B = "unat (rb_back rb)" and ?E = "unat (rb_end rb)" and ?S = "unat (rb_start rb)"
  let ?a = "min len (ringbuff_chunksize_read rb)"
  have a: "unat ?a = n" by (simp add: n_def unat_min)
  have c: "unat (ringbuff_chunksize_read rb) = (if ?F \<le> ?B then ?B - ?F else ?E - ?F)"
    by (rule unat_chunk_read [OF inv])
  have b: "?S \<le> ?F" "?F < ?E" "?S \<le> ?B" "?B < ?E" using inv by (auto simp: rb_inv_def)
  have "unat ts dvd n" using len dvd_dist(1,2) [OF inv] c by (simp add: n_def min_def)
  moreover have "n \<le> ?E - ?F" using b c by (auto simp: n_def)
  ultimately obtain f' where f': "ringbuff_advance_front rb ?a = Some (rb\<lparr>rb_front := f'\<rparr>)"
    "rb_inv ts (rb\<lparr>rb_front := f'\<rparr>)" "unat f' = (if ?F + n = ?E then ?S else ?F + n)"
    using advance_front [OF inv, of ?a, unfolded a] by blast
  have t: "mem_read m (rb_front rb) n = take n (rb_contents m rb)" 
    using b c by (auto simp: mem_read_bytes_at rb_contents_alt n_def bytes_at_take)
  have d: "rb_contents m (rb\<lparr>rb_front := f'\<rparr>) = drop n (rb_contents m rb)"
    using b c f'(3) by (auto simp: rb_contents_alt n_def bytes_at_drop)
  have "n \<le> length (rb_contents m rb)" using b c by (auto simp: rb_contents_alt n_def)
  then show ?thesis using f' a t d by (auto simp: ringbuff_read_chunk_def Let_def)
qed


lemma rb_empty_iff: "rb_inv ts rb \<Longrightarrow> ringbuff_is_empty rb \<longleftrightarrow> rb_contents m rb = []"
  using rb_used [of ts rb m] unfolding ringbuff_is_empty_def rb_inv_def
  by (auto simp: word_unat_eq_iff simp flip: length_0_conv split: if_splits)

lemma ringbuff_read_spec:
  assumes inv: "rb_inv ts rb" and len: "unat ts dvd unat len"
  shows "\<exists>f'. ringbuff_read m rb len = Some (rb\<lparr>rb_front := f'\<rparr>, take (unat len) (rb_contents m rb))
     \<and> rb_inv ts (rb\<lparr>rb_front := f'\<rparr>)
     \<and> rb_contents m (rb\<lparr>rb_front := f'\<rparr>) = drop (unat len) (rb_contents m rb)"
proof -
  let ?F = "unat (rb_front rb)" and ?B = "unat (rb_back rb)" and ?E = "unat (rb_end rb)" and ?S = "unat (rb_start rb)"
  define n where "n = min (unat len) (unat (ringbuff_chunksize_read rb))"
  obtain f where f: "ringbuff_read_chunk m rb len = Some (rb\<lparr>rb_front := f\<rparr>, take n (rb_contents m rb))"
     "rb_inv ts (rb\<lparr>rb_front := f\<rparr>)" "rb_contents m (rb\<lparr>rb_front := f\<rparr>) = drop n (rb_contents m rb)"
     "n \<le> length (rb_contents m rb)"
     "unat f = (if ?F + n = ?E then ?S else ?F + n)"
    using read_chunk [OF inv len, of m] unfolding n_def by blast
  let ?rb1 = "rb\<lparr>rb_front := f\<rparr>"
  have l: "len > of_nat n \<longleftrightarrow> n < unat len" "unat (len - of_nat n) = unat len - n"
    using unat_lt_32 [of len] by (auto simp: word_less_nat_alt unat_of_nat unat_diff_le word_le_nat_alt n_def)
  show ?thesis
  proof (cases "n < unat len \<and> rb_contents m ?rb1 \<noteq> []")
    case False
    then have "take n (rb_contents m rb) = take (unat len) (rb_contents m rb)
        \<and> drop n (rb_contents m rb) = drop (unat len) (rb_contents m rb)"
      using f(3,4) by (auto simp: n_def)
    then show ?thesis using f l(1) False rb_empty_iff [OF f(2), of m]
      by (auto simp: ringbuff_read_def)
  next
    case True
    then have n: "n = unat (ringbuff_chunksize_read rb)" by (auto simp: n_def)
    then have w: "\<not> ?F \<le> ?B" "n = ?E - ?F"
      using True f(3,4) unat_chunk_read [OF inv] rb_used [OF inv, of m] by (auto split: if_splits)
    have "unat f = ?S" using f(5) w inv by (auto simp: rb_inv_def)
    then have c1: "unat (ringbuff_chunksize_read ?rb1) = length (rb_contents m ?rb1)"
      using unat_chunk_read [OF f(2)] rb_used [OF f(2), of m] inv by (auto simp: rb_inv_def)
    have "unat ts dvd n" using w dvd_dist(2) [OF inv] by simp
    then have "unat ts dvd unat (len - of_nat n)" using len l by simp
    from read_chunk [OF f(2) this, of m] c1 l(2) obtain g where
      g: "ringbuff_read_chunk m ?rb1 (len - of_nat n) = Some (rb\<lparr>rb_front := g\<rparr>, take (unat len - n) (rb_contents m ?rb1))"
      "rb_inv ts (rb\<lparr>rb_front := g\<rparr>)" "rb_contents m (rb\<lparr>rb_front := g\<rparr>) = drop (unat len - n) (rb_contents m ?rb1)"
      by (auto simp: min_def split: if_splits)
    have "take n (rb_contents m rb) @ take (unat len - n) (rb_contents m ?rb1) = take (unat len) (rb_contents m rb)"
      using True by (simp add: f(3) flip: take_add)
    moreover have "drop (unat len - n) (rb_contents m ?rb1) = drop (unat len) (rb_contents m rb)"
      using True by (simp add: f(3))
    ultimately show ?thesis using f(1,4) g l(1) True rb_empty_iff [OF f(2), of m]
      by (auto simp: ringbuff_read_def)
  qed
qed

subsection \<open>Writing\<close>

lemma rb_room:
  assumes "rb_inv ts rb"
  shows "unat ts \<le> unat (rb_end rb) - unat (rb_back rb)"
    and "unat (rb_back rb) < unat (rb_front rb) \<Longrightarrow> unat ts \<le> unat (rb_front rb) - unat (rb_back rb)"
    and "unat (rb_start rb) < unat (rb_front rb) \<Longrightarrow> unat ts \<le> unat (rb_front rb) - unat (rb_start rb)"
  using dvd_dist(3,4) [OF assms] assms by (auto simp: rb_inv_def intro: dvd_imp_le)

lemma unat_chunk_write:
  assumes "rb_inv ts rb"
  shows "unat (ringbuff_chunksize_write rb ts) =
     (if unat (rb_front rb) \<le> unat (rb_back rb)
      then (unat (rb_end rb) - unat (rb_back rb)) - (if rb_front rb = rb_start rb then unat ts else 0)
      else unat (rb_front rb) - unat (rb_back rb) - unat ts)"
  using assms rb_room [OF assms]
  by (auto simp: rb_inv_def ringbuff_chunksize_write_def word_le_nat_alt unat_diff_le)

lemma rb_used_le: "rb_inv ts rb \<Longrightarrow> length (rb_contents m rb) \<le> rb_capacity ts rb"
  using rb_used [of ts rb m] rb_room [of ts rb] by (auto simp: rb_inv_def rb_capacity_def)

lemma chunk_write_le:
  "rb_inv ts rb \<Longrightarrow> length (rb_contents m rb) + unat (ringbuff_chunksize_write rb ts) \<le> rb_capacity ts rb"
  using rb_used [of ts rb m] rb_room [of ts rb] unat_chunk_write [of ts rb]
  by (auto simp: rb_inv_def rb_capacity_def word_unat_eq_iff)

lemma chunk_write_all:
  "rb_inv ts rb \<Longrightarrow> rb_front rb = rb_start rb \<or> unat (rb_back rb) < unat (rb_front rb) \<Longrightarrow>
     unat (ringbuff_chunksize_write rb ts) = rb_capacity ts rb - length (rb_contents m rb)"
  using rb_used [of ts rb m] rb_room [of ts rb] unat_chunk_write [of ts rb]
  by (auto simp: rb_inv_def rb_capacity_def)

lemma dvd_chunk_write:
  assumes "rb_inv ts rb"
  shows "unat ts dvd unat (ringbuff_chunksize_write rb ts)"
  using dvd_diff_nat [OF dvd_dist(3) [OF assms] dvd_refl] dvd_dist(3) [OF assms]
    dvd_diff_nat [OF dvd_dist(4) [OF assms] dvd_refl]
  unfolding unat_chunk_write [OF assms] by (auto split: if_splits)

lemma write_chunk:
  assumes inv: "rb_inv ts rb" and len: "unat ts dvd unat len" and bs: "unat len \<le> length bs"
  defines "n \<equiv> min (unat len) (unat (ringbuff_chunksize_write rb ts))"
  shows "\<exists>m' b' a. ringbuff_write_chunk m rb bs len ts = Some (m', rb\<lparr>rb_back := b'\<rparr>, a) \<and> unat a = n
     \<and> rb_inv ts (rb\<lparr>rb_back := b'\<rparr>) \<and> rb_contents m' (rb\<lparr>rb_back := b'\<rparr>) = rb_contents m rb @ take n bs
     \<and> unat b' = (if unat (rb_back rb) + n = unat (rb_end rb) then unat (rb_start rb) else unat (rb_back rb) + n)"
proof -
  let ?F = "unat (rb_front rb)" and ?B = "unat (rb_back rb)" and ?E = "unat (rb_end rb)" and ?S = "unat (rb_start rb)"
  let ?a = "min len (ringbuff_chunksize_write rb ts)"
  let ?m = "mem_write m (rb_back rb) (take n bs)"
  have a: "unat ?a = n" by (simp add: n_def unat_min)
  note c = unat_chunk_write [OF inv]
  have b: "?S \<le> ?F" "?F < ?E" "?S \<le> ?B" "?B < ?E" "?E < 2 ^ 32" "0 < unat ts"
    using inv by (auto simp: rb_inv_def unat_lt_32)
  have le: "n \<le> ?E - ?B" using b c by (auto simp: n_def)
  have "unat ts dvd n" using len dvd_chunk_write [OF inv] by (simp add: n_def min_def)
  with le obtain b' where b': "ringbuff_advance_back rb ?a = Some (rb\<lparr>rb_back := b'\<rparr>)"
    "rb_inv ts (rb\<lparr>rb_back := b'\<rparr>)" "unat b' = (if ?B + n = ?E then ?S else ?B + n)"
    using advance_back [OF inv, of ?a, unfolded a] by blast
  have ln: "length (take n bs) = n" using bs by (simp add: n_def)
  then have w: "?B + length (take n bs) \<le> 2 ^ 32" using le b by simp
  have same: "bytes_at ?m ?B (?B + n) = take n bs" using bytes_at_write_same [OF w, of m] ln by simp
  have other: "bytes_at ?m x y = bytes_at m x y" if "y \<le> ?E" "y \<le> ?B \<or> ?B + n \<le> x" for x y
    using bytes_at_write_other [OF w, of y x m] that b(5) ln by simp
  have "rb_contents ?m (rb\<lparr>rb_back := b'\<rparr>) = rb_contents m rb @ take n bs"
  proof (cases "?F \<le> ?B")
    case True
    have s: "bytes_at ?m ?F ?B @ bytes_at ?m ?B (?B + n) = bytes_at ?m ?F (?B + n)"
      using True by (intro bytes_at_append) auto
    have "?B + n = ?E \<Longrightarrow> ?S < ?F" using True b c by (auto simp: n_def word_unat_eq_iff split: if_splits)
    then show ?thesis using True b' s same other [of ?B ?F] b by (auto simp: rb_contents_alt)
  next
    case False
    have s: "bytes_at ?m ?S ?B @ bytes_at ?m ?B (?B + n) = bytes_at ?m ?S (?B + n)"
      using b by (intro bytes_at_append) auto
    have "?B + n < ?F" using False b c rb_room(2) [OF inv] by (auto simp: n_def)
    then show ?thesis using False b' s same other [of ?B ?S] other [of ?E ?F] b by (auto simp: rb_contents_alt)
  qed
  then show ?thesis using b' a by (auto simp: ringbuff_write_chunk_def Let_def)
qed

lemma is_full_iff:
  assumes "rb_inv ts rb"
  shows "ringbuff_is_full rb ts \<longleftrightarrow>
    length (rb_contents m rb) = rb_capacity ts rb \<and> rb_front rb \<noteq> rb_start rb"
proof -
  have "unat (rb_back rb + ts) = unat (rb_back rb) + unat ts"
    using rb_room(1) [OF assms] unat_lt_32 [of "rb_end rb"] assms
    by (subst unat_add_no_wrap) (auto simp: rb_inv_def)
  then show ?thesis using rb_used [OF assms, of m] rb_room [OF assms] assms
    by (auto simp: ringbuff_is_full_def rb_inv_def rb_capacity_def word_unat_eq_iff split: if_splits)
qed

lemma ringbuff_write_spec:
  fixes m :: byte_mem
  assumes inv: "rb_inv ts rb" and len: "unat ts dvd unat len" and bs: "unat len = length bs"
  defines "n \<equiv> min (unat len) (rb_capacity ts rb - length (rb_contents m rb))"
  shows "\<exists>m' b' a. ringbuff_write m rb bs len ts = Some (m', rb\<lparr>rb_back := b'\<rparr>, a) \<and> unat a = n
     \<and> rb_inv ts (rb\<lparr>rb_back := b'\<rparr>) \<and> rb_contents m' (rb\<lparr>rb_back := b'\<rparr>) = rb_contents m rb @ take n bs"
proof -
  let ?C = "rb_contents m rb"
  define k where "k = min (unat len) (unat (ringbuff_chunksize_write rb ts))"
  obtain m1 b a where f: "ringbuff_write_chunk m rb bs len ts = Some (m1, rb\<lparr>rb_back := b\<rparr>, a)"
     "unat a = k" "rb_inv ts (rb\<lparr>rb_back := b\<rparr>)" "rb_contents m1 (rb\<lparr>rb_back := b\<rparr>) = ?C @ take k bs"
     "unat b = (if unat (rb_back rb) + k = unat (rb_end rb) then unat (rb_start rb) else unat (rb_back rb) + k)"
    using write_chunk [OF inv len, of bs m] bs unfolding k_def by auto
  let ?rb1 = "rb\<lparr>rb_back := b\<rparr>"
  have kn: "k \<le> n" using chunk_write_le [OF inv, of m] by (auto simp: k_def n_def)
  have used: "length (rb_contents m1 ?rb1) = length ?C + k" using f(4) bs by (simp add: k_def)
  have cap: "rb_capacity ts ?rb1 = rb_capacity ts rb" by (simp add: rb_capacity_def)
  have la: "len > a \<longleftrightarrow> k < unat len" using f(2) by (simp add: word_less_nat_alt)
  show ?thesis
  proof (cases "k < unat len \<and> \<not> ringbuff_is_full ?rb1 ts")
    case False
    then have "k = n" using kn used cap is_full_iff [OF f(3), of m1] by (auto simp: n_def)
    then show ?thesis using f la False by (auto simp: ringbuff_write_def)
  next
    case True
    have kc: "k = unat (ringbuff_chunksize_write rb ts)" using True by (auto simp: k_def)
    have "rb_front rb = rb_start rb \<or> unat b < unat (rb_front rb)"
      using f(5) unat_chunk_write [OF inv] rb_room(2) [OF inv] inv kc
      by (auto simp: rb_inv_def word_unat_eq_iff split: if_splits)
    then have c2: "unat (ringbuff_chunksize_write ?rb1 ts) = rb_capacity ts rb - (length ?C + k)"
      using chunk_write_all [OF f(3), of m1] used cap by auto
    have l2: "unat (len - a) = unat len - k" using True f(2) by (simp add: unat_diff_le word_le_nat_alt)
    have d2: "unat ts dvd unat (len - a)" using dvd_chunk_write [OF inv] len l2 kc by simp
    have b2: "unat (len - a) \<le> length (drop k bs)" using l2 bs by simp
    have mn: "min (unat (len - a)) (unat (ringbuff_chunksize_write ?rb1 ts)) = n - k"
      unfolding c2 l2 by (simp add: n_def)
    obtain m2 b2 a2 where g: "ringbuff_write_chunk m1 ?rb1 (drop k bs) (len - a) ts = Some (m2, rb\<lparr>rb_back := b2\<rparr>, a2)"
      "unat a2 = n - k" "rb_inv ts (rb\<lparr>rb_back := b2\<rparr>)"
      "rb_contents m2 (rb\<lparr>rb_back := b2\<rparr>) = ?C @ take k bs @ take (n - k) (drop k bs)"
      using write_chunk [OF f(3) d2 b2, of m1, unfolded mn] f(4) by auto
    have "unat (a + a2) = n"
      using f(2) g(2) kn unat_lt_32 [of len] by (subst unat_add_no_wrap) (auto simp: n_def)
    moreover have "take k bs @ take (n - k) (drop k bs) = take n bs" using kn by (simp flip: take_add)
    ultimately show ?thesis using f g la True by (auto simp: ringbuff_write_def)
  qed
qed

section \<open>A bounded FIFO\<close>

text \<open>
  The interface the terminal and the keyboard use. \<open>put\<close> says how many elements it took,
  \<open>get\<close> returns what it removed; \<open>grain\<close> is the element size and \<open>lim\<close> bounds one transfer.
\<close>

locale byte_fifo =
  fixes inv :: "'s \<Rightarrow> bool" and cont :: "'s \<Rightarrow> 'b list" and cap :: "'s \<Rightarrow> nat"
    and grain lim :: nat
    and put :: "'s \<Rightarrow> 'b list \<Rightarrow> ('s \<times> nat) option"
    and get :: "'s \<Rightarrow> nat \<Rightarrow> ('s \<times> 'b list) option"
  assumes put_ok: "inv s \<Longrightarrow> grain dvd length bs \<Longrightarrow> length bs < lim \<Longrightarrow>
      \<exists>s'. put s bs = Some (s', min (length bs) (cap s - length (cont s))) \<and> inv s' \<and> cap s' = cap s
         \<and> cont s' = cont s @ take (min (length bs) (cap s - length (cont s))) bs"
    and get_ok: "inv s \<Longrightarrow> grain dvd n \<Longrightarrow> n < lim \<Longrightarrow>
      \<exists>s'. get s n = Some (s', take n (cont s)) \<and> inv s' \<and> cap s' = cap s \<and> cont s' = drop n (cont s)"

text \<open>A client: any sequence of transfers, with what was accepted and what was delivered.\<close>

datatype 'b fifo_op = Put "'b list" | Get nat

fun fifo_run :: "('s \<Rightarrow> 'b list \<Rightarrow> ('s \<times> nat) option) \<Rightarrow> ('s \<Rightarrow> nat \<Rightarrow> ('s \<times> 'b list) option)
    \<Rightarrow> 's \<Rightarrow> 'b fifo_op list \<Rightarrow> ('s \<times> 'b list \<times> 'b list) option" where
  "fifo_run put get s [] = Some (s, [], [])"
| "fifo_run put get s (Put bs # ops) = do {
     (s1, k) \<leftarrow> put s bs; (s2, acc, del) \<leftarrow> fifo_run put get s1 ops; Some (s2, take k bs @ acc, del) }"
| "fifo_run put get s (Get n # ops) = do {
     (s1, xs) \<leftarrow> get s n; (s2, acc, del) \<leftarrow> fifo_run put get s1 ops; Some (s2, acc, xs @ del) }"

fun fifo_op_ok :: "nat \<Rightarrow> nat \<Rightarrow> 'b fifo_op \<Rightarrow> bool" where
  "fifo_op_ok grain lim (Put bs) = (grain dvd length bs \<and> length bs < lim)"
| "fifo_op_ok grain lim (Get n) = (grain dvd n \<and> n < lim)"

context byte_fifo
begin

lemma stream:
  "inv s \<Longrightarrow> list_all (fifo_op_ok grain lim) ops \<Longrightarrow>
     \<exists>s' acc del. fifo_run put get s ops = Some (s', acc, del) \<and> inv s' \<and> cap s' = cap s
       \<and> cont s @ acc = del @ cont s'"
proof (induction ops arbitrary: s)
  case (Cons x ops)
  show ?case
  proof (cases x)
    case (Put bs)
    then obtain s1 where s1: "put s bs = Some (s1, min (length bs) (cap s - length (cont s)))" "inv s1"
      "cap s1 = cap s" "cont s1 = cont s @ take (min (length bs) (cap s - length (cont s))) bs"
      using put_ok [OF Cons.prems(1), of bs] Cons.prems(2) by auto
    from Cons.IH [OF s1(2)] Cons.prems(2) s1(1,3,4) show ?thesis by (fastforce simp: Put)
  next
    case (Get n)
    then obtain s1 where s1: "get s n = Some (s1, take n (cont s))" "inv s1" "cap s1 = cap s"
      "cont s1 = drop n (cont s)"
      using get_ok [OF Cons.prems(1), of n] Cons.prems(2) by auto
    from Cons.IH [OF s1(2)] Cons.prems(2) obtain s' acc del where
      r: "fifo_run put get s1 ops = Some (s', acc, del)" "inv s'" "cap s' = cap s1" "cont s1 @ acc = del @ cont s'"
      by auto
    have "cont s @ acc = take n (cont s) @ del @ cont s'"
      using r(4) s1(4) by (metis append.assoc append_take_drop_id)
    then show ?thesis using r s1 by (simp add: Get)
  qed
qed simp

end

definition rb_put :: "u32 \<Rightarrow> byte_mem \<times> ringbuff_head \<Rightarrow> u8 list \<Rightarrow> ((byte_mem \<times> ringbuff_head) \<times> nat) option" where
  "rb_put ts = (\<lambda>(m, rb) bs. do {
     (m', rb', a) \<leftarrow> ringbuff_write m rb bs (of_nat (length bs)) ts; Some ((m', rb'), unat a) })"

definition rb_get :: "byte_mem \<times> ringbuff_head \<Rightarrow> nat \<Rightarrow> ((byte_mem \<times> ringbuff_head) \<times> u8 list) option" where
  "rb_get = (\<lambda>(m, rb) n. do { (rb', bs) \<leftarrow> ringbuff_read m rb (of_nat n); Some ((m, rb'), bs) })"

interpretation ring: byte_fifo "\<lambda>s. rb_inv ts (snd s)" "\<lambda>s. rb_contents (fst s) (snd s)"
  "\<lambda>s. rb_capacity ts (snd s)" "unat ts" "2 ^ 32" "rb_put ts" rb_get for ts :: u32
proof (unfold_locales, goal_cases)
  case (1 s bs)
  then have l: "unat (of_nat (length bs) :: u32) = length bs" by (simp add: unat_of_nat)
  from 1 show ?case using ringbuff_write_spec [of ts "snd s" "of_nat (length bs)" bs "fst s", unfolded l]
    by (auto simp: rb_put_def rb_capacity_def split: prod.splits)
next
  case (2 s n)
  then have l: "unat (of_nat n :: u32) = n" by (simp add: unat_of_nat)
  from 2 show ?case using ringbuff_read_spec [of ts "snd s" "of_nat n" "fst s", unfolded l]
    by (auto simp: rb_get_def rb_capacity_def split: prod.splits)
qed

lemma ringbuff_init_inv:
  assumes "0 < unat ts" and "unat buff + (unat len + 1) * unat ts < 2 ^ 32"
  shows "rb_inv ts (ringbuff_init buff len ts)" "rb_contents m (ringbuff_init buff len ts) = []"
    "rb_capacity ts (ringbuff_init buff len ts) = unat len * unat ts"
proof -
  have l: "unat len + 1 \<le> (unat len + 1) * unat ts" using assms(1) by (cases "unat ts") auto
  then have u: "unat (len + 1) = unat len + 1" using assms(2) by (subst unat_add_no_wrap) auto
  have "unat ((len + 1) * ts) = (unat len + 1) * unat ts"
    using assms(2) unfolding unat_word_ariths(2) u by (subst mod_less) auto
  then have "unat (buff + (len + 1) * ts) = unat buff + (unat len + 1) * unat ts"
    using assms(2) by (subst unat_add_no_wrap) auto
  then show "rb_inv ts (ringbuff_init buff len ts)" "rb_contents m (ringbuff_init buff len ts) = []"
    "rb_capacity ts (ringbuff_init buff len ts) = unat len * unat ts"
    using assms by (auto simp: rb_inv_def ringbuff_init_def rb_contents_alt rb_capacity_def)
qed

lemma ringbuff_space:
  assumes inv: "rb_inv ts rb"
  shows "ringbuff_space_used rb ts = Some (of_nat (length (rb_contents m rb) div unat ts))"
    and "ringbuff_space_left rb ts
       = Some (of_nat ((rb_capacity ts rb - length (rb_contents m rb)) div unat ts))"
proof -
  let ?F = "unat (rb_front rb)" and ?B = "unat (rb_back rb)" and ?E = "unat (rb_end rb)" and ?S = "unat (rb_start rb)"
  have b: "?S \<le> ?F" "?F < ?E" "?S \<le> ?B" "?B < ?E" "?E < 2 ^ 32" "0 < unat ts"
    using inv by (auto simp: rb_inv_def unat_lt_32)
  note room = rb_room [OF inv] and used = rb_used [OF inv, of m]
  let ?u = "if rb_front rb \<le> rb_back rb then rb_back rb - rb_front rb
      else (rb_end rb - rb_front rb) + (rb_back rb - rb_start rb)"
  let ?l = "if rb_back rb < rb_front rb then rb_front rb - rb_back rb
      else (rb_end rb - rb_back rb) + (rb_front rb - rb_start rb)"
  have u: "unat ?u = length (rb_contents m rb)"
    using b used by (auto simp: word_le_nat_alt unat_diff_le unat_add_no_wrap)
  have l: "unat ?l = rb_capacity ts rb - length (rb_contents m rb) + unat ts"
    using b used room by (auto simp: word_le_nat_alt word_less_nat_alt unat_diff_le unat_add_no_wrap rb_capacity_def)
  have du: "unat ts dvd unat ?u"
    using dvd_dist(1) [OF inv] dvd_add [OF dvd_dist(2) [OF inv]] inv unfolding u used rb_inv_def
    by (simp only: split: if_split) blast
  have dl: "unat ts dvd unat ?l"
  proof -
    have "unat ?u + unat ?l = ?E - ?S" using u l used room b rb_used_le [OF inv, of m] by (auto simp: rb_capacity_def)
    then show ?thesis using du inv unfolding rb_inv_def by (metis dvd_add_right_iff)
  qed
  have z: "ts \<noteq> 0" using b by auto
  have m0: "x mod ts = 0" if "unat ts dvd unat x" for x
    using that by (simp add: word_unat_eq_iff unat_mod dvd_eq_mod_eq_0)
  have m1: "x div ts = of_nat (unat x div unat ts)" for x by (simp flip: unat_div)
  show "ringbuff_space_used rb ts = Some (of_nat (length (rb_contents m rb) div unat ts))"
    using m0 [OF du] m1 [of ?u] z unfolding ringbuff_space_used_def Let_def u by simp
  have "?l div ts - 1 = of_nat ((rb_capacity ts rb - length (rb_contents m rb)) div unat ts)"
  proof -
    have "(r + unat ts) div unat ts = Suc (r div unat ts)" for r
      using b(6) by (metis Suc_eq_plus1 div_add_self2 less_not_refl2)
    then show ?thesis unfolding m1 [of ?l] l by simp
  qed
  then show "ringbuff_space_left rb ts
       = Some (of_nat ((rb_capacity ts rb - length (rb_contents m rb)) div unat ts))"
    using m0 [OF dl] z unfolding ringbuff_space_left_def Let_def by simp
qed


section \<open>Properties\<close>

text \<open>
  C24. A ring buffer is a FIFO and its checks never fire: for any sequence of writes and reads of
  whole elements on a well-formed buffer every operation returns, and what was buffered at the
  start followed by everything accepted since is what has been delivered followed by what is
  still buffered; nothing is lost, duplicated or reordered across wrap-arounds.
\<close>
theorem ringbuff_stream:
  assumes "rb_inv ts rb" and "list_all (fifo_op_ok (unat ts) (2 ^ 32)) ops"
  shows "\<exists>m' rb' acc del. fifo_run (rb_put ts) rb_get (m, rb) ops = Some ((m', rb'), acc, del)
     \<and> rb_inv ts rb' \<and> rb_contents m rb @ acc = del @ rb_contents m' rb'"
  using ring.stream [of ts "(m, rb)" ops] assms by auto

theorem ringbuff_stream_witness:
  "\<exists>m' rb' acc del. fifo_run (rb_put 1) rb_get (\<lambda>_. 0, ringbuff_init 0x1000 4 1)
       [Put [1, 2, 3], Get 2, Put [4, 5, 6], Get 3] = Some ((m', rb'), acc, del)
     \<and> rb_inv 1 rb' \<and> acc = del @ rb_contents m' rb'"
  using ringbuff_stream [of 1 "ringbuff_init 0x1000 4 1" "[Put [1, 2, 3], Get 2, Put [4, 5, 6], Get 3]"
      "\<lambda>_. 0"] ringbuff_init_inv(1) [of 1 "0x1000" 4]
    ringbuff_init_inv(2) [of 1 "0x1000" 4 "\<lambda>_. 0"] by simp

text \<open>
  C25. A write takes exactly as many bytes as there is room for and no more, and the room is what
  \<^verbatim>\<open>ringbuff_space_left\<close> announces, in elements; used and free space add up to the capacity the
  buffer was created with (the array has one more element, which stays unused).
\<close>
theorem ringbuff_write_room:
  assumes "rb_inv ts rb" and "unat ts dvd length bs" and "length bs < 2 ^ 32"
  shows "\<exists>m' rb' left. ringbuff_space_left rb ts = Some left
     \<and> ringbuff_write m rb bs (of_nat (length bs)) ts
         = Some (m', rb', of_nat (min (length bs) (unat left * unat ts)))
     \<and> rb_contents m' rb' = rb_contents m rb @ take (unat left * unat ts) bs
     \<and> length (rb_contents m rb) + unat left * unat ts = rb_capacity ts rb"
proof -
  let ?r = "rb_capacity ts rb - length (rb_contents m rb)"
  let ?l = "of_nat (?r div unat ts) :: u32"
  have "unat ts dvd length (rb_contents m rb)"
    using dvd_dist(1) [OF assms(1)] dvd_add [OF dvd_dist(2) [OF assms(1)]] assms(1)
    unfolding rb_used [OF assms(1)] rb_inv_def by (simp only: split: if_split) blast
  moreover have "unat ts dvd rb_capacity ts rb" using assms(1) dvd_diff_nat [OF _ dvd_refl]
    unfolding rb_inv_def rb_capacity_def by blast
  ultimately have d: "?r div unat ts * unat ts = ?r" by simp
  have "?r div unat ts \<le> ?r" "?r \<le> unat (rb_end rb)" by (simp_all add: rb_capacity_def)
  then have "?r div unat ts \<le> unat (rb_end rb)" by (rule le_trans)
  then have u: "unat ?l = ?r div unat ts" using unat_lt_32 [of "rb_end rb"]
    by (simp add: unat_of_nat mod_less del: div_le_dividend)
  have l: "unat (of_nat (length bs) :: u32) = length bs" using assms(3) by (simp add: unat_of_nat)
  obtain m' b' a where w: "ringbuff_write m rb bs (of_nat (length bs)) ts = Some (m', rb\<lparr>rb_back := b'\<rparr>, a)"
    "unat a = min (length bs) ?r" "rb_contents m' (rb\<lparr>rb_back := b'\<rparr>) = rb_contents m rb @ take (min (length bs) ?r) bs"
    using ringbuff_write_spec [of ts rb "of_nat (length bs)" bs m, unfolded l] assms by auto
  have "a = of_nat (min (length bs) ?r)" unfolding w(2) [symmetric] by simp
  then show ?thesis using w ringbuff_space(2) [OF assms(1), of m] rb_used_le [OF assms(1), of m]
    by (intro exI [of _ m'] exI [of _ "rb\<lparr>rb_back := b'\<rparr>"] exI [of _ ?l])
      (simp add: u d take_all min_def)
qed

theorem ringbuff_write_room_witness:
  "\<exists>m' rb' left. ringbuff_space_left (ringbuff_init 0x1000 2 1) 1 = Some left
     \<and> ringbuff_write (\<lambda>_. 0) (ringbuff_init 0x1000 2 1) [7, 8, 9] 3 1
         = Some (m', rb', of_nat (min 3 (unat left)))
     \<and> unat left = 2"
  using ringbuff_write_room [of 1 "ringbuff_init 0x1000 2 1" "[7, 8, 9]" "\<lambda>_. 0"]
    ringbuff_init_inv(1,3) [of 1 "0x1000" 2] ringbuff_init_inv(2) [of 1 "0x1000" 2 "\<lambda>_. 0"] by auto

text \<open>
  C26. \<^verbatim>\<open>ringbuff_is_full\<close> reports a full buffer unless the front is at the start of the array:
  there it answers that the buffer is not full although no byte can be written.
\<close>
theorem ringbuff_is_full_misses:
  assumes "rb_inv ts rb"
  shows "ringbuff_is_full rb ts \<longleftrightarrow>
    length (rb_contents m rb) = rb_capacity ts rb \<and> rb_front rb \<noteq> rb_start rb"
  by (rule is_full_iff [OF assms])

theorem ringbuff_is_full_misses_witness:
  "\<not> ringbuff_is_full (ringbuff_init 0x1000 2 1 \<lparr>rb_back := 0x1002\<rparr>) 1"
proof -
  have "rb_inv 1 (ringbuff_init 0x1000 2 1 \<lparr>rb_back := 0x1002\<rparr>)"
    by (simp add: rb_inv_def ringbuff_init_def)
  from ringbuff_is_full_misses [OF this] show ?thesis by (simp add: ringbuff_init_def)
qed


end
