(* ===== verification/Buddy.thy ===== *)
theory Buddy
  imports Word_Ops
begin

text \<open>
  The page allocator of \<^verbatim>\<open>mm/mm.c\<close>. The array \<^verbatim>\<open>pages\<close> is a function from page indices to
  page records; a \<^verbatim>\<open>page_t\<close> pointer is the index that \<^verbatim>\<open>get_index\<close> computes from it. Each free
  list is the list of the indices linked into it (theory \<open>Intrusive_List\<close> shows that the linked
  lists behave so): \<^verbatim>\<open>list_add\<close> conses, \<^verbatim>\<open>list_first\<close> takes the head. Unlinking a page that is in
  no free list would write through stale pointers, and so does not return in the model, like a
  failed \<^verbatim>\<open>BUG_ON\<close> or a panic. Orders and page counts are naturals: all of them stay below
  \<open>2 ^ 32\<close> and are only halved, compared and xor-ed; the statistics counters are 32-bit words
  that wrap. The locks are left out: every operation here runs with \<^verbatim>\<open>alloc_lock\<close> held.
\<close>

section \<open>The code\<close>

definition MAX_ORDER :: nat where "MAX_ORDER = 10"
definition NUM_ENTRIES :: nat where "NUM_ENTRIES = 1024"
definition NUM_PAGES :: nat where "NUM_PAGES = NUM_ENTRIES * NUM_ENTRIES"

definition PAGE_FLAG_USED :: u8 where "PAGE_FLAG_USED = 1"
definition PAGE_FLAG_PERM :: u8 where "PAGE_FLAG_PERM = 2"
definition PAGE_FLAG_CACHE :: u8 where "PAGE_FLAG_CACHE = 8"

record page =
  pg_addr :: u32
  pg_flags :: u8
  pg_order :: nat
  pg_compound_num :: nat

record mm =
  mm_pages :: "nat \<Rightarrow> page"
  free_page_list :: "nat \<Rightarrow> nat list"
  pages_in_use :: u32
  pages_avaliable :: u32

definition set_flags :: "nat \<Rightarrow> u8 \<Rightarrow> mm \<Rightarrow> mm" where
  "set_flags i v s = s\<lparr>mm_pages := (mm_pages s)(i := (mm_pages s i)\<lparr>pg_flags := v\<rparr>)\<rparr>"

definition set_order :: "nat \<Rightarrow> nat \<Rightarrow> mm \<Rightarrow> mm" where
  "set_order i v s = s\<lparr>mm_pages := (mm_pages s)(i := (mm_pages s i)\<lparr>pg_order := v\<rparr>)\<rparr>"

definition set_compound :: "nat \<Rightarrow> nat \<Rightarrow> mm \<Rightarrow> mm" where
  "set_compound i v s = s\<lparr>mm_pages := (mm_pages s)(i := (mm_pages s i)\<lparr>pg_compound_num := v\<rparr>)\<rparr>"

abbreviation flags_of :: "mm \<Rightarrow> nat \<Rightarrow> u8" where
  "flags_of s i \<equiv> pg_flags (mm_pages s i)"

abbreviation order_of :: "mm \<Rightarrow> nat \<Rightarrow> nat" where
  "order_of s i \<equiv> pg_order (mm_pages s i)"

definition get_order_idx :: "nat \<Rightarrow> nat \<Rightarrow> nat" where
  "get_order_idx idx ord = idx div 2 ^ ord"

definition is_free :: "mm \<Rightarrow> nat \<Rightarrow> bool" where
  "is_free s p = (flags_of s p AND PAGE_FLAG_USED = 0 \<and> flags_of s p AND PAGE_FLAG_PERM = 0)"

definition is_master :: "mm \<Rightarrow> nat \<Rightarrow> bool" where
  "is_master s p = (get_order_idx p (order_of s p) mod 2 = 0)"

definition is_subblock_master :: "mm \<Rightarrow> nat \<Rightarrow> bool" where
  "is_subblock_master s p =
     (if order_of s p = 0 then True else get_order_idx p (order_of s p - 1) mod 2 = 0)"

definition get_buddy :: "mm \<Rightarrow> nat \<Rightarrow> nat" where
  "get_buddy s p = (if is_master s p then p + 2 ^ order_of s p else p - 2 ^ order_of s p)"

definition get_master :: "mm \<Rightarrow> nat \<Rightarrow> nat" where
  "get_master s p = (if is_master s p then p else get_buddy s p)"

definition freelist_rm :: "nat \<Rightarrow> mm \<Rightarrow> mm option" where
  "freelist_rm p s =
     (let k = order_of s p in
      if p \<in> set (free_page_list s k)
      then Some (s\<lparr>free_page_list := (free_page_list s)(k := remove1 p (free_page_list s k))\<rparr>)
      else None)"

definition add_to_freelists :: "nat \<Rightarrow> mm \<Rightarrow> mm option" where
  "add_to_freelists p s = do {
     bug_on (\<not> is_free s p);
     bug_on (\<not> is_subblock_master s p);
     let k = order_of s p in
     Some (s\<lparr>free_page_list := (free_page_list s)(k := p # free_page_list s k)\<rparr>) }"

definition split_block :: "nat \<Rightarrow> mm \<Rightarrow> (mm \<times> nat) option" where
  "split_block master s = do {
     bug_on (\<not> is_subblock_master s master);
     bug_on (order_of s master = 0);
     let s1 = set_order master (order_of s master - 1) s;
         slave = get_buddy s1 master
     in do {
       bug_on (order_of s1 master \<noteq> order_of s1 slave);
       bug_on (\<not> is_free s1 master);
       bug_on (\<not> is_free s1 slave);
       Some (s1, slave) } }"

definition join_block :: "nat \<Rightarrow> mm \<Rightarrow> (mm \<times> nat) option" where
  "join_block p s =
     (let master = get_master s p;
          buddy = get_buddy s master
      in do {
        bug_on (order_of s master \<noteq> order_of s (get_buddy s master));
        bug_on (order_of s master = MAX_ORDER);
        bug_on (\<not> is_free s master);
        bug_on (\<not> is_free s buddy);
        Some (set_order master (order_of s master + 1) s, master) })"

lemma order_set_order: "order_of (set_order i v s) j = (if j = i then v else order_of s j)"
  by (simp add: set_order_def)

lemma split_block_SomeD:
  "split_block b s = Some (s', sl) \<Longrightarrow> order_of s b \<noteq> 0 \<and> s' = set_order b (order_of s b - 1) s
     \<and> sl = get_buddy s' b \<and> order_of s' b = order_of s' sl"
  by (auto simp: split_block_def Let_def split: if_splits)

lemma split_block_orders:
  "split_block b s = Some (s', sl) \<Longrightarrow>
     order_of s b \<noteq> 0 \<and> order_of s' b = order_of s b - 1 \<and> order_of s' sl = order_of s b - 1"
  using split_block_SomeD [of b s s' sl] order_set_order [of b "order_of s b - 1" s b] by metis

lemma add_to_freelists_pages: "add_to_freelists p s = Some s' \<Longrightarrow> mm_pages s' = mm_pages s"
  by (auto simp: add_to_freelists_def Let_def split: if_splits)

text \<open>The loop of \<^verbatim>\<open>trim_block\<close>; a pass lowers the order of the block it goes on with.\<close>

function trim_loop :: "mm \<Rightarrow> nat \<Rightarrow> nat \<Rightarrow> mm option" where
  "trim_loop s block actual =
     (if actual = 0 then None
      else let block_size = 2 ^ order_of s block in
        if actual = block_size then Some s
        else if order_of s block = 0 \<or> \<not> is_free s block \<or> block_size < actual then None
        else case split_block block s of None \<Rightarrow> None
          | Some (s1, buddy) \<Rightarrow>
              if actual \<le> block_size div 2
              then if \<not> is_free s1 buddy then None
                else case add_to_freelists buddy s1 of None \<Rightarrow> None
                  | Some s2 \<Rightarrow> trim_loop s2 block actual
              else trim_loop s1 buddy (actual XOR 2 ^ order_of s1 block))"
  by pat_completeness auto
termination
  by (relation "measure (\<lambda>(s, block, actual). order_of s block)")
    (auto simp: add_to_freelists_pages dest: split_block_orders)

declare trim_loop.simps [simp del]

definition trim_block :: "nat \<Rightarrow> nat \<Rightarrow> mm \<Rightarrow> mm option" where
  "trim_block block actual s = do {
     bug_on (actual = 0);
     bug_on (\<not> is_free s block);
     trim_loop s block actual }"

lemma freelist_rm_pages: "freelist_rm p s = Some s' \<Longrightarrow> mm_pages s' = mm_pages s"
  by (auto simp: freelist_rm_def Let_def split: if_splits)

lemma join_block_SomeD:
  "join_block b s = Some (s', m) \<Longrightarrow> m = get_master s b \<and> s' = set_order m (order_of s m + 1) s"
  by (auto simp: join_block_def Let_def split: if_splits)

lemma join_block_order:
  assumes "join_block b s = Some (s', m)" and "order_of s (get_buddy s b) = order_of s b"
  shows "order_of s' m = Suc (order_of s b)"
proof -
  have "order_of s (get_master s b) = order_of s b" using assms(2) by (simp add: get_master_def)
  then show ?thesis using join_block_SomeD [OF assms(1)] by (simp add: order_set_order)
qed

lemma get_buddy_cong: "mm_pages s = mm_pages s' \<Longrightarrow> get_buddy s p = get_buddy s' p"
  by (simp add: get_buddy_def is_master_def)

function ripple_loop :: "mm \<Rightarrow> nat \<Rightarrow> (mm \<times> nat) option" where
  "ripple_loop s block =
     (let buddy = get_buddy s block in
      if is_free s buddy \<and> order_of s buddy = order_of s block \<and> order_of s block < MAX_ORDER
      then case freelist_rm buddy s of None \<Rightarrow> None
        | Some s1 \<Rightarrow> (case join_block block s1 of None \<Rightarrow> None
          | Some (s2, block') \<Rightarrow> if \<not> is_free s2 block' then None else ripple_loop s2 block')
      else Some (s, block))"
  by pat_completeness auto
termination
proof (relation "measure (\<lambda>(s, block). MAX_ORDER - order_of s block)", goal_cases)
  case (2 s block buddy s1 x s2 block')
  then have "mm_pages s1 = mm_pages s" by (simp add: freelist_rm_pages)
  moreover from this 2 have "order_of s2 block' = Suc (order_of s1 block)"
    by (intro join_block_order) (auto simp: get_buddy_cong [of s1 s])
  ultimately show ?case using 2 by auto
qed simp

declare ripple_loop.simps [simp del]

definition ripple_join :: "nat \<Rightarrow> mm \<Rightarrow> mm option" where
  "ripple_join p s = do {
     bug_on (\<not> is_free s p);
     (s', block) \<leftarrow> ripple_loop s p;
     add_to_freelists block s' }"

text \<open>\<^verbatim>\<open>for(i = 0; i < number; i++)\<close> over the pages of an allocation, and of a freed block.\<close>

fun mark_used :: "mm \<Rightarrow> nat \<Rightarrow> nat \<Rightarrow> mm option" where
  "mark_used s p 0 = Some s"
| "mark_used s p (Suc n) = do {
     bug_on (flags_of s p \<noteq> 0);
     mark_used (set_flags p (flags_of s p OR PAGE_FLAG_USED) s) (p + 1) n }"

fun clear_flags :: "mm \<Rightarrow> nat \<Rightarrow> nat \<Rightarrow> mm option" where
  "clear_flags s p 0 = Some s"
| "clear_flags s p (Suc n) = do {
     bug_on (flags_of s p AND PAGE_FLAG_PERM \<noteq> 0);
     bug_on (flags_of s p AND PAGE_FLAG_USED = 0);
     clear_flags (set_flags p 0 s) (p + 1) n }"

definition log2_nat :: "nat \<Rightarrow> nat" where
  "log2_nat n = fls_nat n - 1"

lemma log2_nat_bounds: "0 < n \<Longrightarrow> 2 ^ log2_nat n \<le> n \<and> n < 2 ^ Suc (log2_nat n)"
  using fls_nat_bounds [of n] by (auto simp: log2_nat_def)

lemma not_bit_above: "(r::nat) < 2 ^ k \<Longrightarrow> k \<le> i \<Longrightarrow> \<not> bit r i"
  by (metis bit_take_bit_iff linorder_not_less take_bit_nat_eq_self)

lemma xor_top_bit:
  assumes "2 ^ k \<le> n" and "n < 2 ^ Suc k"
  shows "n XOR 2 ^ k = n - (2 ^ k :: nat)"
proof -
  obtain r where r: "n = 2 ^ k + r" "r < 2 ^ k"
    using assms le_Suc_ex by (metis add_less_cancel_left mult_2 power_Suc)
  have n: "n = 2 ^ k OR r" unfolding r(1)
    by (rule disjunctive_add) (use not_bit_above [OF r(2)] in \<open>auto simp: bit_exp_iff\<close>)
  have "(2 ^ k OR r) XOR 2 ^ k = r"
    by (rule bit_eqI) (use not_bit_above [OF r(2)] in \<open>auto simp: bit_xor_iff bit_or_iff bit_exp_iff\<close>)
  then show ?thesis using n r(1) by simp
qed

lemma xor_log2_less: "0 < n \<Longrightarrow> n XOR 2 ^ log2_nat n < n"
  using log2_nat_bounds [of n] by (simp add: xor_top_bit)

text \<open>
  A request for zero pages either finds a block, which \<^verbatim>\<open>trim_block\<close> rejects, or runs out of
  memory; it never returns. The logarithm of zero is left undefined by the code's \<^verbatim>\<open>bsr\<close>.
\<close>

definition alloc_target_order :: "nat \<Rightarrow> nat" where
  "alloc_target_order number =
     (let t = log2_nat number in if number XOR 2 ^ t \<noteq> 0 then t + 1 else t)"

function alloc_scan :: "mm \<Rightarrow> nat \<Rightarrow> nat \<Rightarrow> (mm \<times> nat) option" where
  "alloc_scan s number ord =
     (if MAX_ORDER < ord then None
      else case free_page_list s ord of
        [] \<Rightarrow> alloc_scan s number (ord + 1)
      | block # _ \<Rightarrow> do {
          bug_on (flags_of s block AND PAGE_FLAG_USED \<noteq> 0);
          let s1 = s\<lparr>free_page_list := (free_page_list s)(ord := remove1 block (free_page_list s ord))\<rparr>
          in do {
            s2 \<leftarrow> trim_block block number s1;
            s3 \<leftarrow> mark_used s2 block number;
            Some (s3\<lparr>pages_in_use := pages_in_use s3 + of_nat number\<rparr>, block) } })"
  by pat_completeness auto
termination
  by (relation "measure (\<lambda>(s, number, ord). Suc MAX_ORDER - ord)") simp_all

declare alloc_scan.simps [simp del]

definition do_alloc_pages :: "nat \<Rightarrow> mm \<Rightarrow> (mm \<times> nat) option" where
  "do_alloc_pages number s =
     (if number = 0 then None else alloc_scan s number (alloc_target_order number))"

definition free_page :: "nat \<Rightarrow> mm \<Rightarrow> mm option" where
  "free_page p s =
     (let page_size = 2 ^ order_of s p;
          s1 = s\<lparr>pages_in_use := pages_in_use s - of_nat page_size\<rparr>
      in do {
        s2 \<leftarrow> clear_flags s1 p page_size;
        ripple_join p s2 })"


text \<open>The block sizes of a freed run are the binary digits of its length, highest first.\<close>

function free_pages_loop :: "mm \<Rightarrow> nat \<Rightarrow> nat \<Rightarrow> mm option" where
  "free_pages_loop s master num =
     (if num = 0 then Some s
      else let block_size = 2 ^ log2_nat num in
        if num = order_of s master then None
        else case free_page master s of None \<Rightarrow> None
          | Some s' \<Rightarrow> free_pages_loop s' (master + block_size) (num XOR block_size))"
  by pat_completeness auto
termination
  by (relation "measure (\<lambda>(s, master, num). num)") (simp_all add: xor_log2_less)

declare free_pages_loop.simps [simp del]

definition free_pages :: "nat \<Rightarrow> nat \<Rightarrow> mm \<Rightarrow> mm option" where
  "free_pages p num s = free_pages_loop (set_compound p 0 s) p num"

definition claim_page :: "nat \<Rightarrow> mm \<Rightarrow> mm option" where
  "claim_page idx s = do {
     s1 \<leftarrow> free_page idx (set_flags idx (flags_of s idx AND NOT PAGE_FLAG_PERM) s);
     Some (s1\<lparr>pages_avaliable := pages_avaliable s1 + 1\<rparr>) }"

fun claim_pages :: "nat \<Rightarrow> nat \<Rightarrow> mm \<Rightarrow> mm option" where
  "claim_pages idx 0 s = Some s"
| "claim_pages idx (Suc n) s = do { s1 \<leftarrow> claim_page idx s; claim_pages (idx + 1) n s1 }"

section \<open>The invariant\<close>

text \<open>
  A block is a pair of its first page and its order. \<open>sub_ok ord i k\<close> says that the order fields
  inside a block of order \<open>k\<close> at \<open>i\<close> are those it was joined from: the upper half has order
  \<open>k - 1\<close>, and so on in both halves. This is what \<^verbatim>\<open>split_block\<close> relies on.
\<close>

type_synonym block = "nat \<times> nat"

fun sub_ok :: "(nat \<Rightarrow> nat) \<Rightarrow> nat \<Rightarrow> nat \<Rightarrow> bool" where
  "sub_ok ord i 0 = True"
| "sub_ok ord i (Suc k) = (ord (i + 2 ^ k) = k \<and> sub_ok ord i k \<and> sub_ok ord (i + 2 ^ k) k)"

definition blk :: "block \<Rightarrow> nat set" where
  "blk x = {fst x ..< fst x + 2 ^ snd x}"

definition wf_blk :: "(nat \<Rightarrow> nat) \<Rightarrow> block \<Rightarrow> bool" where
  "wf_blk ord x = (snd x \<le> MAX_ORDER \<and> 2 ^ snd x dvd fst x \<and> fst x < NUM_PAGES
     \<and> ord (fst x) = snd x \<and> sub_ok ord (fst x) (snd x))"

definition buddy_of :: "block \<Rightarrow> nat" where
  "buddy_of x = (if (fst x div 2 ^ snd x) mod 2 = 0 then fst x + 2 ^ snd x else fst x - 2 ^ snd x)"

definition free_blocks :: "mm \<Rightarrow> block set" where
  "free_blocks s = {x. fst x \<in> set (free_page_list s (snd x))}"

definition page_used :: "mm \<Rightarrow> nat \<Rightarrow> bool" where
  "page_used s p = (flags_of s p AND PAGE_FLAG_USED \<noteq> 0 \<and> flags_of s p AND PAGE_FLAG_PERM = 0)"

text \<open>
  \<open>mm_inv s A P\<close>: \<open>A\<close> are the allocated blocks and \<open>P\<close> the blocks an operation holds between
  taking them off a free list and giving them back or marking them. Blocks are aligned, within
  the page array and disjoint; free pages are exactly those of free or held blocks; no two
  buddies of one order are both free; pages outside all blocks are reserved, still as the
  start-up code left them.
\<close>

definition coalesced :: "mm \<Rightarrow> bool" where
  "coalesced s = (\<forall>x\<in>free_blocks s. snd x < MAX_ORDER \<longrightarrow> (buddy_of x, snd x) \<notin> free_blocks s)"

definition mm_inv :: "mm \<Rightarrow> block set \<Rightarrow> block set \<Rightarrow> bool" where
  "mm_inv s A P =
     (let B = free_blocks s \<union> A \<union> P in
      (\<forall>x\<in>B. wf_blk (order_of s) x)
      \<and> (\<forall>x\<in>B. \<forall>y\<in>B. x \<noteq> y \<longrightarrow> blk x \<inter> blk y = {})
      \<and> (\<forall>x\<in>free_blocks s \<union> P. \<forall>p\<in>blk x. flags_of s p = 0)
      \<and> (\<forall>x\<in>A. \<forall>p\<in>blk x. page_used s p)
      \<and> (\<forall>p<NUM_PAGES. is_free s p \<longrightarrow> (\<exists>x\<in>free_blocks s \<union> P. p \<in> blk x))
      \<and> free_blocks s \<inter> P = {}
      \<and> (\<forall>k. distinct (free_page_list s k))
      \<and> coalesced s
      \<and> (\<forall>p<NUM_PAGES. p \<notin> \<Union> (blk ` B) \<longrightarrow>
            order_of s p = 0 \<and> flags_of s p AND PAGE_FLAG_USED \<noteq> 0))"

section \<open>Arithmetic of aligned blocks\<close>

lemma blk_nonempty [simp]: "fst x \<in> blk x"
  by (simp add: blk_def)

lemma in_blk_iff:
  assumes "2 ^ j dvd h"
  shows "p \<in> blk (h, j) \<longleftrightarrow> p div 2 ^ j = h div (2 ^ j :: nat)"
proof -
  obtain q where h: "h = 2 ^ j * q" using assms by (elim dvdE)
  have "p div 2 ^ j = q \<Longrightarrow> 2 ^ j * q \<le> p \<and> p < 2 ^ j * q + 2 ^ j"
    using times_div_less_eq_dividend [of "2 ^ j" p] dividend_less_times_div [of "2 ^ j" p] by auto
  moreover have "2 ^ j * q \<le> p \<Longrightarrow> p < 2 ^ j * q + 2 ^ j \<Longrightarrow> p div 2 ^ j = q"
    by (intro div_nat_eqI) (auto simp: mult.commute)
  ultimately show ?thesis by (auto simp: blk_def h)
qed

lemma aligned_less:
  fixes i m n :: nat
  assumes "m dvd i" and "m dvd n" and "i < n"
  shows "i + m \<le> n"
proof -
  obtain q r where "i = m * q" "n = m * r" using assms by (elim dvdE)
  moreover from this assms have "Suc q \<le> r" by simp
  then have "m * Suc q \<le> m * r" by (rule mult_le_mono2)
  ultimately show ?thesis by simp
qed

lemma aligned_quotient:
  assumes "2 ^ k dvd i"
  obtains q where "i = 2 ^ k * q" "i div 2 ^ k = (q::nat)"
  using assms by (elim dvdE) simp

lemma buddy_even:
  assumes "2 ^ k dvd i" and "(i div 2 ^ k) mod 2 = 0"
  shows "buddy_of (i, k) = i + 2 ^ k" and "2 ^ Suc k dvd i"
proof -
  show "buddy_of (i, k) = i + 2 ^ k" using assms(2) by (simp add: buddy_of_def)
  obtain q where q: "i = 2 ^ k * q" "i div 2 ^ k = q" using assms(1) by (rule aligned_quotient)
  then obtain r where "q = 2 * r" using assms(2) by (auto simp flip: even_iff_mod_2_eq_zero)
  then show "2 ^ Suc k dvd i" using q by simp
qed

lemma buddy_odd:
  assumes "2 ^ k dvd i" and "(i div 2 ^ k) mod 2 \<noteq> 0"
  shows "buddy_of (i, k) + 2 ^ k = i" and "2 ^ Suc k dvd buddy_of (i, k)"
proof -
  obtain q where q: "i = 2 ^ k * q" "i div 2 ^ k = q" using assms(1) by (rule aligned_quotient)
  then have "odd q" using assms(2) by (simp add: even_iff_mod_2_eq_zero)
  then obtain r where r: "q = 2 * r + 1" by (elim oddE)
  then have b: "buddy_of (i, k) = 2 ^ k * (2 * r)" using assms(2) q by (simp add: buddy_of_def)
  show "buddy_of (i, k) + 2 ^ k = i" using b q r by (simp add: algebra_simps)
  show "2 ^ Suc k dvd buddy_of (i, k)" unfolding b by simp
qed

lemma buddy_cases:
  assumes "2 ^ k dvd i"
  obtains (master) "buddy_of (i, k) = i + 2 ^ k" "2 ^ Suc k dvd i" "(i div 2 ^ k) mod 2 = 0"
  | (slave) "i = buddy_of (i, k) + 2 ^ k" "2 ^ Suc k dvd buddy_of (i, k)" "(i div 2 ^ k) mod 2 \<noteq> 0"
  using buddy_even [OF assms] buddy_odd [OF assms] that by (cases "(i div 2 ^ k) mod 2 = 0") auto

lemma buddy_same_superblock:
  assumes "2 ^ k dvd i"
  shows "\<exists>m. 2 ^ Suc k dvd m \<and> i \<in> blk (m, Suc k) \<and> buddy_of (i, k) \<in> blk (m, Suc k)"
  using assms
proof (cases rule: buddy_cases)
  case master
  then show ?thesis by (intro exI [of _ i]) (simp add: blk_def)
next
  case slave
  define b where "b = buddy_of (i, k)"
  have "i \<in> blk (buddy_of (i, k), Suc k)"
    using slave(1) unfolding b_def [symmetric] by (simp add: blk_def)
  then show ?thesis using slave(2) by (intro exI [of _ "buddy_of (i, k)"]) (simp add: blk_def)
qed

lemma superblock_div:
  assumes "2 ^ Suc k dvd m" and "i \<in> blk (m, Suc k)" and "b \<in> blk (m, Suc k)" and "k < j"
  shows "i div 2 ^ j = b div (2 ^ j :: nat)"
proof -
  have "i div 2 ^ Suc k = b div 2 ^ Suc k" using assms(1-3) in_blk_iff by metis
  then have "i div 2 ^ Suc k div 2 ^ (j - Suc k) = b div 2 ^ Suc k div 2 ^ (j - Suc k)" by simp
  then show ?thesis using assms(4) by (simp add: div_exp_eq del: power_Suc)
qed

lemma sub_ok_cong:
  "(\<And>p. i < p \<Longrightarrow> p < i + 2 ^ k \<Longrightarrow> ord p = ord' p) \<Longrightarrow> sub_ok ord i k = sub_ok ord' i k"
proof (induction k arbitrary: i)
  case (Suc k)
  have "sub_ok ord i k = sub_ok ord' i k" by (rule Suc.IH) (use Suc.prems in auto)
  moreover have "sub_ok ord (i + 2 ^ k) k = sub_ok ord' (i + 2 ^ k) k"
    by (rule Suc.IH) (use Suc.prems in auto)
  moreover have "ord (i + 2 ^ k) = ord' (i + 2 ^ k)" by (rule Suc.prems) auto
  ultimately show ?case by simp
qed simp

lemma wf_blk_cong: "(\<And>p. p \<in> blk x \<Longrightarrow> ord p = ord' p) \<Longrightarrow> wf_blk ord x = wf_blk ord' x"
  using sub_ok_cong [of "fst x" "snd x" ord ord'] by (auto simp: wf_blk_def blk_def)

lemma blk_split: "blk (i, Suc k) = blk (i, k) \<union> blk (i + 2 ^ k, k)" "blk (i, k) \<inter> blk (i + 2 ^ k, k) = {}"
  by (auto simp: blk_def)

lemma pow2_dvd_NUM_PAGES: "k \<le> MAX_ORDER \<Longrightarrow> 2 ^ k dvd NUM_PAGES"
  using dvd_pow2_le [of k 20 NUM_PAGES] by (simp add: NUM_PAGES_def NUM_ENTRIES_def MAX_ORDER_def)

lemma wf_split:
  assumes "wf_blk ord (i, Suc k)"
  shows "wf_blk (ord(i := k)) (i, k)" and "wf_blk (ord(i := k)) (i + 2 ^ k, k)"
    and "ord (i + 2 ^ k) = k"
proof -
  have w: "Suc k \<le> MAX_ORDER" "2 ^ Suc k dvd i" "i < NUM_PAGES" "ord (i + 2 ^ k) = k"
    "sub_ok ord i k" "sub_ok ord (i + 2 ^ k) k"
    using assms by (auto simp: wf_blk_def)
  have s: "sub_ok (ord(i := k)) i k" "sub_ok (ord(i := k)) (i + 2 ^ k) k"
    using w(5,6) sub_ok_cong [of i k ord "ord(i := k)"] sub_ok_cong [of "i + 2 ^ k" k ord "ord(i := k)"] by auto
  have d: "2 ^ k dvd i" using w(2) by (metis dvd_trans le_imp_power_dvd lessI less_imp_le)
  have "2 ^ Suc k dvd NUM_PAGES" by (rule pow2_dvd_NUM_PAGES [OF w(1)])
  with w(2) have "i + 2 ^ Suc k \<le> NUM_PAGES" using w(3) by (rule aligned_less)
  then have "i + 2 ^ k < NUM_PAGES" by (auto intro: less_le_trans [rotated])
  then show "wf_blk (ord(i := k)) (i, k)" "wf_blk (ord(i := k)) (i + 2 ^ k, k)" "ord (i + 2 ^ k) = k"
    using w s d by (auto simp: wf_blk_def)
qed

lemma wf_join:
  assumes "wf_blk ord (i, k)" and "wf_blk ord (i + 2 ^ k, k)" and "2 ^ Suc k dvd i" and "k < MAX_ORDER"
  shows "wf_blk (ord(i := Suc k)) (i, Suc k)"
  using assms sub_ok_cong [of i k ord "ord(i := Suc k)"] sub_ok_cong [of "i + 2 ^ k" k ord "ord(i := Suc k)"]
  by (auto simp: wf_blk_def)

section \<open>The invariant under the primitive steps\<close>

lemma mm_invD:
  assumes "mm_inv s A P"
  shows "x \<in> free_blocks s \<union> A \<union> P \<Longrightarrow> wf_blk (order_of s) x"
    and "x \<in> free_blocks s \<union> A \<union> P \<Longrightarrow> y \<in> free_blocks s \<union> A \<union> P \<Longrightarrow> x \<noteq> y \<Longrightarrow> blk x \<inter> blk y = {}"
    and "x \<in> free_blocks s \<union> P \<Longrightarrow> p \<in> blk x \<Longrightarrow> flags_of s p = 0"
    and "x \<in> A \<Longrightarrow> p \<in> blk x \<Longrightarrow> page_used s p"
    and "p < NUM_PAGES \<Longrightarrow> is_free s p \<Longrightarrow> \<exists>x\<in>free_blocks s \<union> P. p \<in> blk x"
    and "free_blocks s \<inter> P = {}" and "distinct (free_page_list s k)" and "coalesced s"
    and "p < NUM_PAGES \<Longrightarrow> p \<notin> \<Union> (blk ` (free_blocks s \<union> A \<union> P)) \<Longrightarrow>
      order_of s p = 0 \<and> flags_of s p AND PAGE_FLAG_USED \<noteq> 0"
  using assms unfolding mm_inv_def Let_def by blast+

lemma mm_invI:
  assumes "\<And>x. x \<in> free_blocks s \<union> A \<union> P \<Longrightarrow> wf_blk (order_of s) x"
    and "\<And>x y. x \<in> free_blocks s \<union> A \<union> P \<Longrightarrow> y \<in> free_blocks s \<union> A \<union> P \<Longrightarrow> x \<noteq> y \<Longrightarrow> blk x \<inter> blk y = {}"
    and "\<And>x p. x \<in> free_blocks s \<union> P \<Longrightarrow> p \<in> blk x \<Longrightarrow> flags_of s p = 0"
    and "\<And>x p. x \<in> A \<Longrightarrow> p \<in> blk x \<Longrightarrow> page_used s p"
    and "\<And>p. p < NUM_PAGES \<Longrightarrow> is_free s p \<Longrightarrow> \<exists>x\<in>free_blocks s \<union> P. p \<in> blk x"
    and "free_blocks s \<inter> P = {}" and "\<And>k. distinct (free_page_list s k)" and "coalesced s"
    and "\<And>p. p < NUM_PAGES \<Longrightarrow> p \<notin> \<Union> (blk ` (free_blocks s \<union> A \<union> P)) \<Longrightarrow>
      order_of s p = 0 \<and> flags_of s p AND PAGE_FLAG_USED \<noteq> 0"
  shows "mm_inv s A P"
  using assms unfolding mm_inv_def Let_def by blast

lemma blocks_eq: "mm_inv s A P \<Longrightarrow> x \<in> free_blocks s \<union> A \<union> P \<Longrightarrow> y \<in> free_blocks s \<union> A \<union> P
    \<Longrightarrow> p \<in> blk x \<Longrightarrow> p \<in> blk y \<Longrightarrow> x = y"
  using mm_invD(2) [of s A P x y] by blast

text \<open>Moving blocks between the free lists and the blocks held.\<close>

lemma same_pages: "mm_pages s' = mm_pages s \<Longrightarrow> page_used s' = page_used s \<and> is_free s' = is_free s"
  by (simp add: page_used_def is_free_def fun_eq_iff)

lemma mm_inv_move:
  assumes "mm_inv s A P" and "mm_pages s' = mm_pages s"
    and "free_blocks s' \<union> P' = free_blocks s \<union> P" and "free_blocks s' \<inter> P' = {}"
    and "\<And>k. distinct (free_page_list s' k)" and "coalesced s'"
  shows "mm_inv s' A P'"
proof -
  have "free_blocks s' \<union> A \<union> P' = free_blocks s \<union> A \<union> P" using assms(3) by blast
  then show ?thesis using assms same_pages [OF assms(2)] unfolding mm_inv_def Let_def by simp
qed

lemma used_not_free: "mm_inv s A P \<Longrightarrow> A \<inter> (free_blocks s \<union> P) = {}"
  using mm_invD(3,4) [of s A P _ "fst _"] blk_nonempty by (fastforce simp: page_used_def)

text \<open>Replacing held blocks by others that cover the same pages.\<close>

lemma mm_inv_replace:
  assumes inv: "mm_inv s A (P \<union> Q)"
    and fl: "free_page_list s' = free_page_list s" and flags: "flags_of s' = flags_of s"
    and ord: "\<And>p. p \<notin> \<Union> (blk ` Q) \<Longrightarrow> order_of s' p = order_of s p"
    and cover: "\<Union> (blk ` Q') = \<Union> (blk ` Q)" and pq: "P \<inter> Q = {}"
    and wf: "\<And>x. x \<in> Q' \<Longrightarrow> wf_blk (order_of s') x"
    and dis: "\<And>x y. x \<in> Q' \<Longrightarrow> y \<in> Q' \<Longrightarrow> x \<noteq> y \<Longrightarrow> blk x \<inter> blk y = {}"
  shows "mm_inv s' A (P \<union> Q')"
proof -
  have F: "free_blocks s' = free_blocks s" using fl by (simp add: free_blocks_def)
  have fp: "flags_of s' p = flags_of s p" for p using fun_cong [OF flags] .
  let ?R = "free_blocks s \<union> A \<union> P"
  have "?R \<inter> Q = {}" using used_not_free [OF inv] mm_invD(6) [OF inv] pq by blast
  then have RQ: "blk x \<inter> \<Union> (blk ` Q) = {}" if "x \<in> ?R" for x
    using mm_invD(2) [OF inv, of x] that by blast
  then have RQ': "blk x \<inter> blk y = {}" if "x \<in> ?R" "y \<in> Q'" for x y using that cover by blast
  have wfR: "wf_blk (order_of s') x" if "x \<in> ?R" for x
    using wf_blk_cong [of x "order_of s'" "order_of s"] ord RQ [OF that] mm_invD(1) [OF inv, of x] that by blast
  have B: "free_blocks s' \<union> A \<union> (P \<union> Q') = ?R \<union> Q'" by (auto simp: F)
  show ?thesis
  proof (rule mm_invI, goal_cases)
    case (1 x) then show ?case using wfR wf unfolding B by blast
  next
    case (2 x y)
    then consider "x \<in> ?R" "y \<in> ?R" | "x \<in> ?R" "y \<in> Q'" | "x \<in> Q'" "y \<in> ?R" | "x \<in> Q'" "y \<in> Q'"
      unfolding B by blast
    then show ?case
      by cases (use 2(3) mm_invD(2) [OF inv, of x y] RQ' [of x y] RQ' [of y x] dis [of x y] in blast)+
  next
    case (3 x p)
    then consider "x \<in> free_blocks s \<union> P" | "x \<in> Q'" unfolding F by blast
    then show ?case
    proof cases
      case 1 then show ?thesis using mm_invD(3) [OF inv, of x p] 3(2) fp by auto
    next
      case 2
      then obtain y where "y \<in> Q" "p \<in> blk y" using 3(2) cover by blast
      then show ?thesis using mm_invD(3) [OF inv, of y p] fp by auto
    qed
  next
    case (4 x p) then show ?case using mm_invD(4) [OF inv, of x p] flags by (metis page_used_def)
  next
    case (5 p)
    then have "is_free s p" by (metis flags is_free_def)
    with mm_invD(5) [OF inv 5(1)] obtain x where "x \<in> free_blocks s \<union> (P \<union> Q)" "p \<in> blk x" by blast
    then show ?case using cover F by blast
  next
    case 6
    have "x \<notin> Q'" if "x \<in> free_blocks s" for x
      using RQ' [of x x] that blk_nonempty [of x] by blast
    then show ?case using mm_invD(6) [OF inv] unfolding F by blast
  next
    case 7 then show ?case using mm_invD(7) [OF inv] fl by simp
  next
    case 8 then show ?case using mm_invD(8) [OF inv] unfolding coalesced_def F by simp
  next
    case (9 p)
    then have "p \<notin> \<Union> (blk ` Q)" "p \<notin> \<Union> (blk ` (free_blocks s \<union> A \<union> (P \<union> Q)))"
      using cover unfolding F by blast+
    then show ?case using mm_invD(9) [OF inv 9(1)] ord fp by auto
  qed
qed


definition same_meta :: "mm \<Rightarrow> mm \<Rightarrow> bool" where
  "same_meta s' s = ((\<forall>p. pg_addr (mm_pages s' p) = pg_addr (mm_pages s p) \<and> flags_of s' p = flags_of s p
       \<and> pg_compound_num (mm_pages s' p) = pg_compound_num (mm_pages s p))
     \<and> pages_in_use s' = pages_in_use s \<and> pages_avaliable s' = pages_avaliable s)"

lemma same_meta_refl [simp]: "same_meta s s"
  by (simp add: same_meta_def)

lemma same_meta_trans: "same_meta s'' s' \<Longrightarrow> same_meta s' s \<Longrightarrow> same_meta s'' s"
  by (simp add: same_meta_def)

lemma same_meta_set_order [simp]: "same_meta (set_order i v s) s"
  by (simp add: same_meta_def set_order_def)

lemma set_order_fl [simp]: "free_page_list (set_order i v s) = free_page_list s"
  by (simp add: set_order_def)

lemma same_meta_fl [simp]: "same_meta (s\<lparr>free_page_list := fl\<rparr>) s"
  by (simp add: same_meta_def)

lemma is_free_zero: "flags_of s p = 0 \<Longrightarrow> is_free s p"
  by (simp add: is_free_def)

lemma free_blocks_add:
  "free_blocks (s\<lparr>free_page_list := (free_page_list s)(k := p # free_page_list s k)\<rparr>)
     = insert (p, k) (free_blocks s)"
  by (auto simp: free_blocks_def split: if_splits)

lemma free_blocks_rm:
  "distinct (free_page_list s k) \<Longrightarrow>
   free_blocks (s\<lparr>free_page_list := (free_page_list s)(k := remove1 p (free_page_list s k))\<rparr>)
     = free_blocks s - {(p, k)}"
  by (auto simp: free_blocks_def split: if_splits)

lemma coalesced_subset: "coalesced s \<Longrightarrow> free_blocks s' \<subseteq> free_blocks s \<Longrightarrow> coalesced s'"
  unfolding coalesced_def by blast

lemma buddy_buddy:
  assumes "2 ^ k dvd i"
  shows "buddy_of (buddy_of (i, k), k) = i" and "2 ^ k dvd buddy_of (i, k)" and "buddy_of (i, k) \<noteq> i"
proof -
  obtain q where q: "i = 2 ^ k * q" "i div 2 ^ k = q" using assms by (rule aligned_quotient)
  have "buddy_of (i, k) = 2 ^ k * (if q mod 2 = 0 then q + 1 else q - 1)"
    using q by (auto simp: buddy_of_def algebra_simps)
  moreover have "q mod 2 \<noteq> 0 \<Longrightarrow> (q - 1) mod 2 = 0 \<and> q - 1 + 1 = q" by presburger
  moreover have "q mod 2 = 0 \<Longrightarrow> (q + 1) mod 2 \<noteq> 0" by presburger
  ultimately show "buddy_of (buddy_of (i, k), k) = i" and "2 ^ k dvd buddy_of (i, k)" and "buddy_of (i, k) \<noteq> i"
    using q by (auto simp: buddy_of_def algebra_simps)
qed

lemma release_block:
  assumes inv: "mm_inv s A (insert (i, k) P)" and new: "(i, k) \<notin> P"
    and b: "k < MAX_ORDER \<Longrightarrow> (buddy_of (i, k), k) \<notin> free_blocks s"
  shows "\<exists>s'. add_to_freelists i s = Some s' \<and> mm_inv s' A P \<and> same_meta s' s
    \<and> mm_pages s' = mm_pages s \<and> free_blocks s' = insert (i, k) (free_blocks s)"
proof -
  let ?s = "s\<lparr>free_page_list := (free_page_list s)(k := i # free_page_list s k)\<rparr>"
  have wf: "order_of s i = k" "2 ^ k dvd i" using mm_invD(1) [OF inv, of "(i, k)"] by (auto simp: wf_blk_def)
  have fr: "is_free s i" using mm_invD(3) [OF inv, of "(i, k)" i] by (simp add: is_free_zero blk_def)
  have sub: "is_subblock_master s i"
  proof (cases k)
    case (Suc j)
    then obtain q where "i = 2 ^ j * (2 * q)" using wf(2) by (auto elim!: dvdE)
    then show ?thesis using wf(1) Suc by (simp add: is_subblock_master_def get_order_idx_def)
  qed (use wf(1) in \<open>simp add: is_subblock_master_def\<close>)
  have n: "(i, k) \<notin> free_blocks s" using mm_invD(6) [OF inv] by blast
  have F: "free_blocks ?s = insert (i, k) (free_blocks s)" by (rule free_blocks_add)
  have "coalesced ?s" unfolding coalesced_def F
  proof (intro ballI impI)
    fix x assume x: "x \<in> insert (i, k) (free_blocks s)" and m: "snd x < MAX_ORDER"
    show "(buddy_of x, snd x) \<notin> insert (i, k) (free_blocks s)"
    proof (cases "x = (i, k)")
      case True then show ?thesis using b m buddy_buddy(3) [OF wf(2)] by auto
    next
      case False
      then have xF: "x \<in> free_blocks s" using x by simp
      then have d: "2 ^ snd x dvd fst x" using mm_invD(1) [OF inv, of x] by (auto simp: wf_blk_def)
      have "(buddy_of x, snd x) \<noteq> (i, k)"
        using b m xF buddy_buddy(1) [of "snd x" "fst x", OF d] by (cases x) auto
      then show ?thesis using mm_invD(8) [OF inv] xF m unfolding coalesced_def by blast
    qed
  qed
  moreover have "distinct (free_page_list ?s j)" for j
    using mm_invD(7) [OF inv, of j] n by (auto simp: free_blocks_def)
  ultimately have "mm_inv ?s A P"
    using F new mm_invD(6) [OF inv] by (intro mm_inv_move [OF inv]) auto
  then show ?thesis using wf fr sub F by (simp add: add_to_freelists_def)
qed

lemma take_block:
  assumes inv: "mm_inv s A P" and x: "(i, k) \<in> free_blocks s"
  defines "s' \<equiv> s\<lparr>free_page_list := (free_page_list s)(k := remove1 i (free_page_list s k))\<rparr>"
  shows "mm_inv s' A (insert (i, k) P)" and "free_blocks s' = free_blocks s - {(i, k)}" and "(i, k) \<notin> P"
proof -
  have F: "free_blocks s' = free_blocks s - {(i, k)}"
    unfolding s'_def by (rule free_blocks_rm) (rule mm_invD(7) [OF inv])
  have "distinct (free_page_list s' j)" for j using mm_invD(7) [OF inv] by (simp add: s'_def)
  moreover have "coalesced s'" using mm_invD(8) [OF inv] F by (auto intro: coalesced_subset)
  ultimately show "mm_inv s' A (insert (i, k) P)"
    using F mm_invD(6) [OF inv] x by (intro mm_inv_move [OF inv]) (auto simp: s'_def)
  show "free_blocks s' = free_blocks s - {(i, k)}" by (rule F)
  show "(i, k) \<notin> P" using mm_invD(6) [OF inv] x by blast
qed

lemma held_new:
  assumes "mm_inv s A (insert x P)" and "x \<notin> P" and "blk y \<subseteq> blk x"
  shows "y \<notin> P"
  using mm_invD(2) [OF assms(1), of x y] assms blk_nonempty [of y] by blast

lemma split_step:
  assumes inv: "mm_inv s A (insert (i, Suc k) P)" and new: "(i, Suc k) \<notin> P"
  shows "\<exists>s'. split_block i s = Some (s', i + 2 ^ k) \<and> mm_inv s' A (insert (i, k) (insert (i + 2 ^ k, k) P))
    \<and> same_meta s' s \<and> free_page_list s' = free_page_list s \<and> order_of s' i = k"
proof -
  let ?s = "set_order i k s"
  have wf: "wf_blk (order_of s) (i, Suc k)" using mm_invD(1) [OF inv, of "(i, Suc k)"] by simp
  then have o: "order_of s i = Suc k" "2 ^ Suc k dvd i" by (auto simp: wf_blk_def)
  have os: "order_of ?s = (order_of s)(i := k)" by (auto simp: order_set_order)
  have "2 ^ k dvd i" "(i div 2 ^ k) mod 2 = 0" using o(2) by (auto elim!: dvdE)
  then have m: "get_buddy ?s i = i + 2 ^ k" "is_subblock_master s i"
    using o(1) by (simp_all add: get_buddy_def is_master_def is_subblock_master_def get_order_idx_def order_set_order)
  have f: "flags_of ?s p = flags_of s p" for p by (simp add: set_order_def)
  have fr: "is_free ?s i" "is_free ?s (i + 2 ^ k)"
    using mm_invD(3) [OF inv, of "(i, Suc k)"] f by (auto intro!: is_free_zero simp: blk_def)
  have "mm_inv ?s A (P \<union> {(i, k), (i + 2 ^ k, k)})"
  proof (rule mm_inv_replace)
    show "mm_inv s A (P \<union> {(i, Suc k)})" using inv by simp
    show "wf_blk (order_of ?s) x" if "x \<in> {(i, k), (i + 2 ^ k, k)}" for x
      using wf_split [OF wf] that unfolding os by blast
    show "order_of ?s p = order_of s p" if "p \<notin> \<Union> (blk ` {(i, Suc k)})" for p
      using that blk_nonempty [of "(i, Suc k)"] by (auto simp: order_set_order)
  qed (use blk_split [of i k] new f in \<open>auto simp: set_order_def\<close>)
  then show ?thesis using m fr o wf_split(3) [OF wf]
    by (auto simp: split_block_def Let_def order_set_order insert_commute)
qed

text \<open>The blocks of a run of \<open>n\<close> pages at \<open>b\<close>: its binary digits, highest first.\<close>

function pieces :: "nat \<Rightarrow> nat \<Rightarrow> block set" where
  "pieces b n = (if n = 0 then {}
     else insert (b, log2_nat n) (pieces (b + 2 ^ log2_nat n) (n - 2 ^ log2_nat n)))"
  by pat_completeness auto
termination by (relation "measure snd") (simp_all add: log2_nat_bounds)

declare pieces.simps [simp del]

lemma log2_nat_eqI: "2 ^ k \<le> n \<Longrightarrow> n < 2 ^ Suc k \<Longrightarrow> log2_nat n = k"
  using log2_nat_bounds [of n] pow2_unique [of "log2_nat n" n k] by (cases "n = 0") auto

lemma pieces_pow2: "pieces b (2 ^ k) = {(b, k)}"
  using log2_nat_eqI [of k "2 ^ k"] by (simp add: pieces.simps [of b "2 ^ k"] pieces.simps [of _ 0])

lemma pieces_high:
  "2 ^ k \<le> n \<Longrightarrow> n < 2 ^ Suc k \<Longrightarrow> pieces b n = insert (b, k) (pieces (b + 2 ^ k) (n - 2 ^ k))"
  using log2_nat_eqI [of k n] by (simp add: pieces.simps [of b n])

lemma upper_half_buddy: "2 ^ Suc k dvd b \<Longrightarrow> buddy_of (b + 2 ^ k, k) = b"
  using buddy_buddy(1) [of k b] buddy_even(1) [of k b] by (auto elim!: dvdE)

lemma trim_loop_ok:
  "mm_inv s A (insert (b, k) P) \<Longrightarrow> (b, k) \<notin> P \<Longrightarrow> 0 < n \<Longrightarrow> n \<le> 2 ^ k \<Longrightarrow>
     \<exists>s'. trim_loop s b n = Some s' \<and> mm_inv s' A (pieces b n \<union> P) \<and> same_meta s' s
       \<and> (\<forall>j>k. free_page_list s' j = free_page_list s j)"
proof (induction k arbitrary: s b n P)
  case 0
  then have "n = 2 ^ 0" "order_of s b = 0" using mm_invD(1) [OF 0(1), of "(b, 0)"] by (auto simp: wf_blk_def)
  then show ?case using 0(1) pieces_pow2 [of b 0] by (simp add: trim_loop.simps [of s b "Suc 0"])
next
  case (Suc k)
  have o: "order_of s b = Suc k" using mm_invD(1) [OF Suc.prems(1), of "(b, Suc k)"] by (auto simp: wf_blk_def)
  have fr: "is_free s b" using mm_invD(3) [OF Suc.prems(1), of "(b, Suc k)" b] by (simp add: is_free_zero blk_def)
  obtain s1 where s1: "split_block b s = Some (s1, b + 2 ^ k)" "same_meta s1 s" "free_page_list s1 = free_page_list s"
     "mm_inv s1 A (insert (b, k) (insert (b + 2 ^ k, k) P))" "order_of s1 b = k"
    using split_step [OF Suc.prems(1,2)] by blast
  have n1: "(b, k) \<notin> P" "(b + 2 ^ k, k) \<notin> P"
    using held_new [OF Suc.prems(1,2)] blk_split(1) [of b k] by blast+
  have ne: "(b + 2 ^ k, k) \<noteq> (b, k)" by simp
  have fr1: "is_free s1 (b + 2 ^ k)"
    using mm_invD(3) [OF s1(4), of "(b + 2 ^ k, k)" "b + 2 ^ k"] by (simp add: is_free_zero blk_def)
  consider "n = 2 ^ Suc k" | "n \<le> 2 ^ k" | "2 ^ k < n" "n < 2 ^ Suc k" using Suc.prems(4) by fastforce
  then show ?case
  proof cases
    case 1
    then show ?thesis using Suc.prems(1) pieces_pow2 [of b "Suc k"] o
      by (simp add: trim_loop.simps [of s b "2 * 2 ^ k"])
  next
    case 2
    have "buddy_of (b + 2 ^ k, k) = b"
      using mm_invD(1) [OF Suc.prems(1), of "(b, Suc k)"] by (intro upper_half_buddy) (auto simp: wf_blk_def)
    then have nb: "(buddy_of (b + 2 ^ k, k), k) \<notin> free_blocks s1" using mm_invD(6) [OF s1(4)] by auto
    have i1: "mm_inv s1 A (insert (b + 2 ^ k, k) (insert (b, k) P))" using s1(4) by (simp add: insert_commute)
    obtain s2 where s2: "add_to_freelists (b + 2 ^ k) s1 = Some s2" "mm_inv s2 A (insert (b, k) P)" "same_meta s2 s1"
      "mm_pages s2 = mm_pages s1" "free_blocks s2 = insert (b + 2 ^ k, k) (free_blocks s1)"
      using release_block [OF i1 _ nb] n1 ne by auto
    from Suc.IH [OF s2(2) n1(1) Suc.prems(3) 2] obtain s3 where s3: "trim_loop s2 b n = Some s3"
      "mm_inv s3 A (pieces b n \<union> P)" "same_meta s3 s2" "\<forall>j>k. free_page_list s3 j = free_page_list s2 j" by blast
    have "trim_loop s b n = Some s3"
      using s1(1) s2(1) s3(1) o fr fr1 2 Suc.prems(3) by (simp add: trim_loop.simps [of s b n])
    moreover have "\<forall>j>Suc k. free_page_list s3 j = free_page_list s j"
      using s3(4) s2(1) s1(3) mm_invD(1) [OF i1, of "(b + 2 ^ k, k)"]
      by (auto simp: add_to_freelists_def Let_def wf_blk_def split: if_splits)
    ultimately show ?thesis using s3(2,3) s2(3) s1(2) by (blast intro: same_meta_trans)
  next
    case 3
    have i1: "mm_inv s1 A (insert (b + 2 ^ k, k) (insert (b, k) P))" using s1(4) by (simp add: insert_commute)
    have x: "n XOR 2 ^ k = n - 2 ^ k" using 3 by (intro xor_top_bit) auto
    have "0 < n - 2 ^ k" "n - 2 ^ k \<le> 2 ^ k" using 3 by auto
    from Suc.IH [OF i1 _ this] n1 ne obtain s2 where s2: "trim_loop s1 (b + 2 ^ k) (n - 2 ^ k) = Some s2"
      "mm_inv s2 A (pieces (b + 2 ^ k) (n - 2 ^ k) \<union> insert (b, k) P)" "same_meta s2 s1"
      "\<forall>j>k. free_page_list s2 j = free_page_list s1 j" by auto
    have "trim_loop s b n = Some s2"
      using s1(1,5) s2(1) o fr 3 x by (simp add: trim_loop.simps [of s b n])
    moreover have "pieces b n = insert (b, k) (pieces (b + 2 ^ k) (n - 2 ^ k))" using 3 by (intro pieces_high) auto
    ultimately show ?thesis using s2 s1(2,3) by (auto intro: same_meta_trans)
  qed
qed

lemma mark_used_ok:
  "(\<And>q. p \<le> q \<Longrightarrow> q < p + n \<Longrightarrow> flags_of s q = 0) \<Longrightarrow>
   mark_used s p n = Some (s\<lparr>mm_pages := (\<lambda>q. if p \<le> q \<and> q < p + n
       then (mm_pages s q)\<lparr>pg_flags := PAGE_FLAG_USED\<rparr> else mm_pages s q)\<rparr>)"
proof (induction n arbitrary: s p)
  case 0
  have "(\<lambda>q. if p \<le> q \<and> q < p then (mm_pages s q)\<lparr>pg_flags := PAGE_FLAG_USED\<rparr> else mm_pages s q) = mm_pages s"
    by (rule ext) auto
  then show ?case by simp
next
  case (Suc n)
  let ?s = "set_flags p PAGE_FLAG_USED s"
  have z: "flags_of s p = 0" by (rule Suc.prems) auto
  have "flags_of ?s q = 0" if "p + 1 \<le> q" "q < p + 1 + n" for q
    using Suc.prems [of q] that by (simp add: set_flags_def)
  from Suc.IH [OF this] have "mark_used s p (Suc n) = Some (?s\<lparr>mm_pages := (\<lambda>q. if p + 1 \<le> q \<and> q < p + 1 + n
       then (mm_pages ?s q)\<lparr>pg_flags := PAGE_FLAG_USED\<rparr> else mm_pages ?s q)\<rparr>)" using z by simp
  also have "?s\<lparr>mm_pages := (\<lambda>q. if p + 1 \<le> q \<and> q < p + 1 + n
       then (mm_pages ?s q)\<lparr>pg_flags := PAGE_FLAG_USED\<rparr> else mm_pages ?s q)\<rparr>
     = s\<lparr>mm_pages := (\<lambda>q. if p \<le> q \<and> q < p + Suc n
       then (mm_pages s q)\<lparr>pg_flags := PAGE_FLAG_USED\<rparr> else mm_pages s q)\<rparr>"
    by (auto simp: set_flags_def fun_eq_iff intro!: mm.equality)
  finally show ?case .
qed

lemma pieces_cover: "\<Union> (blk ` pieces b n) = {b..<b + n}"
proof (induction b n rule: pieces.induct)
  case (1 b n)
  show ?case
  proof (cases "n = 0")
    case False
    then have "2 ^ log2_nat n \<le> n" using log2_nat_bounds by simp
    then show ?thesis using 1 [OF False] False
      by (simp add: pieces.simps [of b n] blk_def ivl_disj_un)
  qed (simp add: pieces.simps [of b 0])
qed

lemma hold_to_used:
  assumes inv: "mm_inv s A P" and fl: "free_page_list s' = free_page_list s" and ord: "order_of s' = order_of s"
    and used: "\<And>p. p \<in> \<Union> (blk ` P) \<Longrightarrow> page_used s' p"
    and other: "\<And>p. p \<notin> \<Union> (blk ` P) \<Longrightarrow> flags_of s' p = flags_of s p"
  shows "mm_inv s' (A \<union> P) {}"
proof -
  have F: "free_blocks s' = free_blocks s" using fl by (simp add: free_blocks_def)
  have B: "free_blocks s' \<union> (A \<union> P) \<union> {} = free_blocks s \<union> A \<union> P" by (auto simp: F)
  have dis: "p \<notin> \<Union> (blk ` P)" if "x \<in> free_blocks s \<union> A" "p \<in> blk x" for x p
    using mm_invD(2) [OF inv, of x] used_not_free [OF inv] mm_invD(6) [OF inv] that by blast
  show ?thesis
  proof (rule mm_invI, goal_cases)
    case (1 x) then show ?case using mm_invD(1) [OF inv, of x] unfolding B ord by blast
  next
    case (2 x y) then show ?case using mm_invD(2) [OF inv, of x y] unfolding B by blast
  next
    case (3 x p) then show ?case using mm_invD(3) [OF inv, of x p] dis [of x p] other F by auto
  next
    case (4 x p)
    then show ?case using used [of p] mm_invD(4) [OF inv, of x p] dis [of x p] other [of p]
      by (cases "x \<in> P") (auto simp: page_used_def)
  next
    case (5 p)
    have "p \<notin> \<Union> (blk ` P)" using used [of p] 5(2) by (auto simp: page_used_def is_free_def)
    then show ?case using mm_invD(5) [OF inv 5(1)] 5(2) other F by (auto simp: is_free_def)
  next
    case 8 then show ?case using mm_invD(8) [OF inv] unfolding coalesced_def F by simp
  next
    case (9 p)
    then show ?case using mm_invD(9) [OF inv 9(1)] other [of p] fun_cong [OF ord, of p] unfolding B by auto
  qed (use mm_invD(7) [OF inv] fl in auto)
qed

section \<open>Allocation\<close>

lemma alloc_block_ok:
  assumes inv: "mm_inv s A {}" and x: "(b, k) \<in> free_blocks s" and n: "0 < n" "n \<le> 2 ^ k"
  defines "s1 \<equiv> s\<lparr>free_page_list := (free_page_list s)(k := remove1 b (free_page_list s k))\<rparr>"
  shows "\<exists>s2 s3. trim_block b n s1 = Some s2 \<and> mark_used s2 b n = Some s3
     \<and> mm_inv s3 (A \<union> pieces b n) {} \<and> same_meta s2 s
     \<and> s3 = s2\<lparr>mm_pages := (\<lambda>q. if b \<le> q \<and> q < b + n
         then (mm_pages s2 q)\<lparr>pg_flags := PAGE_FLAG_USED\<rparr> else mm_pages s2 q)\<rparr>"
proof -
  note t = take_block [OF inv x, folded s1_def]
  have z: "flags_of s b = 0" using mm_invD(3) [OF inv, of "(b, k)" b] x by (simp add: blk_def)
  then have fr: "is_free s1 b" by (simp add: is_free_zero s1_def)
  obtain s2 where s2: "trim_loop s1 b n = Some s2" "mm_inv s2 A (pieces b n)" "same_meta s2 s1"
    using trim_loop_ok [OF t(1) t(3) n] by (auto simp only: Un_empty_right)
  have m: "same_meta s2 s" using s2(3) by (rule same_meta_trans) (simp add: s1_def)
  have f0: "flags_of s2 q = 0" if "b \<le> q" "q < b + n" for q
  proof -
    have "q \<in> \<Union> (blk ` pieces b n)" unfolding pieces_cover using that by simp
    then obtain x where "x \<in> pieces b n" "q \<in> blk x" by blast
    then show ?thesis using mm_invD(3) [OF s2(2), of x q] by simp
  qed
  let ?s3 = "s2\<lparr>mm_pages := (\<lambda>q. if b \<le> q \<and> q < b + n
         then (mm_pages s2 q)\<lparr>pg_flags := PAGE_FLAG_USED\<rparr> else mm_pages s2 q)\<rparr>"
  have "mm_inv ?s3 (A \<union> pieces b n) {}"
  proof (rule hold_to_used [OF s2(2)], unfold pieces_cover)
    show "page_used ?s3 p" if "p \<in> {b..<b + n}" for p
      using that by (simp add: page_used_def PAGE_FLAG_USED_def PAGE_FLAG_PERM_def)
  qed auto
  moreover have "trim_block b n s1 = Some s2" using s2(1) fr n(1) by (simp add: trim_block_def)
  moreover have "mark_used s2 b n = Some ?s3" by (rule mark_used_ok) (rule f0)
  ultimately show ?thesis using m by blast
qed

lemma mm_inv_counters:
  "mm_inv (s\<lparr>pages_in_use := v\<rparr>) A P = mm_inv s A P" "mm_inv (s\<lparr>pages_avaliable := v\<rparr>) A P = mm_inv s A P"
  by (simp_all add: mm_inv_def free_blocks_def coalesced_def is_free_def page_used_def Let_def)

text \<open>
  What an allocation of \<open>n\<close> pages does: the pages \<open>b\<close> to \<open>b + n - 1\<close> were free and are now used,
  the address, flags and compound count of every other page and the number of available
  pages are unchanged.
\<close>

definition alloc_effect :: "mm \<Rightarrow> mm \<Rightarrow> nat \<Rightarrow> nat \<Rightarrow> bool" where
  "alloc_effect s s' b n =
     ((\<forall>p. flags_of s' p = (if b \<le> p \<and> p < b + n then PAGE_FLAG_USED else flags_of s p)
        \<and> pg_addr (mm_pages s' p) = pg_addr (mm_pages s p)
        \<and> pg_compound_num (mm_pages s' p) = pg_compound_num (mm_pages s p))
      \<and> pages_in_use s' = pages_in_use s + of_nat n \<and> pages_avaliable s' = pages_avaliable s
      \<and> (\<forall>p. b \<le> p \<longrightarrow> p < b + n \<longrightarrow> is_free s p \<and> p < NUM_PAGES))"

lemma blk_in_range: "wf_blk ord x \<Longrightarrow> p \<in> blk x \<Longrightarrow> p < NUM_PAGES"
  using aligned_less [of "2 ^ snd x" "fst x" NUM_PAGES] pow2_dvd_NUM_PAGES [of "snd x"]
  by (auto simp: wf_blk_def blk_def)

lemma alloc_scan_ok:
  "mm_inv s A {} \<Longrightarrow> 0 < n \<Longrightarrow> n \<le> 2 ^ ord \<Longrightarrow> \<exists>k\<ge>ord. free_page_list s k \<noteq> [] \<Longrightarrow>
     \<exists>s' b. alloc_scan s n ord = Some (s', b) \<and> mm_inv s' (A \<union> pieces b n) {} \<and> alloc_effect s s' b n"
proof (induction s n ord rule: alloc_scan.induct)
  case (1 s n ord)
  have le: "k \<le> MAX_ORDER" if "free_page_list s k \<noteq> []" for k
    using mm_invD(1) [OF 1(2), of "(hd (free_page_list s k), k)"] that
    by (auto simp: free_blocks_def wf_blk_def)
  then have m: "\<not> MAX_ORDER < ord" using 1(5) by (meson dual_order.strict_trans1 not_le)
  show ?case
  proof (cases "free_page_list s ord")
    case Nil
    then have "\<exists>k\<ge>ord + 1. free_page_list s k \<noteq> []" using 1(5) by (metis Suc_eq_plus1 le_antisym not_less_eq_eq)
    moreover have "n \<le> 2 ^ (ord + 1)" using 1(4) by simp
    ultimately show ?thesis using 1(1) [OF m Nil 1(2,3)] Nil m by (simp add: alloc_scan.simps [of s n ord])
  next
    case (Cons b bs)
    then have x: "(b, ord) \<in> free_blocks s" by (simp add: free_blocks_def)
    have wf: "wf_blk (order_of s) (b, ord)" using mm_invD(1) [OF 1(2), of "(b, ord)"] x by simp
    let ?s1 = "s\<lparr>free_page_list := (free_page_list s)(ord := remove1 b (free_page_list s ord))\<rparr>"
    obtain s2 s3 where r: "trim_block b n ?s1 = Some s2" "mark_used s2 b n = Some s3"
      "mm_inv s3 (A \<union> pieces b n) {}" "same_meta s2 s"
      "s3 = s2\<lparr>mm_pages := (\<lambda>q. if b \<le> q \<and> q < b + n
         then (mm_pages s2 q)\<lparr>pg_flags := PAGE_FLAG_USED\<rparr> else mm_pages s2 q)\<rparr>"
      using alloc_block_ok [OF 1(2) x 1(3,4)] by blast
    have "is_free s p \<and> p < NUM_PAGES" if "b \<le> p" "p < b + n" for p
      using mm_invD(3) [OF 1(2), of "(b, ord)" p] blk_in_range [OF wf, of p] x that 1(4)
      by (auto simp: blk_def intro!: is_free_zero)
    then have "alloc_effect s (s3\<lparr>pages_in_use := pages_in_use s3 + of_nat n\<rparr>) b n"
      using r(4,5) by (auto simp: alloc_effect_def same_meta_def)
    moreover have "flags_of s b = 0" using mm_invD(3) [OF 1(2), of "(b, ord)" b] x by (simp add: blk_def)
    ultimately show ?thesis using r(1-3) m Cons
      by (auto simp: alloc_scan.simps [of s n ord] mm_inv_counters)
  qed
qed

lemma alloc_scan_oom:
  "(\<And>k. ord \<le> k \<Longrightarrow> free_page_list s k = []) \<Longrightarrow> alloc_scan s n ord = None"
proof (induction s n ord rule: alloc_scan.induct)
  case (1 s n ord)
  have n: "free_page_list s ord = []" using 1(2) by simp
  show ?case
  proof (cases "MAX_ORDER < ord")
    case False
    have "alloc_scan s n (ord + 1) = None" by (rule 1(1) [OF False n]) (use 1(2) in simp)
    then show ?thesis using n by (simp add: alloc_scan.simps [of s n ord])
  qed (simp add: alloc_scan.simps [of s n ord])
qed

lemma alloc_target:
  assumes "0 < n"
  shows "n \<le> 2 ^ alloc_target_order n" and "\<And>k. n \<le> 2 ^ k \<Longrightarrow> alloc_target_order n \<le> k"
proof -
  let ?t = "log2_nat n"
  note b = log2_nat_bounds [OF assms]
  have x: "n XOR 2 ^ ?t = n - 2 ^ ?t" using b by (intro xor_top_bit) auto
  show "n \<le> 2 ^ alloc_target_order n" using b x by (auto simp: alloc_target_order_def Let_def)
  fix k assume k: "n \<le> 2 ^ k"
  then have "2 ^ ?t \<le> (2::nat) ^ k" using b by linarith
  then have "?t \<le> k" by simp
  moreover have "?t < k" if "n \<noteq> 2 ^ ?t" using that k b \<open>?t \<le> k\<close> by (cases "?t = k") auto
  ultimately show "alloc_target_order n \<le> k" using x b by (auto simp: alloc_target_order_def Let_def)
qed

section \<open>Freeing\<close>

lemma clear_flags_ok:
  "(\<And>q. p \<le> q \<Longrightarrow> q < p + n \<Longrightarrow> page_used s q) \<Longrightarrow>
   clear_flags s p n = Some (s\<lparr>mm_pages := (\<lambda>q. if p \<le> q \<and> q < p + n
       then (mm_pages s q)\<lparr>pg_flags := 0\<rparr> else mm_pages s q)\<rparr>)"
proof (induction n arbitrary: s p)
  case 0
  have "(\<lambda>q. if p \<le> q \<and> q < p then (mm_pages s q)\<lparr>pg_flags := 0\<rparr> else mm_pages s q) = mm_pages s"
    by (rule ext) auto
  then show ?case by simp
next
  case (Suc n)
  let ?s = "set_flags p 0 s"
  have z: "page_used s p" by (rule Suc.prems) auto
  have "page_used ?s q" if "p + 1 \<le> q" "q < p + 1 + n" for q
    using Suc.prems [of q] that by (simp add: set_flags_def page_used_def)
  from Suc.IH [OF this] have "clear_flags s p (Suc n) = Some (?s\<lparr>mm_pages := (\<lambda>q. if p + 1 \<le> q \<and> q < p + 1 + n
       then (mm_pages ?s q)\<lparr>pg_flags := 0\<rparr> else mm_pages ?s q)\<rparr>)" using z by (simp add: page_used_def)
  also have "?s\<lparr>mm_pages := (\<lambda>q. if p + 1 \<le> q \<and> q < p + 1 + n
       then (mm_pages ?s q)\<lparr>pg_flags := 0\<rparr> else mm_pages ?s q)\<rparr>
     = s\<lparr>mm_pages := (\<lambda>q. if p \<le> q \<and> q < p + Suc n
       then (mm_pages s q)\<lparr>pg_flags := 0\<rparr> else mm_pages s q)\<rparr>"
    by (auto simp: set_flags_def fun_eq_iff intro!: mm.equality)
  finally show ?case .
qed

lemma used_to_hold:
  assumes inv: "mm_inv s A {}" and x: "x \<in> A"
    and fl: "free_page_list s' = free_page_list s" and ord: "order_of s' = order_of s"
    and zero: "\<And>p. p \<in> blk x \<Longrightarrow> flags_of s' p = 0"
    and other: "\<And>p. p \<notin> blk x \<Longrightarrow> flags_of s' p = flags_of s p"
  shows "mm_inv s' (A - {x}) {x}"
proof -
  have F: "free_blocks s' = free_blocks s" using fl by (simp add: free_blocks_def)
  have B: "free_blocks s' \<union> (A - {x}) \<union> {x} = free_blocks s \<union> A \<union> {}" using x by (auto simp: F)
  have nx: "x \<notin> free_blocks s" using used_not_free [OF inv] x by blast
  have dis: "p \<notin> blk x" if "y \<in> free_blocks s \<union> (A - {x})" "p \<in> blk y" for y p
    using mm_invD(2) [OF inv, of x y] that x nx by blast
  show ?thesis
  proof (rule mm_invI, goal_cases)
    case (1 y) then show ?case using mm_invD(1) [OF inv, of y] unfolding B ord by blast
  next
    case (2 y z) then show ?case using mm_invD(2) [OF inv, of y z] unfolding B by blast
  next
    case (3 y p) then show ?case using mm_invD(3) [OF inv, of y p] dis [of y p] zero other F by auto
  next
    case (4 y p) then show ?case using mm_invD(4) [OF inv, of y p] dis [of y p] other [of p] by (auto simp: page_used_def)
  next
    case (5 p)
    show ?case
    proof (cases "p \<in> blk x")
      case False
      then have "is_free s p" using 5(2) other by (simp add: is_free_def)
      then show ?thesis using mm_invD(5) [OF inv 5(1)] F by blast
    qed blast
  next
    case 6 then show ?case using nx F by simp
  next
    case 8 then show ?case using mm_invD(8) [OF inv] unfolding coalesced_def F by simp
  next
    case (9 p)
    then show ?case using mm_invD(9) [OF inv 9(1)] other [of p] fun_cong [OF ord, of p] x unfolding B by auto
  qed (use mm_invD(7) [OF inv] fl in auto)
qed

lemma get_buddy_eq: "order_of s i = k \<Longrightarrow> get_buddy s i = buddy_of (i, k)"
  by (simp add: get_buddy_def buddy_of_def is_master_def get_order_idx_def)

lemma buddy_in_range:
  assumes "2 ^ k dvd i" and "i < NUM_PAGES" and "k < MAX_ORDER"
  shows "buddy_of (i, k) < NUM_PAGES"
  using assms(1)
proof (cases rule: buddy_cases)
  case master
  have "i + 2 ^ Suc k \<le> NUM_PAGES"
    using assms master(2) by (intro aligned_less pow2_dvd_NUM_PAGES) auto
  then have "i + 2 ^ k < NUM_PAGES" by (rule less_le_trans [rotated]) simp
  then show ?thesis using master(1) by simp
next
  case slave
  then have "buddy_of (i, k) \<le> i" by linarith
  then show ?thesis using assms(2) by linarith
qed

text \<open>The key step of coalescing: a free buddy of the same order heads a free block.\<close>

lemma free_buddy_listed:
  assumes inv: "mm_inv s A {(i, k)}" and "k < MAX_ORDER"
    and fr: "is_free s (buddy_of (i, k))" and ord: "order_of s (buddy_of (i, k)) = k"
  shows "(buddy_of (i, k), k) \<in> free_blocks s"
proof -
  let ?b = "buddy_of (i, k)"
  have wf: "2 ^ k dvd i" "i < NUM_PAGES" using mm_invD(1) [OF inv, of "(i, k)"] by (auto simp: wf_blk_def)
  have "?b < NUM_PAGES" using buddy_in_range wf assms(2) by blast
  then obtain x where x: "x \<in> free_blocks s \<union> {(i, k)}" "?b \<in> blk x" using mm_invD(5) [OF inv] fr by blast
  have "?b \<notin> blk (i, k)" using wf(1)
  proof (cases rule: buddy_cases)
    case master then show ?thesis by (simp add: blk_def)
  next
    case slave then have "?b < i" using zero_less_power [of "2::nat" k] by linarith
    then show ?thesis by (simp add: blk_def)
  qed
  then have xF: "x \<in> free_blocks s" "x \<noteq> (i, k)" using x by auto
  then have wx: "2 ^ snd x dvd fst x" "order_of s (fst x) = snd x"
    using mm_invD(1) [OF inv, of x] by (auto simp: wf_blk_def)
  have bx: "?b div 2 ^ snd x = fst x div 2 ^ snd x" using in_blk_iff [of "snd x" "fst x" ?b] wx x(2) by simp
  have "snd x \<le> k"
  proof (rule ccontr)
    assume "\<not> snd x \<le> k"
    then have "i div 2 ^ snd x = ?b div 2 ^ snd x"
      using buddy_same_superblock [OF wf(1)] superblock_div [of k _ i ?b "snd x"] by (metis not_le)
    then have "i \<in> blk x" using in_blk_iff [of "snd x" "fst x" i] wx bx by simp
    then show False using mm_invD(2) [OF inv, of x "(i, k)"] xF blk_nonempty [of "(i, k)"] by auto
  qed
  then have "2 ^ snd x dvd ?b" using buddy_buddy(2) [OF wf(1)] dvd_pow2_le by blast
  then have "?b = fst x" using bx wx(1) by (metis dvd_mult_div_cancel)
  then have "x = (?b, k)" using ord wx(2) by (cases x) simp
  then show ?thesis using xF by simp
qed

lemma join_step:
  assumes inv: "mm_inv s A {(i, k), (buddy_of (i, k), k)}" and k: "k < MAX_ORDER"
  shows "\<exists>s' m. join_block i s = Some (s', m) \<and> mm_inv s' A {(m, Suc k)} \<and> same_meta s' s
    \<and> free_page_list s' = free_page_list s \<and> is_free s' m \<and> blk (i, k) \<subseteq> blk (m, Suc k)"
proof -
  define b where "b = buddy_of (i, k)"
  note inv = inv [folded b_def]
  have wi: "wf_blk (order_of s) (i, k)" "wf_blk (order_of s) (b, k)"
    using mm_invD(1) [OF inv] by auto
  then have o: "order_of s i = k" "order_of s b = k" "2 ^ k dvd i" by (auto simp: wf_blk_def)
  have gb: "get_buddy s i = b" "get_buddy s b = i"
    using get_buddy_eq o(1,2) buddy_buddy(1) [OF o(3), folded b_def] by (auto simp: b_def)
  define m where "m = get_master s i"
  have m: "m = i \<and> b = i + 2 ^ k \<and> 2 ^ Suc k dvd i \<or> m = b \<and> i = b + 2 ^ k \<and> 2 ^ Suc k dvd b"
    using o(3)
  proof (cases rule: buddy_cases)
    case master
    then show ?thesis unfolding b_def [symmetric]
      by (simp add: m_def get_master_def is_master_def get_order_idx_def o(1))
  next
    case slave
    note sl = slave [folded b_def]
    have "\<not> is_master s i" using sl(3) by (simp add: is_master_def get_order_idx_def o(1))
    then have "m = b" using gb by (simp add: m_def get_master_def)
    then show ?thesis using sl by blast
  qed
  then have pair: "{(i, k), (b, k)} = {(m, k), (m + 2 ^ k, k)}" "2 ^ Suc k dvd m" by auto
  have om: "order_of s m = k" "order_of s (get_buddy s m) = k" using m o gb by auto
  let ?s = "set_order m (Suc k) s"
  have f: "flags_of ?s p = flags_of s p" for p by (simp add: set_order_def)
  have fr: "is_free s m" "is_free s (get_buddy s m)"
    using mm_invD(3) [OF inv, of "(i, k)" i] mm_invD(3) [OF inv, of "(b, k)" b] m gb
    by (auto simp: is_free_zero blk_def)
  have w2: "wf_blk (order_of s) (m, k)" "wf_blk (order_of s) (m + 2 ^ k, k)" using mm_invD(1) [OF inv] pair(1) by auto
  have os: "order_of ?s = (order_of s)(m := Suc k)" by (auto simp: order_set_order)
  have "mm_inv ?s A ({} \<union> {(m, Suc k)})"
  proof (rule mm_inv_replace)
    show "mm_inv s A ({} \<union> {(m, k), (m + 2 ^ k, k)})" using inv pair(1) by simp
    show "wf_blk (order_of ?s) x" if "x \<in> {(m, Suc k)}" for x
      using wf_join [OF w2 pair(2) k] that os by simp
    show "order_of ?s p = order_of s p" if "p \<notin> \<Union> (blk ` {(m, k), (m + 2 ^ k, k)})" for p
      using that by (auto simp: order_set_order blk_def)
  qed (use blk_split [of m k] f in auto)
  moreover have "join_block i s = Some (?s, m)"
    using om fr k by (simp add: join_block_def Let_def m_def [symmetric])
  moreover have "blk (i, k) \<subseteq> blk (m, Suc k)" using m by (auto simp: blk_def)
  moreover have "is_free ?s m" using fr(1) f by (simp add: is_free_def)
  ultimately show ?thesis by (auto simp del: Un_insert_left)
qed

lemma ripple_loop_ok:
  "mm_inv s A {(i, k)} \<Longrightarrow>
     \<exists>s' b j. ripple_loop s i = Some (s', b) \<and> mm_inv s' A {(b, j)} \<and> same_meta s' s
       \<and> (j < MAX_ORDER \<longrightarrow> (buddy_of (b, j), j) \<notin> free_blocks s')"
proof (induction "MAX_ORDER - k" arbitrary: s i k rule: less_induct)
  case less
  note inv = less.prems
  let ?b = "buddy_of (i, k)"
  have o: "order_of s i = k" using mm_invD(1) [OF inv, of "(i, k)"] by (auto simp: wf_blk_def)
  have gb: "get_buddy s i = ?b" using get_buddy_eq o by blast
  show ?case
  proof (cases "is_free s ?b \<and> order_of s ?b = k \<and> k < MAX_ORDER")
    case False
    have "(?b, k) \<notin> free_blocks s" if "k < MAX_ORDER"
    proof
      assume f: "(?b, k) \<in> free_blocks s"
      then have "order_of s ?b = k" using mm_invD(1) [OF inv, of "(?b, k)"] by (auto simp: wf_blk_def)
      moreover have "is_free s ?b" using mm_invD(3) [OF inv, of "(?b, k)" ?b] f by (simp add: is_free_zero blk_def)
      ultimately show False using False that by blast
    qed
    moreover have "ripple_loop s i = Some (s, i)" using False o gb by (auto simp: ripple_loop.simps [of s i] Let_def)
    ultimately show ?thesis using inv same_meta_refl by blast
  next
    case True
    then have bF: "(?b, k) \<in> free_blocks s" using free_buddy_listed [OF inv] by blast
    let ?s1 = "s\<lparr>free_page_list := (free_page_list s)(k := remove1 ?b (free_page_list s k))\<rparr>"
    have rm: "freelist_rm ?b s = Some ?s1" using True bF by (simp add: freelist_rm_def free_blocks_def)
    have "mm_inv ?s1 A {(i, k), (?b, k)}" using take_block(1) [OF inv bF] by (simp add: insert_commute)
    from join_step [OF this] True obtain s2 m where s2: "join_block i ?s1 = Some (s2, m)" "mm_inv s2 A {(m, Suc k)}"
      "same_meta s2 ?s1" "is_free s2 m" by blast
    have "MAX_ORDER - Suc k < MAX_ORDER - k" using diff_less_mono2 [OF lessI, of k MAX_ORDER] True by blast
    from less.hyps [OF this s2(2)] obtain s' b j where r: "ripple_loop s2 m = Some (s', b)" "mm_inv s' A {(b, j)}"
      "same_meta s' s2" "j < MAX_ORDER \<longrightarrow> (buddy_of (b, j), j) \<notin> free_blocks s'" by blast
    have "ripple_loop s i = Some (s', b)"
      using True o gb rm s2(1,4) r(1) by (simp add: ripple_loop.simps [of s i] Let_def)
    moreover have "same_meta s' s" using r(3) s2(3) same_meta_fl same_meta_trans by blast
    ultimately show ?thesis using r(2,4) by blast
  qed
qed

lemma ripple_join_ok:
  assumes inv: "mm_inv s A {(i, k)}"
  shows "\<exists>s'. ripple_join i s = Some s' \<and> mm_inv s' A {} \<and> same_meta s' s"
proof -
  have fr: "is_free s i" using mm_invD(3) [OF inv, of "(i, k)" i] by (simp add: is_free_zero blk_def)
  obtain s1 b j where r: "ripple_loop s i = Some (s1, b)" "mm_inv s1 A {(b, j)}" "same_meta s1 s"
    "j < MAX_ORDER \<longrightarrow> (buddy_of (b, j), j) \<notin> free_blocks s1" using ripple_loop_ok [OF inv] by blast
  obtain s2 where "add_to_freelists b s1 = Some s2" "mm_inv s2 A {}" "same_meta s2 s1"
    using release_block [OF r(2)] r(4) by auto
  then show ?thesis using fr r by (auto simp: ripple_join_def intro: same_meta_trans)
qed

text \<open>
  What freeing the pages \<open>b\<close> to \<open>b + n - 1\<close> does besides the orders and the free lists.
\<close>

definition free_effect :: "mm \<Rightarrow> mm \<Rightarrow> nat \<Rightarrow> nat \<Rightarrow> bool" where
  "free_effect s s' b n =
     ((\<forall>p. flags_of s' p = (if b \<le> p \<and> p < b + n then 0 else flags_of s p)
        \<and> pg_addr (mm_pages s' p) = pg_addr (mm_pages s p)
        \<and> pg_compound_num (mm_pages s' p) = pg_compound_num (mm_pages s p))
      \<and> pages_in_use s' = pages_in_use s - of_nat n \<and> pages_avaliable s' = pages_avaliable s)"

lemma free_page_ok:
  assumes inv: "mm_inv s A {}" and x: "(i, k) \<in> A"
  shows "\<exists>s'. free_page i s = Some s' \<and> mm_inv s' (A - {(i, k)}) {} \<and> free_effect s s' i (2 ^ k)"
proof -
  have o: "order_of s i = k" using mm_invD(1) [OF inv, of "(i, k)"] x by (auto simp: wf_blk_def)
  define s1 where "s1 = s\<lparr>pages_in_use := pages_in_use s - of_nat (2 ^ k)\<rparr>"
  have inv1: "mm_inv s1 A {}" using inv by (simp add: s1_def mm_inv_counters)
  define s2 where "s2 = s1\<lparr>mm_pages := (\<lambda>q. if i \<le> q \<and> q < i + 2 ^ k
       then (mm_pages s1 q)\<lparr>pg_flags := 0\<rparr> else mm_pages s1 q)\<rparr>"
  have c: "clear_flags s1 i (2 ^ k) = Some s2" unfolding s2_def
    by (rule clear_flags_ok) (rule mm_invD(4) [OF inv1 x], simp add: blk_def)
  have "mm_inv s2 (A - {(i, k)}) {(i, k)}"
    by (rule used_to_hold [OF inv1 x]) (auto simp: s2_def blk_def)
  from ripple_join_ok [OF this] obtain s3 where s3: "ripple_join i s2 = Some s3"
    "mm_inv s3 (A - {(i, k)}) {}" "same_meta s3 s2" by blast
  have "free_effect s s3 i (2 ^ k)" using s3(3) by (auto simp: free_effect_def same_meta_def s2_def s1_def)
  then show ?thesis using s3 c o by (auto simp: free_page_def Let_def s1_def)
qed

lemma free_effect_trans:
  "free_effect s s1 b m \<Longrightarrow> free_effect s1 s2 (b + m) n \<Longrightarrow> free_effect s s2 b (m + n)"
  by (auto simp: free_effect_def)

lemma free_pages_loop_ok:
  "mm_inv s A {} \<Longrightarrow> pieces b n \<subseteq> A \<Longrightarrow>
     \<exists>s'. free_pages_loop s b n = Some s' \<and> mm_inv s' (A - pieces b n) {} \<and> free_effect s s' b n"
proof (induction b n arbitrary: s A rule: pieces.induct)
  case (1 b n)
  show ?case
  proof (cases "n = 0")
    case True
    then have "free_pages_loop s b n = Some s" "pieces b n = {}"
      by (simp_all add: free_pages_loop.simps [of s b 0] pieces.simps [of b 0])
    moreover have "free_effect s s b n" unfolding free_effect_def True by auto
    ultimately show ?thesis using 1(2) by simp
  next
    case False
    let ?k = "log2_nat n" and ?n' = "n - 2 ^ log2_nat n"
    have lb: "2 ^ ?k \<le> n" "n < 2 ^ Suc ?k" using log2_nat_bounds False by auto
    have p: "pieces b n = insert (b, ?k) (pieces (b + 2 ^ ?k) ?n')" using False by (simp add: pieces.simps [of b n])
    obtain s1 where s1: "free_page b s = Some s1" "mm_inv s1 (A - {(b, ?k)}) {}" "free_effect s s1 b (2 ^ ?k)"
      using free_page_ok [OF 1(2), of b ?k] 1(3) p by auto
    have nb: "(b, ?k) \<notin> pieces (b + 2 ^ ?k) ?n'"
    proof
      assume "(b, ?k) \<in> pieces (b + 2 ^ ?k) ?n'"
      then have "b \<in> \<Union> (blk ` pieces (b + 2 ^ ?k) ?n')" using blk_nonempty [of "(b, ?k)"] by fastforce
      then show False unfolding pieces_cover by simp
    qed
    then have "pieces (b + 2 ^ ?k) ?n' \<subseteq> A - {(b, ?k)}" using 1(3) p by blast
    from 1(1) [OF False s1(2) this] obtain s2 where s2: "free_pages_loop s1 (b + 2 ^ ?k) ?n' = Some s2"
      "mm_inv s2 (A - {(b, ?k)} - pieces (b + 2 ^ ?k) ?n') {}" "free_effect s1 s2 (b + 2 ^ ?k) ?n'" by blast
    have "order_of s b = ?k" using mm_invD(1) [OF 1(2), of "(b, ?k)"] 1(3) p by (auto simp: wf_blk_def)
    moreover have "?k < n" using lb(1) less_exp [of ?k] by linarith
    ultimately have "free_pages_loop s b n = Some s2"
      using s1(1) s2(1) False lb by (simp add: free_pages_loop.simps [of s b n] xor_top_bit)
    moreover have "A - {(b, ?k)} - pieces (b + 2 ^ ?k) ?n' = A - pieces b n" using p by blast
    moreover have "free_effect s s2 b n" using free_effect_trans [OF s1(3) s2(3)] lb(1) by simp
    ultimately show ?thesis using s2(2) by auto
  qed
qed

lemma mm_inv_cong:
  assumes "free_page_list s' = free_page_list s" and "\<And>p. order_of s' p = order_of s p"
    and "\<And>p. flags_of s' p = flags_of s p"
  shows "mm_inv s' A P = mm_inv s A P"
proof -
  have "free_blocks s' = free_blocks s" "is_free s' = is_free s" "page_used s' = page_used s"
    using assms by (auto simp: free_blocks_def is_free_def page_used_def fun_eq_iff)
  then show ?thesis by (simp add: mm_inv_def coalesced_def assms)
qed

lemma mm_inv_compound: "mm_inv (set_compound i v s) A P = mm_inv s A P"
  by (rule mm_inv_cong) (simp_all add: set_compound_def)

lemma free_pages_ok:
  assumes "mm_inv s A {}" and "pieces b n \<subseteq> A"
  shows "\<exists>s'. free_pages b n s = Some s' \<and> mm_inv s' (A - pieces b n) {}
    \<and> free_effect (set_compound b 0 s) s' b n"
  using free_pages_loop_ok [of "set_compound b 0 s" A b n] assms by (simp add: free_pages_def mm_inv_compound)

lemma claim_page_ok:
  assumes inv: "mm_inv s A {}" and i: "i < NUM_PAGES" and new: "i \<notin> \<Union> (blk ` (free_blocks s \<union> A))"
  shows "\<exists>s'. claim_page i s = Some s' \<and> mm_inv s' A {} \<and> is_free s' i
    \<and> (\<forall>p. p \<noteq> i \<longrightarrow> flags_of s' p = flags_of s p) \<and> pages_avaliable s' = pages_avaliable s + 1"
proof -
  have ord: "order_of s i = 0" and used: "flags_of s i AND PAGE_FLAG_USED \<noteq> 0"
    using mm_invD(9) [OF inv i] new by auto
  let ?s = "set_flags i (flags_of s i AND NOT PAGE_FLAG_PERM) s"
  have F: "free_blocks ?s = free_blocks s" by (simp add: free_blocks_def set_flags_def)
  have fl: "flags_of ?s p = (if p = i then flags_of s i AND NOT PAGE_FLAG_PERM else flags_of s p)" for p
    by (simp add: set_flags_def)
  have os: "order_of ?s p = order_of s p" for p by (simp add: set_flags_def)
  have bi: "blk (i, 0) = {i}" by (auto simp: blk_def)
  have u: "(flags_of s i AND NOT PAGE_FLAG_PERM) AND PAGE_FLAG_USED \<noteq> 0"
  proof -
    have "NOT PAGE_FLAG_PERM AND PAGE_FLAG_USED = PAGE_FLAG_USED"
      by (simp add: PAGE_FLAG_USED_def PAGE_FLAG_PERM_def)
    then show ?thesis using used by (simp only: and.assoc not_False_eq_True)
  qed
  have nF: "i \<notin> blk x" if "x \<in> free_blocks s" for x
    using mm_invD(3) [OF inv, of x i] that used by auto
  have "mm_inv ?s (insert (i, 0) A) {}"
  proof (rule mm_invI, goal_cases)
    case (1 x)
    then show ?case using mm_invD(1) [OF inv, of x] i ord unfolding F os
      by (auto simp: wf_blk_def)
  next
    case (2 x y)
    then show ?case using mm_invD(2) [OF inv, of x y] nF [of x] nF [of y] new bi unfolding F by auto
  next
    case (3 x p)
    then show ?case using mm_invD(3) [OF inv, of x p] nF [of x] unfolding F fl by auto
  next
    case (4 x p)
    then show ?case using mm_invD(4) [OF inv, of x p] u new bi fl
      by (auto simp: page_used_def PAGE_FLAG_PERM_def and.assoc)
  next
    case (5 p)
    then have "p \<noteq> i" using u fl by (auto simp: is_free_def)
    then show ?case using mm_invD(5) [OF inv 5(1)] 5(2) fl unfolding F by (simp add: is_free_def)
  next
    case 7 then show ?case using mm_invD(7) [OF inv] by (simp add: set_flags_def)
  next
    case 8 then show ?case using mm_invD(8) [OF inv] unfolding coalesced_def F .
  next
    case (9 p)
    then have "p \<noteq> i" using bi by auto
    then show ?case using mm_invD(9) [OF inv 9(1)] 9(2) fl os F by auto
  qed simp
  from free_page_ok [OF this, of i 0] obtain s' where s': "free_page i ?s = Some s'"
    "mm_inv s' (insert (i, 0) A - {(i, 0)}) {}" "free_effect ?s s' i 1" by auto
  have "(i, 0) \<notin> A" using new bi by auto
  then have "mm_inv s' A {}" using s'(2) by simp
  moreover have "flags_of s' i = 0" "\<forall>p. p \<noteq> i \<longrightarrow> flags_of s' p = flags_of s p"
    "pages_avaliable s' = pages_avaliable s"
    using s'(3) fl by (auto simp: free_effect_def set_flags_def)
  ultimately show ?thesis using s'(1) by (simp add: claim_page_def mm_inv_counters is_free_def)
qed

lemma do_alloc_pages_ok:
  assumes "mm_inv s A {}" and "0 < n" and "\<exists>k. n \<le> 2 ^ k \<and> free_page_list s k \<noteq> []"
  shows "\<exists>s' b. do_alloc_pages n s = Some (s', b) \<and> mm_inv s' (A \<union> pieces b n) {} \<and> alloc_effect s s' b n"
  using alloc_scan_ok [OF assms(1,2) alloc_target(1) [OF assms(2)]] assms(2,3) alloc_target(2) [OF assms(2)]
  by (auto simp: do_alloc_pages_def)

lemma do_alloc_pages_oom:
  assumes "0 < n" and "\<And>k. n \<le> 2 ^ k \<Longrightarrow> free_page_list s k = []"
  shows "do_alloc_pages n s = None"
proof -
  have "free_page_list s k = []" if "alloc_target_order n \<le> k" for k
  proof (rule assms(2))
    have "(2::nat) ^ alloc_target_order n \<le> 2 ^ k" using that by simp
    then show "n \<le> 2 ^ k" using alloc_target(1) [OF assms(1)] by linarith
  qed
  then show ?thesis by (simp add: do_alloc_pages_def alloc_scan_oom)
qed

section \<open>The allocator as its clients see it\<close>

text \<open>
  Clients hold runs \<open>(b, n)\<close> of pages. The contract: an allocation hands out a run disjoint from
  all live ones or does not return, and a live run can always be freed.
\<close>

definition run_pages :: "nat \<times> nat \<Rightarrow> nat set" where
  "run_pages x = {fst x ..< fst x + snd x}"

definition runs_disjoint :: "(nat \<times> nat) set \<Rightarrow> bool" where
  "runs_disjoint R = (\<forall>x\<in>R. \<forall>y\<in>R. x \<noteq> y \<longrightarrow> run_pages x \<inter> run_pages y = {})"

locale page_allocator =
  fixes inv :: "'s \<Rightarrow> (nat \<times> nat) set \<Rightarrow> bool"
    and alloc :: "nat \<Rightarrow> 's \<Rightarrow> ('s \<times> nat) option"
    and free :: "nat \<Rightarrow> nat \<Rightarrow> 's \<Rightarrow> 's option"
  assumes disjoint: "inv s R \<Longrightarrow> runs_disjoint R"
    and alloc_ok: "inv s R \<Longrightarrow> alloc n s = Some (s', b) \<Longrightarrow> inv s' (insert (b, n) R) \<and> (b, n) \<notin> R"
    and free_ok: "inv s R \<Longrightarrow> (b, n) \<in> R \<Longrightarrow> \<exists>s'. free b n s = Some s' \<and> inv s' (R - {(b, n)})"

text \<open>A client that allocates and frees in any order; it frees the \<open>i\<close>-th of its live runs.\<close>

datatype page_op = Alloc nat | Free nat

fun page_trace :: "(nat \<Rightarrow> 's \<Rightarrow> ('s \<times> nat) option) \<Rightarrow> (nat \<Rightarrow> nat \<Rightarrow> 's \<Rightarrow> 's option)
    \<Rightarrow> page_op list \<Rightarrow> 's \<Rightarrow> (nat \<times> nat) list \<Rightarrow> (page_op list \<times> 's \<times> (nat \<times> nat) list)" where
  "page_trace alloc free [] s live = ([], s, live)"
| "page_trace alloc free (Alloc n # ops) s live =
     (case alloc n s of None \<Rightarrow> (Alloc n # ops, s, live)
      | Some (s', b) \<Rightarrow> page_trace alloc free ops s' ((b, n) # live))"
| "page_trace alloc free (Free i # ops) s live =
     (if i < length live
      then case free (fst (live ! i)) (snd (live ! i)) s of None \<Rightarrow> (Free i # ops, s, live)
        | Some s' \<Rightarrow> page_trace alloc free ops s' (take i live @ drop (Suc i) live)
      else page_trace alloc free ops s live)"

context page_allocator
begin

lemma trace_stops_only_at_alloc:
  "inv s (set live) \<Longrightarrow> distinct live \<Longrightarrow> page_trace alloc free ops s live = (rest, s', live') \<Longrightarrow>
     inv s' (set live') \<and> distinct live' \<and> (rest = [] \<or> (\<exists>n ops'. rest = Alloc n # ops' \<and> alloc n s' = None))"
proof (induction ops arbitrary: s live)
  case (Cons x ops)
  show ?case
  proof (cases x)
    case (Alloc n)
    show ?thesis
    proof (cases "alloc n s")
      case None then show ?thesis using Cons.prems Alloc by auto
    next
      case (Some r)
      then obtain s1 b where r: "alloc n s = Some (s1, b)" by (cases r) auto
      then show ?thesis using Cons.IH [of s1 "(b, n) # live"] alloc_ok [OF Cons.prems(1) r] Cons.prems Alloc by auto
    qed
  next
    case (Free i)
    show ?thesis
    proof (cases "i < length live")
      case True
      let ?l = "take i live @ drop (Suc i) live"
      have "(fst (live ! i), snd (live ! i)) \<in> set live" using True by simp
      from free_ok [OF Cons.prems(1) this] obtain s1 where
        s1: "free (fst (live ! i)) (snd (live ! i)) s = Some s1" "inv s1 (set live - {live ! i})" by auto
      have l: "live = take i live @ live ! i # drop (Suc i) live" using True by (rule id_take_nth_drop)
      then have d: "distinct (take i live @ live ! i # drop (Suc i) live)" using Cons.prems(2) by simp
      have "set live = set (take i live @ live ! i # drop (Suc i) live)" using l by simp
      then have "set ?l = set live - {live ! i}" using d by auto
      then show ?thesis using Cons.IH [of s1 ?l] s1 d Cons.prems(3) True Free by simp
    qed (use Cons Free in simp)
  qed
qed simp

end

definition runs_inv :: "mm \<Rightarrow> (nat \<times> nat) set \<Rightarrow> bool" where
  "runs_inv s R = (mm_inv s (\<Union>(b, n)\<in>R. pieces b n) {} \<and> (\<forall>x\<in>R. 0 < snd x) \<and> runs_disjoint R)"

lemma runs_disjoint_insert:
  "runs_disjoint R \<Longrightarrow> (\<And>y. y \<in> R \<Longrightarrow> run_pages x \<inter> run_pages y = {}) \<Longrightarrow> runs_disjoint (insert x R)"
  unfolding runs_disjoint_def by blast

lemma runs_disjoint_subset: "runs_disjoint R \<Longrightarrow> R' \<subseteq> R \<Longrightarrow> runs_disjoint R'"
  unfolding runs_disjoint_def by blast

lemma in_run: "p \<in> run_pages (b, n) \<longleftrightarrow> (\<exists>x\<in>pieces b n. p \<in> blk x)"
  using pieces_cover [of b n] unfolding run_pages_def by auto

lemma runs_inv_alloc:
  assumes inv: "runs_inv s R" and a: "do_alloc_pages n s = Some (s', b)"
  shows "runs_inv s' (insert (b, n) R) \<and> (b, n) \<notin> R \<and> alloc_effect s s' b n"
proof -
  let ?A = "\<Union>(b, n)\<in>R. pieces b n"
  have mi: "mm_inv s ?A {}" using inv by (simp add: runs_inv_def)
  have n: "0 < n" using a by (cases n) (auto simp: do_alloc_pages_def)
  then have "\<exists>k. n \<le> 2 ^ k \<and> free_page_list s k \<noteq> []" using do_alloc_pages_oom [OF n, of s] a by fastforce
  from do_alloc_pages_ok [OF mi n this] a have r: "mm_inv s' (?A \<union> pieces b n) {}" "alloc_effect s s' b n" by auto
  have fr: "is_free s p" if "p \<in> run_pages (b, n)" for p
    using r(2) that by (simp add: alloc_effect_def run_pages_def)
  have us: "\<not> is_free s p" if x: "x \<in> R" and p: "p \<in> run_pages x" for x p
  proof -
    obtain y where y: "y \<in> pieces (fst x) (snd x)" "p \<in> blk y"
      using in_run [of p "fst x" "snd x"] p by auto
    then have "y \<in> ?A" using x by (intro UN_I [of x]) (simp_all add: case_prod_beta)
    then show ?thesis using mm_invD(4) [OF mi _ y(2)] by (simp add: page_used_def is_free_def)
  qed
  have dis: "run_pages (b, n) \<inter> run_pages x = {}" if "x \<in> R" for x
    using fr us [OF that] by blast
  have "(b, n) \<notin> R" using dis [of "(b, n)"] n by (auto simp: run_pages_def)
  moreover have "(\<Union>(b, n)\<in>insert (b, n) R. pieces b n) = ?A \<union> pieces b n" by auto
  moreover have "runs_disjoint (insert (b, n) R)"
    using inv dis by (intro runs_disjoint_insert) (auto simp: runs_inv_def)
  ultimately show ?thesis using r inv n by (simp add: runs_inv_def)
qed

lemma runs_inv_free:
  assumes inv: "runs_inv s R" and x: "(b, n) \<in> R"
  shows "\<exists>s'. free_pages b n s = Some s' \<and> runs_inv s' (R - {(b, n)})
    \<and> free_effect (set_compound b 0 s) s' b n"
proof -
  let ?A = "\<Union>(b, n)\<in>R. pieces b n"
  have mi: "mm_inv s ?A {}" using inv by (simp add: runs_inv_def)
  have sub: "pieces b n \<subseteq> ?A" using x by blast
  have "pieces b n \<inter> pieces (fst y) (snd y) = {}" if "y \<in> R" "y \<noteq> (b, n)" for y
  proof -
    have "run_pages (b, n) \<inter> run_pages (fst y, snd y) = {}"
      using inv x that unfolding runs_inv_def runs_disjoint_def by auto
    then show ?thesis using in_run [of _ b n] in_run [of _ "fst y" "snd y"] blk_nonempty by blast
  qed
  then have "?A - pieces b n = (\<Union>(b, n)\<in>R - {(b, n)}. pieces b n)" by fastforce
  moreover have "runs_disjoint (R - {(b, n)})"
    using inv by (auto simp: runs_inv_def intro: runs_disjoint_subset)
  ultimately show ?thesis using free_pages_ok [OF mi sub] inv unfolding runs_inv_def by auto
qed

interpretation buddy: page_allocator runs_inv do_alloc_pages free_pages
proof (unfold_locales, goal_cases)
  case 1 then show ?case unfolding runs_inv_def by blast
next
  case 2 then show ?case using runs_inv_alloc by blast
next
  case 3 then show ?case using runs_inv_free by blast
qed


section \<open>No avoidable fragmentation\<close>

lemma grow_in_block:
  assumes "2 ^ Suc k dvd i" and "2 ^ snd x dvd fst x" and "k < snd x" and "q \<in> blk (i, Suc k)" and "q \<in> blk x"
  shows "blk (i, Suc k) \<subseteq> blk x"
proof
  fix p assume "p \<in> blk (i, Suc k)"
  then have "p div 2 ^ snd x = q div 2 ^ snd x" using superblock_div [OF assms(1) _ assms(4,3)] by blast
  then show "p \<in> blk x"
    using in_blk_iff [OF assms(2), of p] in_blk_iff [OF assms(2), of q] assms(5) by simp
qed

lemma block_exact:
  assumes "blk (i, k) \<subseteq> blk x" and "\<not> k < snd x"
  shows "x = (i, k)"
proof -
  have "0 < (2::nat) ^ k" by simp
  then have "i \<in> blk (i, k)" "i + 2 ^ k - 1 \<in> blk (i, k)"
    unfolding blk_def fst_conv snd_conv atLeastLessThan_iff by linarith+
  then have b: "i \<in> blk x" "i + 2 ^ k - 1 \<in> blk x" using assms(1) by blast+
  have "(2::nat) ^ snd x \<le> 2 ^ k" using assms(2) by simp
  then have "(2::nat) ^ snd x = 2 ^ k \<and> fst x = i"
    using b \<open>0 < 2 ^ k\<close> unfolding blk_def atLeastLessThan_iff by linarith
  then show ?thesis by (cases x) simp
qed

lemma aligned_region_in_block:
  "mm_inv s A {} \<Longrightarrow> k \<le> MAX_ORDER \<Longrightarrow> 2 ^ k dvd i \<Longrightarrow> \<forall>p\<in>blk (i, k). p < NUM_PAGES \<and> is_free s p \<Longrightarrow>
     \<exists>x\<in>free_blocks s. blk (i, k) \<subseteq> blk x"
proof (induction k arbitrary: i)
  case 0
  have "i \<in> blk (i, 0)" "blk (i, 0) = {i}" by (auto simp: blk_def)
  then show ?case using mm_invD(5) [OF 0(1), of i] 0(4) by auto
next
  case (Suc k)
  note inv = Suc.prems(1)
  have d: "2 ^ k dvd i" "2 ^ k dvd i + 2 ^ k" "(i div 2 ^ k) mod 2 = 0" using Suc.prems(3) by (auto elim!: dvdE)
  note sp = blk_split(1) [of i k]
  obtain x where x: "x \<in> free_blocks s" "blk (i, k) \<subseteq> blk x"
    using Suc.IH [OF inv _ d(1)] Suc.prems sp by auto
  obtain y where y: "y \<in> free_blocks s" "blk (i + 2 ^ k, k) \<subseteq> blk y"
    using Suc.IH [OF inv _ d(2)] Suc.prems sp by auto
  have wx: "2 ^ snd x dvd fst x" and wy: "2 ^ snd y dvd fst y"
    using mm_invD(1) [OF inv, of x] mm_invD(1) [OF inv, of y] x y by (auto simp: wf_blk_def)
  have nx: "\<exists>x\<in>free_blocks s. blk (i, Suc k) \<subseteq> blk x" if "k < snd x"
  proof -
    have "i \<in> blk (i, Suc k)" "i \<in> blk x"
      using x(2) blk_nonempty [of "(i, k)"] blk_nonempty [of "(i, Suc k)"] by auto
    then show ?thesis using grow_in_block [OF Suc.prems(3) wx that] x(1) by blast
  qed
  have ny: "\<exists>x\<in>free_blocks s. blk (i, Suc k) \<subseteq> blk x" if "k < snd y"
  proof -
    have "i + 2 ^ k \<in> blk (i, Suc k)" "i + 2 ^ k \<in> blk y"
      using y(2) sp blk_nonempty [of "(i + 2 ^ k, k)"] by auto
    then show ?thesis using grow_in_block [OF Suc.prems(3) wy that] y(1) by blast
  qed
  have "\<not> (x = (i, k) \<and> y = (i + 2 ^ k, k))"
    using mm_invD(8) [OF inv] x(1) y(1) Suc.prems(2) buddy_even(1) [OF d(1,3)]
    unfolding coalesced_def by (auto dest!: bspec [of _ _ "(i, k)"])
  then show ?case using nx ny block_exact [OF x(2)] block_exact [OF y(2)] by blast
qed

text \<open>An aligned region of a power of two pages, all free and at least \<open>n\<close> many.\<close>

definition room_for :: "mm \<Rightarrow> nat \<Rightarrow> bool" where
  "room_for s n = (\<exists>k i. k \<le> MAX_ORDER \<and> n \<le> 2 ^ k \<and> 2 ^ k dvd i
     \<and> (\<forall>p\<in>blk (i, k). p < NUM_PAGES \<and> is_free s p))"

lemma alloc_possible_iff:
  fixes n :: nat
  assumes inv: "mm_inv s A {}"
  shows "(\<exists>k. n \<le> 2 ^ k \<and> free_page_list s k \<noteq> []) \<longleftrightarrow> room_for s n" (is "?L \<longleftrightarrow> ?R")
proof
  assume ?L
  then obtain k where k: "n \<le> 2 ^ k" "free_page_list s k \<noteq> []" by blast
  let ?x = "(hd (free_page_list s k), k)"
  have x: "?x \<in> free_blocks s" using k(2) by (simp add: free_blocks_def)
  have w: "wf_blk (order_of s) ?x" using mm_invD(1) [OF inv, of ?x] x by simp
  have "\<forall>p\<in>blk ?x. p < NUM_PAGES \<and> is_free s p"
    using blk_in_range [OF w] mm_invD(3) [OF inv, of ?x] x is_free_zero by blast
  then show ?R using k(1) w unfolding wf_blk_def room_for_def by (metis fst_conv snd_conv)
next
  assume ?R
  then obtain k i where k: "k \<le> MAX_ORDER" "n \<le> 2 ^ k" "2 ^ k dvd i" "\<forall>p\<in>blk (i, k). p < NUM_PAGES \<and> is_free s p"
    unfolding room_for_def by blast
  obtain x where x: "x \<in> free_blocks s" "blk (i, k) \<subseteq> blk x" using aligned_region_in_block [OF inv k(1,3,4)] by blast
  have "2 ^ k \<le> (2::nat) ^ snd x" using card_mono [OF _ x(2)] by (simp add: blk_def)
  then have "n \<le> 2 ^ snd x" using k(2) by linarith
  moreover have "free_page_list s (snd x) \<noteq> []" using x(1) by (auto simp: free_blocks_def)
  ultimately show ?L by blast
qed

section \<open>Start-up state\<close>

text \<open>The loop of \<^verbatim>\<open>mm_init\<close> over the page array, after the free lists were initialised.\<close>

definition mm_reset :: "mm" where
  "mm_reset = \<lparr>mm_pages = (\<lambda>_. \<lparr>pg_addr = 0, pg_flags = PAGE_FLAG_PERM OR PAGE_FLAG_USED,
      pg_order = 0, pg_compound_num = 0\<rparr>),
    free_page_list = (\<lambda>_. []), pages_in_use = 0, pages_avaliable = 0\<rparr>"

lemma mm_reset_inv: "mm_inv mm_reset {} {}"
  by (simp add: mm_inv_def mm_reset_def free_blocks_def coalesced_def is_free_def PAGE_FLAG_USED_def PAGE_FLAG_PERM_def)

definition reserved :: "mm \<Rightarrow> block set \<Rightarrow> nat \<Rightarrow> bool" where
  "reserved s A p = (p < NUM_PAGES \<and> p \<notin> \<Union> (blk ` (free_blocks s \<union> A)))"

lemma claim_keeps_reserved:
  assumes "mm_inv s A {}" and "mm_inv s' A {}" and "flags_of s' p = flags_of s p" and "reserved s A p"
  shows "reserved s' A p"
proof -
  have "flags_of s p AND PAGE_FLAG_USED \<noteq> 0"
    using mm_invD(9) [OF assms(1)] assms(4) by (auto simp: reserved_def)
  then have "p \<notin> blk x" if "x \<in> free_blocks s'" for x using mm_invD(3) [OF assms(2), of x p] that assms(3) by auto
  then show ?thesis using assms(4) by (auto simp: reserved_def)
qed

lemma claim_pages_ok:
  "mm_inv s A {} \<Longrightarrow> (\<And>p. i \<le> p \<Longrightarrow> p < i + n \<Longrightarrow> reserved s A p) \<Longrightarrow>
     \<exists>s'. claim_pages i n s = Some s' \<and> mm_inv s' A {}
       \<and> (\<forall>p. is_free s' p \<longleftrightarrow> is_free s p \<or> i \<le> p \<and> p < i + n)"
proof (induction n arbitrary: s i)
  case 0
  have "\<forall>p. is_free s p \<longleftrightarrow> is_free s p \<or> i \<le> p \<and> p < i + 0" by auto
  then show ?case using 0 by (metis claim_pages.simps(1))
next
  case (Suc n)
  have r: "reserved s A i" by (rule Suc.prems(2)) auto
  then obtain s1 where s1: "claim_page i s = Some s1" "mm_inv s1 A {}" "is_free s1 i"
    "\<forall>p. p \<noteq> i \<longrightarrow> flags_of s1 p = flags_of s p"
    using claim_page_ok [OF Suc.prems(1), of i] unfolding reserved_def by blast
  have "reserved s1 A p" if "i + 1 \<le> p" "p < i + 1 + n" for p
    using claim_keeps_reserved [OF Suc.prems(1) s1(2), of p] Suc.prems(2) [of p] s1(4) that by auto
  from Suc.IH [OF s1(2) this] obtain s' where s': "claim_pages (i + 1) n s1 = Some s'" "mm_inv s' A {}"
    "\<forall>p. is_free s' p \<longleftrightarrow> is_free s1 p \<or> i + 1 \<le> p \<and> p < i + 1 + n" by blast
  have "is_free s1 p \<longleftrightarrow> is_free s p \<or> p = i" for p using s1(3,4) by (cases "p = i") (auto simp: is_free_def)
  then have "\<forall>p. is_free s' p \<longleftrightarrow> is_free s p \<or> i \<le> p \<and> p < i + Suc n" using s'(3) by auto
  then show ?case using s1(1) s'(1,2) by simp
qed

lemma reset_reserved: "p < NUM_PAGES \<Longrightarrow> reserved mm_reset {} p"
  by (simp add: reserved_def free_blocks_def mm_reset_def)

text \<open>A machine with the pages 8 to 15 available, for the instances below.\<close>

lemma runs_disjointD:
  "runs_disjoint R \<Longrightarrow> x \<in> R \<Longrightarrow> y \<in> R \<Longrightarrow> x \<noteq> y \<Longrightarrow> run_pages x \<inter> run_pages y = {}"
  by (simp add: runs_disjoint_def)

lemma small_machine_ex:
  "\<exists>s. claim_pages 8 8 mm_reset = Some s \<and> runs_inv s {} \<and> (\<forall>p. is_free s p \<longleftrightarrow> 8 \<le> p \<and> p < 16)"
proof -
  have "reserved mm_reset {} p" if "8 \<le> p" "p < 8 + 8" for p
    using that by (intro reset_reserved) (simp add: NUM_PAGES_def NUM_ENTRIES_def)
  from claim_pages_ok [OF mm_reset_inv this] obtain s where s: "claim_pages 8 8 mm_reset = Some s" "mm_inv s {} {}"
    "\<forall>p. is_free s p \<longleftrightarrow> is_free mm_reset p \<or> 8 \<le> p \<and> p < 8 + 8" by blast
  have "\<not> is_free mm_reset p" for p by (simp add: is_free_def mm_reset_def PAGE_FLAG_USED_def PAGE_FLAG_PERM_def)
  then have "\<forall>p. is_free s p \<longleftrightarrow> 8 \<le> p \<and> p < 16" using s(3) by simp
  moreover have "runs_inv s {}" using s(2) by (simp add: runs_inv_def runs_disjoint_def)
  ultimately show ?thesis using s(1) by blast
qed

definition small_machine :: mm where
  "small_machine = the (claim_pages 8 8 mm_reset)"

lemma small_machine:
  shows "claim_pages 8 8 mm_reset = Some small_machine" and "runs_inv small_machine {}"
    and "\<And>p. is_free small_machine p \<longleftrightarrow> 8 \<le> p \<and> p < 16"
proof -
  obtain s where s: "claim_pages 8 8 mm_reset = Some s" "runs_inv s {}" "\<forall>p. is_free s p \<longleftrightarrow> 8 \<le> p \<and> p < 16"
    using small_machine_ex by (elim exE conjE)
  have e: "small_machine = s" unfolding small_machine_def s(1) by (rule option.sel)
  show "claim_pages 8 8 mm_reset = Some small_machine" "runs_inv small_machine {}"
    unfolding e by (rule s)+
  show "is_free small_machine p \<longleftrightarrow> 8 \<le> p \<and> p < 16" for p unfolding e using s(3) by (rule spec)
qed

lemma small_machine_room: "n \<le> 8 \<Longrightarrow> room_for small_machine n"
  unfolding room_for_def by (rule exI [of _ 3], rule exI [of _ 8])
    (auto simp: blk_def small_machine(3) MAX_ORDER_def NUM_PAGES_def NUM_ENTRIES_def)

lemma small_machine_no_room: "\<not> room_for small_machine 9"
proof
  assume "room_for small_machine 9"
  then obtain k i where k: "(9::nat) \<le> 2 ^ k" and f: "\<forall>p\<in>blk (i, k). p < NUM_PAGES \<and> is_free small_machine p"
    unfolding room_for_def by blast
  have "blk (i, k) \<subseteq> {8..<16}" using f unfolding small_machine(3) by auto
  then have "card (blk (i, k)) \<le> card {8..<16::nat}" by (intro card_mono) auto
  then show False using k by (simp add: blk_def)
qed

lemma small_machine_alloc:
  assumes "n \<le> 8" and "0 < n"
  obtains s' b where "do_alloc_pages n small_machine = Some (s', b)"
proof -
  have mi: "mm_inv small_machine {} {}" using small_machine(2) by (simp add: runs_inv_def)
  show thesis using do_alloc_pages_ok [OF mi assms(2)] alloc_possible_iff [OF mi, of n]
      small_machine_room [OF assms(1)] that by blast
qed

section \<open>Properties\<close>

text \<open>
  C21. An allocation that returns hands out a run of contiguous pages that were all free, are in
  the page array and belong to no live run; it marks exactly them used, adds their number to
  the pages in use, changes nothing else of any page, and keeps the allocator's invariant (the
  free lists and the order fields stay consistent, live runs stay disjoint).
\<close>
theorem alloc_pages_correct:
  assumes "runs_inv s R" and "do_alloc_pages n s = Some (s', b)"
  shows "runs_inv s' (insert (b, n) R) \<and> (\<forall>x\<in>R. run_pages (b, n) \<inter> run_pages x = {})
    \<and> alloc_effect s s' b n"
proof -
  note r = runs_inv_alloc [OF assms]
  have d: "runs_disjoint (insert (b, n) R)" using r by (simp add: runs_inv_def)
  have "run_pages (b, n) \<inter> run_pages x = {}" if "x \<in> R" for x
    by (rule runs_disjointD [OF d]) (use r that in auto)
  then show ?thesis using r by simp
qed

theorem alloc_pages_correct_witness:
  "\<exists>s' b. do_alloc_pages 3 small_machine = Some (s', b) \<and> runs_inv s' {(b, 3)}
     \<and> alloc_effect small_machine s' b 3"
proof -
  obtain s' b where a: "do_alloc_pages 3 small_machine = Some (s', b)"
    by (rule small_machine_alloc [of 3]) simp_all
  from alloc_pages_correct [OF small_machine(2) a] show ?thesis using a by blast
qed

text \<open>
  C22. An allocation of \<open>n > 0\<close> pages fails (the kernel panics) exactly when there is no aligned
  region of \<open>2 ^ k \<ge> n\<close> free pages with \<open>k \<le> MAX_ORDER\<close>: freed blocks are always merged with their
  buddies as far as possible, so that free memory is never fragmented avoidably.
\<close>
theorem alloc_pages_complete:
  assumes "runs_inv s R" and "0 < n"
  shows "do_alloc_pages n s = None \<longleftrightarrow> \<not> room_for s n"
proof -
  obtain A where mi: "mm_inv s A {}" using assms(1) by (auto simp: runs_inv_def)
  show ?thesis unfolding alloc_possible_iff [OF mi, symmetric]
  proof
    assume "do_alloc_pages n s = None"
    then show "\<not> (\<exists>k. n \<le> 2 ^ k \<and> free_page_list s k \<noteq> [])" using do_alloc_pages_ok [OF mi assms(2)] by auto
  next
    assume "\<not> (\<exists>k. n \<le> 2 ^ k \<and> free_page_list s k \<noteq> [])"
    then show "do_alloc_pages n s = None" by (intro do_alloc_pages_oom [OF assms(2)]) blast
  qed
qed

theorem alloc_pages_complete_witness:
  "do_alloc_pages 8 small_machine \<noteq> None \<and> do_alloc_pages 9 small_machine = None"
proof -
  have "do_alloc_pages 8 small_machine \<noteq> None"
    using alloc_pages_complete [OF small_machine(2), of 8] small_machine_room [of 8] by simp
  moreover have "do_alloc_pages 9 small_machine = None"
    using alloc_pages_complete [OF small_machine(2), of 9] small_machine_no_room by simp
  ultimately show ?thesis ..
qed

text \<open>
  C23. Freeing a live run never fails a check, makes exactly its pages free (flags zero), takes
  their number off the pages in use, leaves every other page's address, flags and compound
  count alone, and keeps the invariant for the remaining runs.
\<close>
theorem free_pages_correct:
  assumes "runs_inv s R" and "(b, n) \<in> R"
  shows "\<exists>s'. free_pages b n s = Some s' \<and> runs_inv s' (R - {(b, n)})
    \<and> free_effect (set_compound b 0 s) s' b n"
  by (rule runs_inv_free [OF assms])

theorem free_pages_correct_witness:
  "\<exists>s' s'' b. do_alloc_pages 5 small_machine = Some (s', b)
     \<and> free_pages b 5 s' = Some s'' \<and> (\<forall>p. flags_of s'' p = flags_of small_machine p)"
proof -
  let ?s = small_machine
  have mi: "mm_inv ?s {} {}" using small_machine(2) by (simp add: runs_inv_def)
  obtain s' b where a: "do_alloc_pages 5 ?s = Some (s', b)" by (rule small_machine_alloc [of 5]) simp_all
  note r = runs_inv_alloc [OF small_machine(2) a]
  then obtain s'' where f: "free_pages b 5 s' = Some s''" "free_effect (set_compound b 0 s') s'' b 5"
    using free_pages_correct [of s' "{(b, 5)}" b 5] by auto
  have "flags_of s'' p = flags_of ?s p" for p
  proof (cases "b \<le> p \<and> p < b + 5")
    case True
    then have "is_free ?s p" "p < NUM_PAGES" using r by (auto simp: alloc_effect_def)
    then obtain x where "x \<in> free_blocks ?s" "p \<in> blk x" using mm_invD(5) [OF mi] by blast
    then have "flags_of ?s p = 0" using mm_invD(3) [OF mi, of x p] by blast
    then show ?thesis using f(2) True by (simp add: free_effect_def)
  next
    case False
    have "flags_of s'' p = (if b \<le> p \<and> p < b + 5 then 0 else flags_of (set_compound b 0 s') p)"
      using f(2) unfolding free_effect_def by blast
    also have "\<dots> = flags_of (set_compound b 0 s') p" using False by (rule if_not_P)
    also have "\<dots> = flags_of s' p" by (simp add: set_compound_def)
    also have "\<dots> = (if b \<le> p \<and> p < b + 5 then PAGE_FLAG_USED else flags_of ?s p)"
      using r unfolding alloc_effect_def by blast
    also have "\<dots> = flags_of ?s p" using False by (rule if_not_P)
    finally show ?thesis .
  qed
  then show ?thesis using a f(1) by blast
qed

text \<open>
  C20. However a client interleaves allocations and frees of its live runs, no internal check of
  the allocator ever fires: execution stops only at an allocation, and only because no free
  block is large enough for it (or it asked for zero pages); all live runs stay disjoint.
\<close>
theorem buddy_trace_safe:
  assumes "runs_inv s (set live)" and "distinct live"
    and "page_trace do_alloc_pages free_pages ops s live = (rest, s', live')"
  shows "runs_disjoint (set live') \<and> (rest = [] \<or>
    (\<exists>n ops'. rest = Alloc n # ops' \<and> (n = 0 \<or> (\<forall>k. n \<le> 2 ^ k \<longrightarrow> free_page_list s' k = []))))"
proof -
  note t = buddy.trace_stops_only_at_alloc [OF assms]
  then obtain A where mi: "mm_inv s' A {}" by (auto simp: runs_inv_def)
  have "n = 0 \<or> (\<forall>k. n \<le> 2 ^ k \<longrightarrow> free_page_list s' k = [])" if "do_alloc_pages n s' = None" for n
  proof (rule disjCI)
    assume "\<not> (\<forall>k. n \<le> 2 ^ k \<longrightarrow> free_page_list s' k = [])"
    then show "n = 0" using do_alloc_pages_ok [OF mi, of n] that by (cases "n = 0") auto
  qed
  moreover have "runs_disjoint (set live')" using t by (simp add: runs_inv_def)
  ultimately show ?thesis using t by blast
qed

theorem buddy_trace_safe_witness:
  "\<exists>rest s' live'. page_trace do_alloc_pages free_pages [Alloc 3, Alloc 2, Free 1, Alloc 4, Free 0]
       small_machine [] = (rest, s', live') \<and> runs_disjoint (set live')"
proof -
  obtain rest s' live' where t: "page_trace do_alloc_pages free_pages
      [Alloc 3, Alloc 2, Free 1, Alloc 4, Free 0] small_machine [] = (rest, s', live')"
    by (rule prod_cases3)
  have "runs_inv small_machine (set [])" "distinct []" using small_machine(2) by simp_all
  from buddy_trace_safe [OF this t] show ?thesis using t by blast
qed


end
