(* ===== verification/Page_Map.thy ===== *)
theory Page_Map
  imports Buddy Ring_Buffer
begin

text \<open>
  Kernel address translation: the page tables of \<^verbatim>\<open>inc/arch/mmu.h\<close> and the kernel half of
  \<^verbatim>\<open>arch/mmu.c\<close>. The array \<^verbatim>\<open>kptab\<close> of page tables is a function of a table and an entry index;
  an entry holds the 12 flag bits and the 20 address bits of the C bit field. Using \<^verbatim>\<open>kptab\<close>
  out of bounds is \<^term>\<open>None\<close>. \<^verbatim>\<open>map_pages\<close> hands out kernel virtual addresses in increasing order
  and never takes one back; it is shown to install the translation it promises and to leave
  every earlier one alone, so that \<^verbatim>\<open>virt_to_phys\<close> inverts it.
\<close>

section \<open>The code\<close>

definition PAGE_SIZE :: u32 where "PAGE_SIZE = 0x1000"
definition VIRTUAL_BASE :: u32 where "VIRTUAL_BASE = 0xC0000000"
definition KERNEL_NUM_TABLES :: u32 where "KERNEL_NUM_TABLES = 256"

definition MMUFLAG_PRESENT :: u32 where "MMUFLAG_PRESENT = 1"
definition MMUFLAG_WRITABLE :: u32 where "MMUFLAG_WRITABLE = 2"
definition MMUFLAG_USER :: u32 where "MMUFLAG_USER = 4"

record ptab_entry =
  pte_flags :: "12 word"
  pte_physaddr :: "20 word"

type_synonym ptab = "u32 \<Rightarrow> ptab_entry"

record kmap =
  kptab :: "u32 \<Rightarrow> ptab"
  kernel_next_page :: u32

definition phys_to_pageidx :: "u32 \<Rightarrow> u32" where
  "phys_to_pageidx addr = addr div PAGE_SIZE"

definition page_to_phys :: "nat \<Rightarrow> u32" where
  "page_to_phys p = of_nat p * PAGE_SIZE"

definition phys_to_page :: "u32 \<Rightarrow> nat" where
  "phys_to_page addr = unat (phys_to_pageidx addr)"

definition addr_to_diridx :: "u32 \<Rightarrow> u32" where
  "addr_to_diridx addr = ((addr AND 0xFFFFF000) div PAGE_SIZE) div 1024"

definition addr_to_tabidx :: "u32 \<Rightarrow> u32" where
  "addr_to_tabidx addr = ((addr AND 0xFFFFF000) div PAGE_SIZE) mod 1024"

definition get_pageoff :: "u32 \<Rightarrow> u32" where
  "get_pageoff addr = addr AND 0xFFF"

definition tabentry_get_flags :: "ptab \<Rightarrow> u32 \<Rightarrow> u32" where
  "tabentry_get_flags t idx = ucast (pte_flags (t idx)) AND 0xFFF"

definition tabentry_get_phys :: "ptab \<Rightarrow> u32 \<Rightarrow> u32" where
  "tabentry_get_phys t idx = push_bit 12 (ucast (pte_physaddr (t idx)))"

definition tabentry_set :: "u32 \<Rightarrow> u32 \<Rightarrow> u32 \<Rightarrow> ptab \<Rightarrow> ptab" where
  "tabentry_set idx phys flags t =
     t(idx := \<lparr>pte_flags = ucast (flags AND 0xFFF), pte_physaddr = ucast (drop_bit 12 phys)\<rparr>)"

definition tab_lookup_addr :: "ptab \<Rightarrow> u32 \<Rightarrow> u32" where
  "tab_lookup_addr tab addr = tabentry_get_phys tab (addr_to_tabidx addr) OR get_pageoff addr"

definition kptab_index :: "u32 \<Rightarrow> u32" where
  "kptab_index addr = addr_to_diridx addr - addr_to_diridx VIRTUAL_BASE"

definition virt_to_phys :: "kmap \<Rightarrow> u32 \<Rightarrow> u32 option" where
  "virt_to_phys k addr =
     (if addr = 0 then Some 0
      else if kptab_index addr < KERNEL_NUM_TABLES
      then Some (tab_lookup_addr (kptab k (kptab_index addr)) addr) else None)"

definition virt_to_page :: "kmap \<Rightarrow> u32 \<Rightarrow> nat option" where
  "virt_to_page k addr = map_option phys_to_page (virt_to_phys k addr)"

definition get_next_virt :: "u32 \<Rightarrow> kmap \<Rightarrow> u32" where
  "get_next_virt phys k = kernel_next_page k * PAGE_SIZE + VIRTUAL_BASE + get_pageoff phys"

definition do_map_page :: "u32 \<Rightarrow> kmap \<Rightarrow> kmap option" where
  "do_map_page phys k =
     (let virt = get_next_virt 0 k;
          k1 = k\<lparr>kernel_next_page := kernel_next_page k + 1\<rparr>;
          idx = kptab_index virt
      in if idx < KERNEL_NUM_TABLES
         then Some (k1\<lparr>kptab := (kptab k1)(idx :=
           tabentry_set (addr_to_tabidx virt) phys (MMUFLAG_WRITABLE OR MMUFLAG_PRESENT) (kptab k1 idx))\<rparr>)
         else None)"

fun map_pages_loop :: "u32 \<Rightarrow> u32 \<Rightarrow> nat \<Rightarrow> kmap \<Rightarrow> kmap option" where
  "map_pages_loop phys i 0 k = Some k"
| "map_pages_loop phys i (Suc n) k = do {
     k1 \<leftarrow> do_map_page (phys + PAGE_SIZE * i) k;
     map_pages_loop phys (i + 1) n k1 }"

definition map_pages :: "u32 \<Rightarrow> u32 \<Rightarrow> kmap \<Rightarrow> (kmap \<times> u32) option" where
  "map_pages phys pages k = do {
     k' \<leftarrow> map_pages_loop phys 0 (unat pages) k;
     Some (k', get_next_virt phys k) }"

definition map_page :: "u32 \<Rightarrow> kmap \<Rightarrow> (kmap \<times> u32) option" where
  "map_page phys k = map_pages phys 1 k"

definition kvirt_to_phys :: "u32 \<Rightarrow> u32 option" where
  "kvirt_to_phys kaddr = do { bug_on (kaddr < VIRTUAL_BASE); Some (kaddr - VIRTUAL_BASE) }"


section \<open>Memory seen through the kernel map\<close>

text \<open>
  Physical memory is a byte array; a kernel pointer is dereferenced through \<^verbatim>\<open>virt_to_phys\<close>.
  A table in memory is 1024 little-endian words, the flags in the low 12 bits.
\<close>

definition ALLOC_CACHE :: u32 where "ALLOC_CACHE = 1"
definition ALLOC_COMPOUND :: u32 where "ALLOC_COMPOUND = 2"
definition ALLOC_ZERO :: u32 where "ALLOC_ZERO = 4"

record vm =
  vm_mm :: mm
  vm_map :: kmap
  vm_mem :: byte_mem

definition page_to_virt :: "vm \<Rightarrow> nat \<Rightarrow> u32" where
  "page_to_virt v p = pg_addr (mm_pages (vm_mm v) p)"

definition phys_to_virt :: "vm \<Rightarrow> u32 \<Rightarrow> u32" where
  "phys_to_virt v phys = page_to_virt v (phys_to_page phys)"

fun vmemset :: "kmap \<Rightarrow> u32 \<Rightarrow> u8 \<Rightarrow> nat \<Rightarrow> byte_mem \<Rightarrow> byte_mem option" where
  "vmemset k a c 0 m = Some m"
| "vmemset k a c (Suc n) m = do { p \<leftarrow> virt_to_phys k a; vmemset k (a + 1) c n (m(p := c)) }"

definition set_page_addr :: "nat \<Rightarrow> u32 \<Rightarrow> mm \<Rightarrow> mm" where
  "set_page_addr i v s = s\<lparr>mm_pages := (mm_pages s)(i := (mm_pages s i)\<lparr>pg_addr := v\<rparr>)\<rparr>"

fun alloc_finish :: "u32 \<Rightarrow> u32 \<Rightarrow> nat \<Rightarrow> u32 \<Rightarrow> nat \<Rightarrow> mm \<Rightarrow> mm option" where
  "alloc_finish first flags p i 0 s = Some s"
| "alloc_finish first flags p i (Suc n) s =
     (let s1 = set_page_addr p (first + PAGE_SIZE * i) s in do {
        bug_on (flags_of s1 p AND PAGE_FLAG_USED = 0);
        bug_on (flags_of s1 p AND PAGE_FLAG_PERM \<noteq> 0);
        alloc_finish first flags (p + 1) (i + 1) n
          (if flags AND ALLOC_CACHE \<noteq> 0 then set_flags p (flags_of s1 p OR PAGE_FLAG_CACHE) s1 else s1) })"

definition alloc_pages :: "u32 \<Rightarrow> u32 \<Rightarrow> vm \<Rightarrow> (vm \<times> nat) option" where
  "alloc_pages num flags v = do {
     (s1, p) \<leftarrow> do_alloc_pages (unat num) (vm_mm v);
     (k1, first) \<leftarrow> map_pages (page_to_phys p) num (vm_map v);
     s2 \<leftarrow> alloc_finish first flags p 0 (unat num) s1;
     let s3 = (if flags AND ALLOC_COMPOUND \<noteq> 0 then set_compound p (unat num) s2 else s2);
     m1 \<leftarrow> (if flags AND ALLOC_ZERO \<noteq> 0 then vmemset k1 first 0 (unat (num * PAGE_SIZE)) (vm_mem v)
           else Some (vm_mem v));
     Some (\<lparr>vm_mm = s3, vm_map = k1, vm_mem = m1\<rparr>, p) }"

definition alloc_page :: "u32 \<Rightarrow> vm \<Rightarrow> (vm \<times> nat) option" where
  "alloc_page flags v = alloc_pages 1 flags v"

section \<open>User address spaces\<close>

definition read32 :: "byte_mem \<Rightarrow> u32 \<Rightarrow> u32" where
  "read32 m a = ucast (m a) OR push_bit 8 (ucast (m (a + 1)))
     OR push_bit 16 (ucast (m (a + 2))) OR push_bit 24 (ucast (m (a + 3)))"

definition write32 :: "byte_mem \<Rightarrow> u32 \<Rightarrow> u32 \<Rightarrow> byte_mem" where
  "write32 m a w = m(a := ucast w, a + 1 := ucast (drop_bit 8 w),
     a + 2 := ucast (drop_bit 16 w), a + 3 := ucast (drop_bit 24 w))"

definition pte_of_word :: "u32 \<Rightarrow> ptab_entry" where
  "pte_of_word w = \<lparr>pte_flags = ucast w, pte_physaddr = ucast (drop_bit 12 w)\<rparr>"

definition word_of_pte :: "ptab_entry \<Rightarrow> u32" where
  "word_of_pte e = ucast (pte_flags e) OR push_bit 12 (ucast (pte_physaddr e))"

definition ptab_at :: "byte_mem \<Rightarrow> u32 \<Rightarrow> ptab" where
  "ptab_at m base idx = pte_of_word (read32 m (base + 4 * idx))"

definition store_entry :: "byte_mem \<Rightarrow> u32 \<Rightarrow> u32 \<Rightarrow> ptab_entry \<Rightarrow> byte_mem" where
  "store_entry m base idx e = write32 m (base + 4 * idx) (word_of_pte e)"

text \<open>A table pointer is a kernel virtual address; \<open>0\<close> is the null pointer.\<close>

definition direntry_get_phys :: "vm \<Rightarrow> u32 \<Rightarrow> u32 \<Rightarrow> u32 option" where
  "direntry_get_phys v d idx = do {
     base \<leftarrow> virt_to_phys (vm_map v) d;
     Some (tabentry_get_phys (ptab_at (vm_mem v) base) idx) }"

definition entry_set :: "vm \<Rightarrow> u32 \<Rightarrow> u32 \<Rightarrow> u32 \<Rightarrow> u32 \<Rightarrow> vm option" where
  "entry_set v t idx phys flags = do {
     base \<leftarrow> virt_to_phys (vm_map v) t;
     Some (v\<lparr>vm_mem := store_entry (vm_mem v) base idx
       (tabentry_set idx phys flags (ptab_at (vm_mem v) base) idx)\<rparr>) }"

definition dir_get_tab :: "vm \<Rightarrow> u32 \<Rightarrow> u32 \<Rightarrow> u32 option" where
  "dir_get_tab v d idx = do {
     phys \<leftarrow> direntry_get_phys v d idx;
     Some (if phys = 0 then 0 else phys_to_virt v phys) }"

definition do_user_get_page :: "vm \<Rightarrow> u32 \<Rightarrow> u32 \<Rightarrow> u32 \<Rightarrow> u32 option" where
  "do_user_get_page v dir diridx tabidx = do {
     tab \<leftarrow> dir_get_tab v dir diridx;
     if tab = 0 then Some 0
     else do { base \<leftarrow> virt_to_phys (vm_map v) tab; Some (tabentry_get_phys (ptab_at (vm_mem v) base) tabidx) } }"

definition user_get_page :: "vm \<Rightarrow> u32 \<Rightarrow> u32 \<Rightarrow> nat option option" where
  "user_get_page v dir virt = do {
     phys \<leftarrow> do_user_get_page v dir (addr_to_diridx virt) (addr_to_tabidx virt);
     Some (if phys = 0 then None else Some (phys_to_page phys)) }"

definition dir_lookup_addr :: "vm \<Rightarrow> u32 \<Rightarrow> u32 \<Rightarrow> u32 option" where
  "dir_lookup_addr v dir addr = do {
     tab \<leftarrow> dir_get_tab v dir (addr_to_diridx addr);
     if tab = 0 then Some 0
     else do { base \<leftarrow> virt_to_phys (vm_map v) tab; Some (tab_lookup_addr (ptab_at (vm_mem v) base) addr) } }"

definition USER_ENTRY :: u32 where
  "USER_ENTRY = MMUFLAG_PRESENT OR MMUFLAG_WRITABLE OR MMUFLAG_USER"

definition do_user_map_page :: "u32 \<Rightarrow> u32 \<Rightarrow> u32 \<Rightarrow> u32 \<Rightarrow> vm \<Rightarrow> vm option" where
  "do_user_map_page dir diridx tabidx phys v = do {
     tab \<leftarrow> dir_get_tab v dir diridx;
     (v1, tab1) \<leftarrow> (if tab = 0 then do {
          (v1, table_page) \<leftarrow> alloc_page ALLOC_ZERO v;
          v2 \<leftarrow> entry_set v1 dir diridx (page_to_phys table_page) USER_ENTRY;
          Some (v2, page_to_virt v2 table_page) }
        else Some (v, tab));
     entry_set v1 tab1 tabidx phys USER_ENTRY }"

definition user_map_page :: "u32 \<Rightarrow> u32 \<Rightarrow> u32 \<Rightarrow> vm \<Rightarrow> vm option" where
  "user_map_page dir virt phys v = do_user_map_page dir (addr_to_diridx virt) (addr_to_tabidx virt) phys v"

fun user_map_loop :: "u32 \<Rightarrow> u32 \<Rightarrow> u32 \<Rightarrow> u32 \<Rightarrow> nat \<Rightarrow> vm \<Rightarrow> vm option" where
  "user_map_loop dir virt phys i 0 v = Some v"
| "user_map_loop dir virt phys i (Suc n) v =
     (let off = i * PAGE_SIZE in do {
        v1 \<leftarrow> user_map_page dir (virt + off) (phys + off) v;
        user_map_loop dir virt phys (i + 1) n v1 })"

definition user_map_pages :: "u32 \<Rightarrow> u32 \<Rightarrow> u32 \<Rightarrow> u32 \<Rightarrow> vm \<Rightarrow> vm option" where
  "user_map_pages dir virt phys num v = user_map_loop dir virt phys 0 (unat num) v"

text \<open>The new page goes into the current thread's directory, whatever \<open>task\<close> was passed.\<close>

definition user_alloc_page :: "u32 \<Rightarrow> u32 \<Rightarrow> u32 \<Rightarrow> u32 \<Rightarrow> vm \<Rightarrow> (vm \<times> nat) option" where
  "user_alloc_page current_dir task_dir virt flags v = do {
     (v1, p) \<leftarrow> alloc_page flags v;
     v2 \<leftarrow> user_map_page current_dir virt (page_to_phys p) v1;
     Some (v2, p) }"

definition virt_is_valid :: "vm \<Rightarrow> u32 option \<Rightarrow> u32 \<Rightarrow> bool option" where
  "virt_is_valid v task_dir addr =
     (case task_dir of
        Some dir \<Rightarrow> if addr < VIRTUAL_BASE then do {
            tab \<leftarrow> dir_get_tab v dir (addr_to_diridx addr);
            if tab = 0 then Some False
            else do { base \<leftarrow> virt_to_phys (vm_map v) tab;
              Some (tabentry_get_flags (ptab_at (vm_mem v) base) (addr_to_tabidx addr) AND MMUFLAG_PRESENT \<noteq> 0) } }
          else if kptab_index addr < KERNEL_NUM_TABLES
          then Some (tabentry_get_flags (kptab (vm_map v) (kptab_index addr)) (addr_to_tabidx addr) AND MMUFLAG_PRESENT \<noteq> 0)
          else None
      | None \<Rightarrow> if kptab_index addr < KERNEL_NUM_TABLES
          then Some (tabentry_get_flags (kptab (vm_map v) (kptab_index addr)) (addr_to_tabidx addr) AND MMUFLAG_PRESENT \<noteq> 0)
          else None)"

text \<open>
  \<open>kptab_addr\<close> is the link address of the array \<^verbatim>\<open>kptab\<close>; its elements are a page apart. The
  directory is filled before paging knows it, so it is addressed by its physical base.
\<close>

fun clear_user_entries :: "u32 \<Rightarrow> u32 \<Rightarrow> nat \<Rightarrow> byte_mem \<Rightarrow> byte_mem" where
  "clear_user_entries base i 0 m = m"
| "clear_user_entries base i (Suc n) m =
     clear_user_entries base (i + 1) n (store_entry m base i (tabentry_set i 0 0 (ptab_at m base) i))"

fun set_kernel_entries :: "u32 \<Rightarrow> u32 \<Rightarrow> u32 \<Rightarrow> nat \<Rightarrow> byte_mem \<Rightarrow> byte_mem option" where
  "set_kernel_entries kptab_addr base i 0 m = Some m"
| "set_kernel_entries kptab_addr base i (Suc n) m = do {
     phys \<leftarrow> kvirt_to_phys (kptab_addr + i * PAGE_SIZE);
     let idx = i + VIRTUAL_BASE div PAGE_SIZE div of_nat NUM_ENTRIES;
     set_kernel_entries kptab_addr base (i + 1) n
       (store_entry m base idx (tabentry_set idx phys (MMUFLAG_PRESENT OR MMUFLAG_WRITABLE) (ptab_at m base) idx)) }"

definition build_page_dir :: "u32 \<Rightarrow> u32 \<Rightarrow> byte_mem \<Rightarrow> byte_mem option" where
  "build_page_dir kptab_addr base m =
     set_kernel_entries kptab_addr base 0 (unat KERNEL_NUM_TABLES)
       (clear_user_entries base 0 (NUM_ENTRIES - unat KERNEL_NUM_TABLES) m)"

section \<open>Facts on the kernel map\<close>

lemma page_index: "(a AND 0xFFFFF000) div PAGE_SIZE = drop_bit 12 (a::u32)"
proof -
  have "drop_bit 12 (a AND 0xFFFFF000) = drop_bit 12 a"
  proof (rule bit_word_eqI)
    fix n assume "n < LENGTH(32)"
    have e: "(0xFFFFF000 :: u32) = push_bit 12 (mask 20)" by (simp add: mask_eq_exp_minus_1 push_bit_eq_mult)
    show "bit (drop_bit 12 (a AND 0xFFFFF000)) n = bit (drop_bit 12 a) n"
      unfolding e using bit_imp_le_length [of a "12 + n"] by (auto simp: bit_simps simp del: push_bit_mask_eq)
  qed
  then show ?thesis by (simp add: PAGE_SIZE_def drop_bit_eq_div)
qed

lemma unat_diridx: "unat (addr_to_diridx a) = unat a div 4194304"
  unfolding addr_to_diridx_def page_index
  by (simp only: unat_div unat_drop_bit) (simp add: div_mult2_eq [symmetric])

lemma unat_tabidx: "unat (addr_to_tabidx a) = unat a div 4096 mod 1024"
  unfolding addr_to_tabidx_def page_index
  by (simp only: unat_mod unat_drop_bit) simp

lemma get_pageoff_take: "get_pageoff a = take_bit 12 a"
  by (simp add: get_pageoff_def take_bit_eq_mask mask_eq_exp_minus_1)

lemma unat_pageoff: "unat (get_pageoff a) = unat a mod 4096"
  by (simp only: get_pageoff_take unat_take_bit) simp

lemma unat_lookup:
  "unat (tab_lookup_addr t a) = unat (pte_physaddr (t (addr_to_tabidx a))) * 4096 + unat a mod 4096"
proof -
  let ?p = "pte_physaddr (t (addr_to_tabidx a))"
  have p: "unat ?p < 1048576" using unsigned_less [of ?p] by simp
  have "tab_lookup_addr t a = push_bit 12 (ucast ?p) + take_bit 12 a"
    unfolding tab_lookup_addr_def tabentry_get_phys_def get_pageoff_take
    by (rule disjunctive_add_eq_or [symmetric]) (auto simp: bit_eq_iff bit_simps)
  moreover have "unat (push_bit 12 (ucast ?p :: u32)) = unat ?p * 4096"
    using p by (simp add: push_bit_eq_mult unat_word_ariths unat_ucast_up)
  ultimately show ?thesis
    using p by (simp add: unat_word_ariths unat_take_bit)
qed

definition KERNEL_PAGES :: nat where "KERNEL_PAGES = 262144"

definition kslot :: "kmap \<Rightarrow> nat \<Rightarrow> ptab_entry" where
  "kslot k j = kptab k (of_nat (j div 1024)) (of_nat (j mod 1024))"

definition kvirt :: "nat \<Rightarrow> u32" where
  "kvirt j = VIRTUAL_BASE + of_nat j * PAGE_SIZE"

definition kentry :: "u32 \<Rightarrow> ptab_entry" where
  "kentry phys = \<lparr>pte_flags = 3, pte_physaddr = ucast (drop_bit 12 phys)\<rparr>"

lemma unat_eq_of_nat: "unat (w::'a::len word) = n \<Longrightarrow> w = of_nat n"
  by auto

lemma unat_of_nat_less: "n < 4294967296 \<Longrightarrow> unat (of_nat n :: u32) = n"
  by (simp add: unat_of_nat take_bit_nat_eq_self)

lemma of_nat_u32_inj: "a < 4294967296 \<Longrightarrow> b < 4294967296 \<Longrightarrow> (of_nat a :: u32) = of_nat b \<longleftrightarrow> a = b"
  by (metis unat_of_nat_less)

lemma kvirt_unat:
  assumes "j < KERNEL_PAGES" and "unat off < 4096"
  shows "unat (kvirt j + off) = 3221225472 + j * 4096 + unat off"
proof -
  have "unat (of_nat j :: u32) = j" using assms(1) by (intro unat_of_nat_less) (simp add: KERNEL_PAGES_def)
  then show ?thesis using assms by (simp add: kvirt_def unat_word_ariths VIRTUAL_BASE_def PAGE_SIZE_def KERNEL_PAGES_def)
qed

lemma kvirt_index:
  assumes "j < KERNEL_PAGES" and "unat off < 4096"
  shows "kptab_index (kvirt j + off) = of_nat (j div 1024)"
    and "addr_to_tabidx (kvirt j + off) = of_nat (j mod 1024)"
    and "get_pageoff (kvirt j + off) = off"
    and "kvirt j + off \<noteq> 0"
    and "(of_nat (j div 1024) :: u32) < KERNEL_NUM_TABLES"
proof -
  note u = kvirt_unat [OF assms]
  have b: "j div 1024 < 256" using assms(1) by (simp add: KERNEL_PAGES_def)
  have v: "unat (addr_to_diridx VIRTUAL_BASE) = 768" by (simp add: unat_diridx VIRTUAL_BASE_def)
  have d: "unat (addr_to_diridx (kvirt j + off)) = 768 + j div 1024"
    unfolding unat_diridx u using assms by simp
  have "unat (kptab_index (kvirt j + off)) = j div 1024"
    unfolding kptab_index_def by (subst unat_diff_le) (simp_all add: v d)
  then show "kptab_index (kvirt j + off) = of_nat (j div 1024)" by (rule unat_eq_of_nat)
  have "unat (addr_to_tabidx (kvirt j + off)) = j mod 1024"
  proof -
    have "(3221225472 + j * 4096 + unat off) div 4096 = 786432 + j"
      using assms(2) by (intro div_nat_eqI) simp_all
    moreover have "(786432 + j) mod 1024 = j mod 1024"
      using mod_mult_self2 [of j 1024 768] by (simp add: add.commute)
    ultimately show ?thesis unfolding unat_tabidx u by simp
  qed
  then show "addr_to_tabidx (kvirt j + off) = of_nat (j mod 1024)" by (rule unat_eq_of_nat)
  have "3221225472 + j * 4096 + unat off = unat off + 4096 * (786432 + j)" by simp
  then have "(3221225472 + j * 4096 + unat off) mod 4096 = unat off"
    using assms(2) by (simp only: mod_mult_self2 mod_less)
  then have "unat (get_pageoff (kvirt j + off)) = unat off" unfolding unat_pageoff u .
  then show "get_pageoff (kvirt j + off) = off" by (simp only: word_unat_eq_iff)
  show "kvirt j + off \<noteq> 0" using u by force
  show "(of_nat (j div 1024) :: u32) < KERNEL_NUM_TABLES"
    using b unat_of_nat_less [of "j div 1024"] by (simp add: word_less_nat_alt KERNEL_NUM_TABLES_def)
qed

lemma virt_to_phys_kvirt:
  assumes "j < KERNEL_PAGES" and "unat off < 4096"
  shows "\<exists>x. virt_to_phys k (kvirt j + off) = Some x
    \<and> unat x = unat (pte_physaddr (kslot k j)) * 4096 + unat off"
  using kvirt_index [OF assms] unat_lookup [of "kptab k (of_nat (j div 1024))" "kvirt j + off"]
    unat_pageoff [of "kvirt j + off"]
  by (simp add: virt_to_phys_def kslot_def)

lemma kslot_index_inj:
  assumes "j < KERNEL_PAGES" and "i < KERNEL_PAGES"
  shows "(of_nat (i div 1024) :: u32) = of_nat (j div 1024) \<and> (of_nat (i mod 1024) :: u32) = of_nat (j mod 1024)
    \<longleftrightarrow> i = j"
proof -
  have "i div 1024 < 256" "j div 1024 < 256" using assms by (simp_all add: KERNEL_PAGES_def)
  then have "(of_nat (i div 1024) :: u32) = of_nat (j div 1024) \<longleftrightarrow> i div 1024 = j div 1024"
    by (intro of_nat_u32_inj) auto
  moreover have "(of_nat (i mod 1024) :: u32) = of_nat (j mod 1024) \<longleftrightarrow> i mod 1024 = j mod 1024"
    by (intro of_nat_u32_inj) (auto intro: less_trans [OF mod_less_divisor])
  ultimately show ?thesis by (metis div_mult_mod_eq)
qed

lemma do_map_page_ok:
  assumes "unat (kernel_next_page k) < KERNEL_PAGES"
  shows "\<exists>k'. do_map_page phys k = Some k' \<and> unat (kernel_next_page k') = unat (kernel_next_page k) + 1
    \<and> (\<forall>j<KERNEL_PAGES. kslot k' j = (if j = unat (kernel_next_page k) then kentry phys else kslot k j))"
proof -
  let ?n = "unat (kernel_next_page k)"
  have v: "get_next_virt 0 k = kvirt ?n + 0"
    by (simp add: get_next_virt_def kvirt_def get_pageoff_def)
  note ix = kvirt_index [OF assms, of 0, simplified]
  have e: "do_map_page phys k = Some (k\<lparr>kernel_next_page := kernel_next_page k + 1,
      kptab := (kptab k)(of_nat (?n div 1024) := (kptab k (of_nat (?n div 1024)))(of_nat (?n mod 1024) := kentry phys))\<rparr>)"
    (is "_ = Some ?k'")
    using ix by (simp add: do_map_page_def v Let_def tabentry_set_def kentry_def MMUFLAG_WRITABLE_def MMUFLAG_PRESENT_def)
  have "unat (kernel_next_page ?k') = ?n + 1"
    using assms by (simp add: KERNEL_PAGES_def unat_word_ariths)
  moreover have "\<forall>j<KERNEL_PAGES. kslot ?k' j = (if j = ?n then kentry phys else kslot k j)"
    using kslot_index_inj [OF assms] by (auto simp: kslot_def)
  ultimately show ?thesis using e by blast
qed

lemma map_pages_loop_ok:
  assumes "unat (kernel_next_page k) + n \<le> KERNEL_PAGES"
  shows "\<exists>k'. map_pages_loop phys i n k = Some k' \<and> unat (kernel_next_page k') = unat (kernel_next_page k) + n
    \<and> (\<forall>j<KERNEL_PAGES. kslot k' j =
         (if unat (kernel_next_page k) \<le> j \<and> j < unat (kernel_next_page k) + n
          then kentry (phys + PAGE_SIZE * (i + of_nat (j - unat (kernel_next_page k)))) else kslot k j))"
  using assms
proof (induction n arbitrary: k i)
  case 0 then show ?case by auto
next
  case (Suc n)
  let ?m = "unat (kernel_next_page k)"
  obtain k1 where k1: "do_map_page (phys + PAGE_SIZE * i) k = Some k1" "unat (kernel_next_page k1) = ?m + 1"
    "\<forall>j<KERNEL_PAGES. kslot k1 j = (if j = ?m then kentry (phys + PAGE_SIZE * i) else kslot k j)"
    using do_map_page_ok [of k "phys + PAGE_SIZE * i"] Suc.prems by auto
  obtain k' where k': "map_pages_loop phys (i + 1) n k1 = Some k'" "unat (kernel_next_page k') = ?m + 1 + n"
    "\<forall>j<KERNEL_PAGES. kslot k' j = (if ?m + 1 \<le> j \<and> j < ?m + 1 + n
          then kentry (phys + PAGE_SIZE * (i + 1 + of_nat (j - (?m + 1)))) else kslot k1 j)"
    using Suc.IH [of k1 "i + 1"] k1(2) Suc.prems by auto
  have "kslot k' j = (if ?m \<le> j \<and> j < ?m + Suc n
      then kentry (phys + PAGE_SIZE * (i + of_nat (j - ?m))) else kslot k j)" if "j < KERNEL_PAGES" for j
  proof (cases "?m + 1 \<le> j \<and> j < ?m + 1 + n")
    case True
    then have "j - ?m = Suc (j - (?m + 1))" by arith
    then have "(of_nat (j - ?m) :: u32) = 1 + of_nat (j - (?m + 1))" by simp
    then show ?thesis using True k'(3) that by (simp add: add.assoc)
  next
    case False
    then show ?thesis using k'(3) k1(3) that by auto
  qed
  then show ?case using k1(1) k'(1,2) by simp
qed

section \<open>Allocation with mapping\<close>

lemma mm_inv_used_cong:
  assumes "mm_inv s A P" and fl: "free_page_list s' = free_page_list s" and o: "\<And>p. order_of s' p = order_of s p"
    and f: "\<And>p. flags_of s' p = flags_of s p \<or> page_used s p \<and> page_used s' p"
  shows "mm_inv s' A P"
proof -
  have fb: "free_blocks s' = free_blocks s" using fl by (simp add: free_blocks_def)
  have u: "page_used s' p = page_used s p" "is_free s' p = is_free s p" for p
    using f [of p] by (auto simp: page_used_def is_free_def)
  have z: "flags_of s' p = 0" if "flags_of s p = 0" for p
    using f [of p] that by (auto simp: page_used_def)
  have us: "flags_of s' p AND PAGE_FLAG_USED \<noteq> 0" if "flags_of s p AND PAGE_FLAG_USED \<noteq> 0" for p
    using f [of p] that by (auto simp: page_used_def)
  have c: "coalesced s'" using mm_invD(8) [OF assms(1)] by (simp add: coalesced_def fb)
  have w: "wf_blk (order_of s') x = wf_blk (order_of s) x" for x by (simp only: o)
  show ?thesis
  proof (rule mm_invI, unfold fb fl u w, goal_cases)
    case 1 then show ?case by (rule mm_invD(1) [OF assms(1)])
  next
    case 2 then show ?case by (rule mm_invD(2) [OF assms(1)])
  next
    case 3 then show ?case by (intro z) (rule mm_invD(3) [OF assms(1)])
  next
    case 4 then show ?case by (rule mm_invD(4) [OF assms(1)])
  next
    case 5 then show ?case by (rule mm_invD(5) [OF assms(1)])
  next
    case 6 show ?case by (rule mm_invD(6) [OF assms(1)])
  next
    case 7 show ?case by (rule mm_invD(7) [OF assms(1)])
  next
    case 8 show ?case by (rule c)
  next
    case (9 p) then show ?case using mm_invD(9) [OF assms(1), of p] us [of p] by (simp add: o)
  qed
qed

lemma vmemset_ok:
  "(\<And>i. i < n \<Longrightarrow> virt_to_phys k (a + of_nat i) = Some (p + of_nat i)) \<Longrightarrow>
     vmemset k a c n m = Some (\<lambda>x. if \<exists>i<n. x = p + of_nat i then c else m x)"
proof (induction n arbitrary: a p m)
  case (Suc n)
  have "vmemset k (a + 1) c n (m(p := c)) =
      Some (\<lambda>x. if \<exists>i<n. x = (p + 1) + of_nat i then c else (m(p := c)) x)"
  proof (rule Suc.IH)
    fix i assume "i < n"
    then show "virt_to_phys k (a + 1 + of_nat i) = Some (p + 1 + of_nat i)"
      using Suc.prems [of "Suc i"] by (simp add: algebra_simps)
  qed
  moreover have "(\<exists>i<Suc n. x = p + of_nat i) \<longleftrightarrow> x = p \<or> (\<exists>i<n. x = (p + 1) + of_nat i)" for x :: u32
    by (auto simp: less_Suc_eq_0_disj algebra_simps)
  ultimately show ?case using Suc.prems [of 0] by (auto simp: fun_eq_iff)
qed simp

definition alloc_flags :: "u32 \<Rightarrow> u8" where
  "alloc_flags flags = (if flags AND ALLOC_CACHE \<noteq> 0 then PAGE_FLAG_USED OR PAGE_FLAG_CACHE else PAGE_FLAG_USED)"

lemma alloc_finish_ok:
  "(\<And>q. p \<le> q \<Longrightarrow> q < p + n \<Longrightarrow> flags_of s q = PAGE_FLAG_USED) \<Longrightarrow>
     alloc_finish first flags p i n s = Some (s\<lparr>mm_pages := (\<lambda>q. if p \<le> q \<and> q < p + n
        then (mm_pages s q)\<lparr>pg_addr := first + PAGE_SIZE * (i + of_nat (q - p)), pg_flags := alloc_flags flags\<rparr>
        else mm_pages s q)\<rparr>)"
proof (induction n arbitrary: p i s)
  case 0
  have "(\<lambda>q. if p \<le> q \<and> q < p + 0 then f q else mm_pages s q) = mm_pages s" for f by (rule ext) auto
  then show ?case by (simp only: alloc_finish.simps) simp
next
  case (Suc n)
  let ?g = "\<lambda>q. (mm_pages s q)\<lparr>pg_addr := first + PAGE_SIZE * (i + of_nat (q - p)), pg_flags := alloc_flags flags\<rparr>"
  let ?s1 = "s\<lparr>mm_pages := (mm_pages s)(p := ?g p)\<rparr>"
  have f: "flags_of s p = PAGE_FLAG_USED" using Suc.prems [of p] by simp
  have "alloc_finish first flags p i (Suc n) s = alloc_finish first flags (p + 1) (i + 1) n ?s1"
    using f by (cases "mm_pages s p") (simp add: Let_def set_page_addr_def set_flags_def alloc_flags_def PAGE_FLAG_USED_def PAGE_FLAG_PERM_def)
  also have "\<dots> = Some (?s1\<lparr>mm_pages := (\<lambda>q. if p + 1 \<le> q \<and> q < p + 1 + n
        then (mm_pages ?s1 q)\<lparr>pg_addr := first + PAGE_SIZE * (i + 1 + of_nat (q - (p + 1))), pg_flags := alloc_flags flags\<rparr>
        else mm_pages ?s1 q)\<rparr>)"
    by (rule Suc.IH) (use Suc.prems in simp)
  also have "(\<lambda>q. if p + 1 \<le> q \<and> q < p + 1 + n
        then (mm_pages ?s1 q)\<lparr>pg_addr := first + PAGE_SIZE * (i + 1 + of_nat (q - (p + 1))), pg_flags := alloc_flags flags\<rparr>
        else mm_pages ?s1 q) = (\<lambda>q. if p \<le> q \<and> q < p + Suc n then ?g q else mm_pages s q)" (is "?l = ?r")
  proof
    fix q
    consider "q = p" | "p + 1 \<le> q" | "q < p" by linarith
    then show "?l q = ?r q"
    proof cases
      case 2
      then have "q - p = Suc (q - (p + 1))" by arith
      then have "(of_nat (q - p) :: u32) = 1 + of_nat (q - (p + 1))" by simp
      then show ?thesis using 2 by (simp add: add.assoc)
    qed simp_all
  qed
  finally show ?case by simp
qed

definition kmapped :: "vm \<Rightarrow> nat \<Rightarrow> bool" where
  "kmapped v q = (q < NUM_PAGES \<and> (\<exists>j<KERNEL_PAGES. j < unat (kernel_next_page (vm_map v))
     \<and> page_to_virt v q = kvirt j \<and> unat (pte_physaddr (kslot (vm_map v) j)) = q))"

lemma page_to_phys_unat:
  assumes "q < NUM_PAGES" and "unat off < 4096"
  shows "unat (page_to_phys q + off) = q * 4096 + unat off"
proof -
  have "unat (of_nat q :: u32) = q" using assms by (intro unat_of_nat_less) (simp add: NUM_PAGES_def NUM_ENTRIES_def)
  then show ?thesis using assms
    by (simp add: page_to_phys_def unat_word_ariths PAGE_SIZE_def NUM_PAGES_def NUM_ENTRIES_def)
qed

lemma phys_to_page_to_phys: "q < NUM_PAGES \<Longrightarrow> phys_to_page (page_to_phys q) = q"
  using page_to_phys_unat [of q 0] by (simp add: phys_to_page_def phys_to_pageidx_def unat_div PAGE_SIZE_def)

lemma kslot_translate:
  assumes "j < KERNEL_PAGES" and "unat (pte_physaddr (kslot k j)) = q" and "q < NUM_PAGES" and "unat off < 4096"
  shows "virt_to_phys k (kvirt j + off) = Some (page_to_phys q + off)"
proof -
  obtain x where "virt_to_phys k (kvirt j + off) = Some x" "unat x = q * 4096 + unat off"
    using virt_to_phys_kvirt [OF assms(1,4), of k] assms(2) by auto
  then show ?thesis using page_to_phys_unat [OF assms(3,4)] by (simp add: word_unat_eq_iff)
qed

lemma kmapped_translate:
  "kmapped v q \<Longrightarrow> unat off < 4096 \<Longrightarrow>
     virt_to_phys (vm_map v) (page_to_virt v q + off) = Some (page_to_phys q + off)"
  unfolding kmapped_def using kslot_translate by metis

lemma kentry_physaddr:
  assumes "q < NUM_PAGES"
  shows "unat (pte_physaddr (kentry (page_to_phys q))) = q"
  using page_to_phys_unat [OF assms, of 0] assms
  by (simp add: kentry_def unat_ucast unat_drop_bit NUM_PAGES_def NUM_ENTRIES_def)

lemma page_to_phys_add: "page_to_phys p + PAGE_SIZE * of_nat d = page_to_phys (p + d)"
  by (simp add: page_to_phys_def algebra_simps)

lemma kvirt_add: "kvirt j + PAGE_SIZE * of_nat d = kvirt (j + d)"
  by (simp add: kvirt_def algebra_simps)

lemma byte_split:
  fixes i :: nat
  shows "(of_nat i :: u32) = PAGE_SIZE * of_nat (i div 4096) + of_nat (i mod 4096)"
proof -
  have "(of_nat i :: u32) = of_nat (4096 * (i div 4096) + i mod 4096)" by simp
  then show ?thesis by (simp only: of_nat_add of_nat_mult) (simp add: PAGE_SIZE_def)
qed

lemma zero_run:
  assumes "\<And>d. d < n \<Longrightarrow> j + d < KERNEL_PAGES \<and> p + d < NUM_PAGES
      \<and> unat (pte_physaddr (kslot k (j + d))) = p + d"
  shows "vmemset k (kvirt j) 0 (n * 4096) m =
    Some (\<lambda>x. if unat x div 4096 \<in> run_pages (p, n) then 0 else m x)"
proof -
  have off: "unat (of_nat (i mod 4096) :: u32) = i mod 4096" for i
    by (rule unat_of_nat_less) (auto intro: less_trans [OF mod_less_divisor])
  have ph: "page_to_phys p + of_nat i = page_to_phys (p + i div 4096) + of_nat (i mod 4096)" for i
    unfolding byte_split [of i] by (simp add: page_to_phys_add [symmetric] add.assoc)
  have "virt_to_phys k (kvirt j + of_nat i) = Some (page_to_phys p + of_nat i)" if "i < n * 4096" for i
  proof -
    have d: "i div 4096 < n" using that by (simp add: div_less_iff_less_mult)
    have "kvirt j + of_nat i = kvirt (j + i div 4096) + of_nat (i mod 4096)"
      unfolding byte_split [of i] by (simp add: kvirt_add [symmetric] add.assoc)
    then show ?thesis
      unfolding ph using kslot_translate [of "j + i div 4096" k "p + i div 4096" "of_nat (i mod 4096)"] assms [OF d]
      by (simp only: off)
  qed
  note v = vmemset_ok [of "n * 4096" k "kvirt j" "page_to_phys p" 0 m, OF this]
  have "(\<exists>i<n * 4096. x = page_to_phys p + of_nat i) \<longleftrightarrow> unat x div 4096 \<in> run_pages (p, n)" for x :: u32
  proof
    assume "\<exists>i<n * 4096. x = page_to_phys p + of_nat i"
    then obtain i where i: "i < n * 4096" "x = page_to_phys (p + i div 4096) + of_nat (i mod 4096)" using ph by auto
    have d: "i div 4096 < n" using i(1) by (simp add: div_less_iff_less_mult)
    have "unat x = (p + i div 4096) * 4096 + i mod 4096"
      unfolding i(2) using page_to_phys_unat [of "p + i div 4096" "of_nat (i mod 4096)"] assms [OF d]
      by (simp only: off)
    then have "unat x div 4096 = p + i div 4096" by simp
    then show "unat x div 4096 \<in> run_pages (p, n)" using d by (simp add: run_pages_def)
  next
    assume r: "unat x div 4096 \<in> run_pages (p, n)"
    let ?i = "unat x - p * 4096"
    have le: "p * 4096 \<le> unat x" and lt: "?i < n * 4096" using r by (auto simp: run_pages_def)
    have "p < NUM_PAGES" using r assms [of 0] by (cases n) (auto simp: run_pages_def)
    then have pu: "unat (page_to_phys p) = p * 4096" using page_to_phys_unat [of p 0] by simp
    have "unat (x - page_to_phys p) = ?i" using le by (subst unat_diff_le) (simp_all add: pu)
    then have "x - page_to_phys p = of_nat ?i" by (rule unat_eq_of_nat)
    then have "x = page_to_phys p + of_nat ?i" by (simp add: algebra_simps)
    then show "\<exists>i<n * 4096. x = page_to_phys p + of_nat i" using lt by blast
  qed
  then show ?thesis using v by simp
qed

definition alloc_pages_effect :: "vm \<Rightarrow> vm \<Rightarrow> nat \<Rightarrow> nat \<Rightarrow> u32 \<Rightarrow> bool" where
  "alloc_pages_effect v v' p n flags =
     ((\<forall>q\<in>run_pages (p, n). kmapped v' q \<and> is_free (vm_mm v) q \<and> flags_of (vm_mm v') q = alloc_flags flags)
      \<and> (\<forall>q. q \<notin> run_pages (p, n) \<longrightarrow> flags_of (vm_mm v') q = flags_of (vm_mm v) q
           \<and> page_to_virt v' q = page_to_virt v q
           \<and> pg_compound_num (mm_pages (vm_mm v') q) = pg_compound_num (mm_pages (vm_mm v) q))
      \<and> (\<forall>d<n. page_to_virt v' (p + d) = kvirt (unat (kernel_next_page (vm_map v)) + d))
      \<and> (flags AND ALLOC_COMPOUND \<noteq> 0 \<longrightarrow> pg_compound_num (mm_pages (vm_mm v') p) = n)
      \<and> unat (kernel_next_page (vm_map v')) = unat (kernel_next_page (vm_map v)) + n
      \<and> (\<forall>j<unat (kernel_next_page (vm_map v)). kslot (vm_map v') j = kslot (vm_map v) j)
      \<and> vm_mem v' = (if flags AND ALLOC_ZERO \<noteq> 0
           then \<lambda>x. if unat x div 4096 \<in> run_pages (p, n) then 0 else vm_mem v x else vm_mem v))"

lemma map_pages_ok:
  assumes "unat (kernel_next_page k) + unat n \<le> KERNEL_PAGES" and "p + unat n \<le> NUM_PAGES"
  shows "\<exists>k'. map_pages (page_to_phys p) n k = Some (k', kvirt (unat (kernel_next_page k)))
    \<and> unat (kernel_next_page k') = unat (kernel_next_page k) + unat n
    \<and> (\<forall>d<unat n. unat (pte_physaddr (kslot k' (unat (kernel_next_page k) + d))) = p + d)
    \<and> (\<forall>j<KERNEL_PAGES. j < unat (kernel_next_page k) \<or> unat (kernel_next_page k) + unat n \<le> j
         \<longrightarrow> kslot k' j = kslot k j)"
proof -
  let ?m = "unat (kernel_next_page k)"
  obtain k' where k': "map_pages_loop (page_to_phys p) 0 (unat n) k = Some k'"
    "unat (kernel_next_page k') = ?m + unat n"
    "\<forall>j<KERNEL_PAGES. kslot k' j = (if ?m \<le> j \<and> j < ?m + unat n
       then kentry (page_to_phys p + PAGE_SIZE * (0 + of_nat (j - ?m))) else kslot k j)"
    using map_pages_loop_ok [OF assms(1), of "page_to_phys p" 0] by blast
  have "get_pageoff (page_to_phys p) = 0"
    by (simp add: word_unat_eq_iff unat_pageoff page_to_phys_def PAGE_SIZE_def unat_word_ariths mod_mod_cancel)
  then have f: "get_next_virt (page_to_phys p) k = kvirt ?m" by (simp add: get_next_virt_def kvirt_def)
  have "unat (pte_physaddr (kslot k' (?m + d))) = p + d" if "d < unat n" for d
    using that k'(3) assms by (simp add: page_to_phys_add kentry_physaddr)
  then show ?thesis using k' f by (simp add: map_pages_def)
qed

lemma alloc_finish_pages:
  assumes ef: "alloc_effect s s1 p n" and r1: "runs_inv s1 R"
  shows "\<exists>s2. alloc_finish (kvirt m) flags p 0 n s1 = Some s2 \<and> runs_inv s2 R
    \<and> (\<forall>q. flags_of s2 q = (if q \<in> run_pages (p, n) then alloc_flags flags else flags_of s q)
       \<and> pg_addr (mm_pages s2 q) = (if q \<in> run_pages (p, n) then kvirt (m + (q - p)) else pg_addr (mm_pages s q))
       \<and> pg_compound_num (mm_pages s2 q) = pg_compound_num (mm_pages s q))"
proof -
  define s2 where "s2 = s1\<lparr>mm_pages := (\<lambda>q. if p \<le> q \<and> q < p + n
        then (mm_pages s1 q)\<lparr>pg_addr := kvirt m + PAGE_SIZE * (0 + of_nat (q - p)), pg_flags := alloc_flags flags\<rparr>
        else mm_pages s1 q)\<rparr>"
  have s2: "alloc_finish (kvirt m) flags p 0 n s1 = Some s2" unfolding s2_def
    by (rule alloc_finish_ok) (use ef in \<open>simp add: alloc_effect_def\<close>)
  have ad: "pg_addr (mm_pages s2 q) = (if q \<in> run_pages (p, n) then kvirt (m + (q - p)) else pg_addr (mm_pages s q))" for q
    using ef kvirt_add [of m "q - p"] by (simp add: s2_def alloc_effect_def run_pages_def del: of_nat_diff Nat.add_diff_assoc)
  have fl: "flags_of s2 q = (if q \<in> run_pages (p, n) then alloc_flags flags else flags_of s q)"
    and cp: "pg_compound_num (mm_pages s2 q) = pg_compound_num (mm_pages s q)" for q
    using ef by (simp_all add: s2_def alloc_effect_def run_pages_def)
  have "mm_inv s2 (\<Union>(b, n)\<in>R. pieces b n) {}"
  proof (rule mm_inv_used_cong [of s1])
    show "mm_inv s1 (\<Union>(b, n)\<in>R. pieces b n) {}" using r1 by (simp add: runs_inv_def)
    show "flags_of s2 q = flags_of s1 q \<or> page_used s1 q \<and> page_used s2 q" for q
      using fl [of q] ef by (auto simp: alloc_effect_def page_used_def alloc_flags_def run_pages_def
        PAGE_FLAG_USED_def PAGE_FLAG_PERM_def PAGE_FLAG_CACHE_def)
  qed (simp_all add: s2_def)
  then have "runs_inv s2 R" using r1 by (simp add: runs_inv_def)
  then show ?thesis using s2 fl ad cp by blast
qed

lemma runs_inv_compound: "runs_inv (set_compound i c s) R = runs_inv s R"
  by (simp add: runs_inv_def mm_inv_compound)

lemma alloc_pages_ok:
  assumes inv: "runs_inv (vm_mm v) R" and n: "num \<noteq> 0" and room: "room_for (vm_mm v) (unat num)"
    and next_ok: "unat (kernel_next_page (vm_map v)) + unat num \<le> KERNEL_PAGES"
  shows "\<exists>v' p. alloc_pages num flags v = Some (v', p) \<and> runs_inv (vm_mm v') (insert (p, unat num) R)
    \<and> (p, unat num) \<notin> R \<and> alloc_pages_effect v v' p (unat num) flags"
proof -
  let ?n = "unat num" and ?m = "unat (kernel_next_page (vm_map v))"
  have n0: "0 < ?n" using n by (simp add: unat_gt_0)
  have mi: "mm_inv (vm_mm v) (\<Union>(b, n)\<in>R. pieces b n) {}" using inv by (simp add: runs_inv_def)
  obtain s1 p where s1: "do_alloc_pages ?n (vm_mm v) = Some (s1, p)"
    using do_alloc_pages_ok [OF mi n0] alloc_possible_iff [OF mi, of ?n] room by blast
  from runs_inv_alloc [OF inv this] have r1: "runs_inv s1 (insert (p, ?n) R)" and fresh: "(p, ?n) \<notin> R"
    and ef: "alloc_effect (vm_mm v) s1 p ?n" by auto
  have last: "p + (?n - 1) < NUM_PAGES" using ef n0 by (simp add: alloc_effect_def)
  then have pn: "p + ?n \<le> NUM_PAGES" using n0 by linarith
  obtain k1 where k1: "map_pages (page_to_phys p) num (vm_map v) = Some (k1, kvirt ?m)"
    "unat (kernel_next_page k1) = ?m + ?n"
    "\<forall>d<?n. unat (pte_physaddr (kslot k1 (?m + d))) = p + d"
    "\<forall>j<KERNEL_PAGES. j < ?m \<or> ?m + ?n \<le> j \<longrightarrow> kslot k1 j = kslot (vm_map v) j"
    using map_pages_ok [OF next_ok pn] by blast
  obtain s2 where s2: "alloc_finish (kvirt ?m) flags p 0 ?n s1 = Some s2" "runs_inv s2 (insert (p, ?n) R)"
    "\<forall>q. flags_of s2 q = (if q \<in> run_pages (p, ?n) then alloc_flags flags else flags_of (vm_mm v) q)
       \<and> pg_addr (mm_pages s2 q) = (if q \<in> run_pages (p, ?n) then kvirt (?m + (q - p)) else pg_addr (mm_pages (vm_mm v) q))
       \<and> pg_compound_num (mm_pages s2 q) = pg_compound_num (mm_pages (vm_mm v) q)"
    using alloc_finish_pages [OF ef r1] by blast
  define s3 where "s3 = (if flags AND ALLOC_COMPOUND \<noteq> 0 then set_compound p ?n s2 else s2)"
  define m1 where "m1 = (if flags AND ALLOC_ZERO \<noteq> 0
     then \<lambda>x. if unat x div 4096 \<in> run_pages (p, ?n) then 0 else vm_mem v x else vm_mem v)"
  have "unat (num * PAGE_SIZE) = ?n * 4096"
    using next_ok by (simp add: PAGE_SIZE_def unat_word_ariths KERNEL_PAGES_def)
  moreover have "vmemset k1 (kvirt ?m) 0 (?n * 4096) (vm_mem v) =
      Some (\<lambda>x. if unat x div 4096 \<in> run_pages (p, ?n) then 0 else vm_mem v x)"
    by (rule zero_run) (use next_ok pn k1(3) in auto)
  ultimately have a: "alloc_pages num flags v = Some (\<lparr>vm_mm = s3, vm_map = k1, vm_mem = m1\<rparr>, p)"
    using s1 k1(1) s2(1) by (simp add: alloc_pages_def s3_def m1_def Let_def)
  let ?v' = "\<lparr>vm_mm = s3, vm_map = k1, vm_mem = m1\<rparr>"
  have pg: "flags_of s3 q = flags_of s2 q" "pg_addr (mm_pages s3 q) = pg_addr (mm_pages s2 q)"
    "pg_compound_num (mm_pages s3 q) = (if q = p \<and> flags AND ALLOC_COMPOUND \<noteq> 0 then ?n
       else pg_compound_num (mm_pages s2 q))" for q
    by (simp_all add: s3_def set_compound_def)
  have "kmapped ?v' (p + d)" if "d < ?n" for d
    unfolding kmapped_def using that k1(2,3) s2(3) pg pn next_ok
    by (intro conjI exI [of _ "?m + d"]) (simp_all add: run_pages_def page_to_virt_def)
  moreover have "q = p + (q - p) \<and> q - p < ?n" if "q \<in> run_pages (p, ?n)" for q
    using that by (auto simp: run_pages_def)
  ultimately have "kmapped ?v' q" if "q \<in> run_pages (p, ?n)" for q using that by metis
  moreover have "is_free (vm_mm v) q" if "q \<in> run_pages (p, ?n)" for q
    using ef that by (simp add: alloc_effect_def run_pages_def)
  moreover have "page_to_virt ?v' (p + d) = kvirt (?m + d)" if "d < ?n" for d
    using that s2(3) by (simp add: page_to_virt_def pg run_pages_def)
  moreover have "p \<in> run_pages (p, ?n)" using n0 by (simp add: run_pages_def)
  ultimately have "alloc_pages_effect v ?v' p ?n flags"
    using s2(3) k1(2,4) next_ok by (auto simp: alloc_pages_effect_def pg page_to_virt_def m1_def)
  moreover have "runs_inv s3 (insert (p, ?n) R)" using s2(2) by (simp add: s3_def runs_inv_compound)
  ultimately show ?thesis using a fresh by auto
qed

section \<open>Page tables in memory\<close>

lemma pte_of_word_of_pte [simp]: "pte_of_word (word_of_pte e) = e"
proof -
  have "ucast (word_of_pte e) = pte_flags e"
    by (rule bit_word_eqI) (auto simp: word_of_pte_def bit_simps)
  moreover have "ucast (drop_bit 12 (word_of_pte e)) = pte_physaddr e"
  proof (rule bit_word_eqI)
    fix n assume "n < LENGTH(20)"
    then show "bit (ucast (drop_bit 12 (word_of_pte e)) :: 20 word) n = bit (pte_physaddr e) n"
      using bit_imp_le_length [of "pte_flags e" "12 + n"] by (auto simp: word_of_pte_def bit_simps)
  qed
  ultimately show ?thesis by (simp add: pte_of_word_def)
qed

lemma read32_bytes:
  "read32 (\<lambda>x. if x = a then ucast w else if x = a + 1 then ucast (drop_bit 8 w)
     else if x = a + 2 then ucast (drop_bit 16 w) else if x = a + 3 then ucast (drop_bit 24 w) else m x) a = w"
proof (rule bit_word_eqI)
  fix n assume n: "n < LENGTH(32)"
  then consider "n < 8" | "8 \<le> n" "n < 16" | "16 \<le> n" "n < 24" | "24 \<le> n" "n < 32" by fastforce
  then show "bit (read32 (\<lambda>x. if x = a then ucast w else if x = a + 1 then ucast (drop_bit 8 w)
     else if x = a + 2 then ucast (drop_bit 16 w) else if x = a + 3 then ucast (drop_bit 24 w) else m x) a) n = bit w n"
    using bit_imp_le_length [of w n] n by cases (auto simp: read32_def bit_simps)
qed

lemma read32_write32: "read32 (write32 m a w) a = w"
  using read32_bytes [of a w m] by (simp add: write32_def fun_upd_def read32_def)

lemma read32_other:
  assumes "\<And>c d. c < 4 \<Longrightarrow> d < 4 \<Longrightarrow> b + c \<noteq> a + d"
  shows "read32 (write32 m a w) b = read32 m b"
proof -
  have "write32 m a w (b + c) = m (b + c)" if "c < 4" for c
    using assms [OF that, of 0] assms [OF that, of 1] assms [OF that, of 2] assms [OF that, of 3]
    by (simp add: write32_def)
  from this [of 0] this [of 1] this [of 2] this [of 3] show ?thesis by (simp add: read32_def)
qed

lemma entry_addr:
  assumes "f < NUM_PAGES" and "idx < 1024" and "c < 4"
  shows "unat (page_to_phys f + 4 * idx + c) = f * 4096 + 4 * unat idx + unat c"
proof -
  have "unat idx < 1024" "unat c < 4" using assms by (simp_all add: word_less_nat_alt)
  then have "unat (4 * idx + c) = 4 * unat idx + unat c" by (simp add: unat_word_ariths)
  then show ?thesis
    using page_to_phys_unat [OF assms(1), of "4 * idx + c"] \<open>unat idx < 1024\<close> \<open>unat c < 4\<close> by (simp add: add.assoc)
qed

lemma ptab_at_store:
  assumes "f < NUM_PAGES" "f' < NUM_PAGES" "i < 1024" "i' < 1024"
  shows "ptab_at (store_entry m (page_to_phys f) i e) (page_to_phys f') i' =
    (if f' = f \<and> i' = i then e else ptab_at m (page_to_phys f') i')"
proof (cases "f' = f \<and> i' = i")
  case True
  then show ?thesis by (simp add: ptab_at_def store_entry_def read32_write32)
next
  case False
  have "page_to_phys f' + 4 * i' + c \<noteq> page_to_phys f + 4 * i + d" if "c < 4" "d < 4" for c d
  proof
    assume "page_to_phys f' + 4 * i' + c = page_to_phys f + 4 * i + d"
    then have e: "f' * 4096 + 4 * unat i' + unat c = f * 4096 + 4 * unat i + unat d"
      using entry_addr [of f' i' c] entry_addr [of f i d] assms that by simp
    have b: "unat i < 1024" "unat i' < 1024" "unat c < 4" "unat d < 4"
      using assms that by (simp_all add: word_less_nat_alt)
    have f: "f' = f" using e b by linarith
    have "(4 * unat i' + unat c) div 4 = (4 * unat i + unat d) div 4" using e unfolding f by simp
    then have "unat i' = unat i" using b by simp
    note this f
    then show False using False by (simp add: word_unat_eq_iff)
  qed
  then show ?thesis using False by (auto simp: ptab_at_def store_entry_def read32_other)
qed

lemma ptab_at_zero:
  assumes "f < NUM_PAGES" and "i < 1024" and "\<And>x. unat x div 4096 = f \<Longrightarrow> m x = 0"
  shows "ptab_at m (page_to_phys f) i = \<lparr>pte_flags = 0, pte_physaddr = 0\<rparr>"
proof -
  have "m (page_to_phys f + 4 * i + c) = 0" if "c < 4" for c
  proof (rule assms(3))
    show "unat (page_to_phys f + 4 * i + c) div 4096 = f"
      unfolding entry_addr [OF assms(1,2) that] using assms(2) that by (simp add: word_less_nat_alt)
  qed
  from this [of 0] this [of 1] this [of 2] this [of 3] show ?thesis
    by (simp add: ptab_at_def read32_def pte_of_word_def)
qed

lemma ptab_at_cong:
  assumes "f < NUM_PAGES" and "i < 1024" and "\<And>x. unat x div 4096 = f \<Longrightarrow> m x = m' x"
  shows "ptab_at m (page_to_phys f) i = ptab_at m' (page_to_phys f) i"
proof -
  have "m (page_to_phys f + 4 * i + c) = m' (page_to_phys f + 4 * i + c)" if "c < 4" for c
  proof (rule assms(3))
    show "unat (page_to_phys f + 4 * i + c) div 4096 = f"
      unfolding entry_addr [OF assms(1,2) that] using assms(2) that by (simp add: word_less_nat_alt)
  qed
  from this [of 0] this [of 1] this [of 2] this [of 3] show ?thesis
    by (simp add: ptab_at_def read32_def pte_of_word_def)
qed

section \<open>The abstract address space\<close>

definition tab_frame :: "vm \<Rightarrow> nat \<Rightarrow> u32 \<Rightarrow> nat" where
  "tab_frame v df i = unat (pte_physaddr (ptab_at (vm_mem v) (page_to_phys df) i))"

definition user_frame :: "vm \<Rightarrow> nat \<Rightarrow> u32 \<Rightarrow> u32 \<Rightarrow> nat" where
  "user_frame v df i j = (if tab_frame v df i = 0 then 0
     else unat (pte_physaddr (ptab_at (vm_mem v) (page_to_phys (tab_frame v df i)) j)))"

definition tables :: "vm \<Rightarrow> nat \<Rightarrow> nat set" where
  "tables v df = insert df {t. \<exists>i<768. t = tab_frame v df i \<and> t \<noteq> 0}"

text \<open>
  \<open>uspace v df\<close>: the frame \<open>df\<close> is a page directory that the kernel can reach, as are the
  tables its user entries point to; none of these frames is free and no two coincide.
\<close>

definition uspace :: "vm \<Rightarrow> nat \<Rightarrow> bool" where
  "uspace v df = ((\<forall>t\<in>tables v df. kmapped v t \<and> \<not> is_free (vm_mm v) t)
     \<and> (\<forall>i<768. tab_frame v df i \<noteq> df)
     \<and> (\<forall>i<768. \<forall>i'<768. tab_frame v df i = tab_frame v df i' \<longrightarrow> tab_frame v df i \<noteq> 0 \<longrightarrow> i = i'))"

lemma kmapped_base: "kmapped v q \<Longrightarrow> virt_to_phys (vm_map v) (page_to_virt v q) = Some (page_to_phys q)"
  using kmapped_translate [of v q 0] by simp

lemma kmapped_nonnull: "kmapped v q \<Longrightarrow> page_to_virt v q \<noteq> 0"
  using kvirt_index(4) [of _ 0] by (auto simp: kmapped_def)

lemma entry_phys: "tabentry_get_phys t i = page_to_phys (unat (pte_physaddr (t i)))"
  by (simp add: tabentry_get_phys_def page_to_phys_def push_bit_eq_mult PAGE_SIZE_def unsigned_ucast_eq)


lemma tab_frame_less: "tab_frame v df i < NUM_PAGES"
  using unsigned_less [of "pte_physaddr (ptab_at (vm_mem v) (page_to_phys df) i)"]
  by (simp add: tab_frame_def NUM_PAGES_def NUM_ENTRIES_def)

lemma page_to_phys_zero: "q < NUM_PAGES \<Longrightarrow> page_to_phys q = 0 \<longleftrightarrow> q = 0"
  using page_to_phys_unat [of q 0] by (auto simp: word_unat_eq_iff page_to_phys_def)

lemma uspaceD:
  assumes "uspace v df"
  shows "kmapped v df" and "\<not> is_free (vm_mm v) df"
    and "i < 768 \<Longrightarrow> tab_frame v df i \<noteq> 0 \<Longrightarrow> kmapped v (tab_frame v df i) \<and> \<not> is_free (vm_mm v) (tab_frame v df i)"
    and "i < 768 \<Longrightarrow> tab_frame v df i \<noteq> df"
    and "i < 768 \<Longrightarrow> i' < 768 \<Longrightarrow> tab_frame v df i = tab_frame v df i' \<Longrightarrow> tab_frame v df i \<noteq> 0 \<Longrightarrow> i = i'"
  using assms by (auto simp: uspace_def tables_def)

lemma dir_get_tab_ok:
  assumes "uspace v df" and "i < 768"
  shows "dir_get_tab v (page_to_virt v df) i =
    Some (if tab_frame v df i = 0 then 0 else page_to_virt v (tab_frame v df i))"
  using kmapped_base [OF uspaceD(1) [OF assms(1)]] page_to_phys_zero [OF tab_frame_less, of v df i]
    phys_to_page_to_phys [OF tab_frame_less, of v df i]
  by (auto simp: dir_get_tab_def direntry_get_phys_def entry_phys phys_to_virt_def tab_frame_def [symmetric])

lemma do_user_get_page_ok:
  assumes "uspace v df" and "i < 768"
  shows "do_user_get_page v (page_to_virt v df) i j = Some (page_to_phys (user_frame v df i j))"
proof (cases "tab_frame v df i = 0")
  case True
  then show ?thesis by (simp add: do_user_get_page_def dir_get_tab_ok [OF assms] user_frame_def page_to_phys_def)
next
  case False
  note k = uspaceD(3) [OF assms False, THEN conjunct1]
  show ?thesis using False kmapped_nonnull [OF k] kmapped_base [OF k]
    by (simp add: do_user_get_page_def dir_get_tab_ok [OF assms] user_frame_def entry_phys)
qed

definition new_pte :: "u32 \<Rightarrow> ptab_entry" where
  "new_pte phys = \<lparr>pte_flags = ucast (USER_ENTRY AND 0xFFF), pte_physaddr = ucast (drop_bit 12 phys)\<rparr>"

lemma entry_set_ok:
  "kmapped v t \<Longrightarrow> entry_set v (page_to_virt v t) idx phys USER_ENTRY =
     Some (v\<lparr>vm_mem := store_entry (vm_mem v) (page_to_phys t) idx (new_pte phys)\<rparr>)"
  by (simp add: entry_set_def kmapped_base tabentry_set_def new_pte_def)

lemma kmapped_mem [simp]: "kmapped (v\<lparr>vm_mem := m\<rparr>) q = kmapped v q"
  by (simp add: kmapped_def page_to_virt_def)

lemma page_to_virt_mem [simp]: "page_to_virt (v\<lparr>vm_mem := m\<rparr>) q = page_to_virt v q"
  by (simp add: page_to_virt_def)

text \<open>An address space is determined by the contents of its tables.\<close>

lemma uspace_cong:
  assumes u: "uspace v d" and tf: "\<And>i. i < 768 \<Longrightarrow> tab_frame v' d i = tab_frame v d i"
    and k: "\<And>t. t \<in> tables v d \<Longrightarrow> kmapped v' t \<and> \<not> is_free (vm_mm v') t"
  shows "uspace v' d \<and> tables v' d = tables v d"
proof -
  have "tables v' d = tables v d" using tf by (auto simp: tables_def)
  then show ?thesis using u k tf unfolding uspace_def by simp
qed

lemma user_idx: "(i::u32) < 768 \<Longrightarrow> i < 1024"
  by (simp add: word_less_nat_alt)

lemma store_elsewhere:
  fixes e :: ptab_entry
  assumes u: "uspace v d" and f: "f < NUM_PAGES" "idx < 1024" and nt: "f \<notin> tables v d"
  defines "v' \<equiv> v\<lparr>vm_mem := store_entry (vm_mem v) (page_to_phys f) idx e\<rparr>"
  shows "uspace v' d \<and> tables v' d = tables v d \<and> (\<forall>i<768. tab_frame v' d i = tab_frame v d i)
    \<and> (\<forall>i<768. \<forall>j<1024. user_frame v' d i j = user_frame v d i j)"
proof -
  have d: "d < NUM_PAGES" "d \<noteq> f" using uspaceD(1) [OF u] nt by (auto simp: kmapped_def tables_def)
  have tf: "tab_frame v' d i = tab_frame v d i" if "i < 768" for i
    using user_idx [OF that] d f by (simp add: tab_frame_def v'_def ptab_at_store)
  have "user_frame v' d i j = user_frame v d i j" if "i < 768" "j < 1024" for i j
  proof (cases "tab_frame v d i = 0")
    case False
    then have "tab_frame v d i \<noteq> f" using nt that by (auto simp: tables_def)
    then show ?thesis using that tf f tab_frame_less [of v d i]
      by (simp add: user_frame_def) (simp add: v'_def ptab_at_store)
  qed (use that tf in \<open>simp add: user_frame_def\<close>)
  moreover have "uspace v' d \<and> tables v' d = tables v d"
    by (rule uspace_cong [OF u tf]) (use u in \<open>auto simp: v'_def uspace_def\<close>)
  ultimately show ?thesis using tf by blast
qed

lemma store_in_table:
  fixes e :: ptab_entry
  assumes u: "uspace v d" and i: "i < 768" and t: "tab_frame v d i \<noteq> 0" and j: "j < 1024"
  defines "v' \<equiv> v\<lparr>vm_mem := store_entry (vm_mem v) (page_to_phys (tab_frame v d i)) j e\<rparr>"
  shows "uspace v' d \<and> tables v' d = tables v d \<and> (\<forall>i'<768. \<forall>j'<1024. user_frame v' d i' j' =
     (if i' = i \<and> j' = j then unat (pte_physaddr e) else user_frame v d i' j'))"
proof -
  have d: "d < NUM_PAGES" using uspaceD(1) [OF u] by (simp add: kmapped_def)
  have tf: "tab_frame v' d k = tab_frame v d k" if "k < 768" for k
    using user_idx [OF that] d uspaceD(4) [OF u i] tab_frame_less [of v d i] j by (simp add: tab_frame_def v'_def ptab_at_store)
  have "user_frame v' d i' j' = (if i' = i \<and> j' = j then unat (pte_physaddr e) else user_frame v d i' j')"
    if "i' < 768" "j' < 1024" for i' j'
    using that tf t uspaceD(5) [OF u that(1) i] tab_frame_less [of v d i] tab_frame_less [of v d i'] j
    by (simp add: user_frame_def) (auto simp: v'_def ptab_at_store)
  moreover have "uspace v' d \<and> tables v' d = tables v d"
    by (rule uspace_cong [OF u tf]) (use u in \<open>auto simp: v'_def uspace_def\<close>)
  ultimately show ?thesis by blast
qed


lemma tab_in_tables: "i < 768 \<Longrightarrow> tab_frame v d i \<noteq> 0 \<Longrightarrow> tab_frame v d i \<in> tables v d"
  by (auto simp: tables_def)

lemma kmapped_alloc:
  assumes "alloc_pages_effect v v' p n flags" and "kmapped v q" and "\<not> is_free (vm_mm v) q"
  shows "kmapped v' q \<and> \<not> is_free (vm_mm v') q \<and> q \<notin> run_pages (p, n) \<and> page_to_virt v' q = page_to_virt v q"
proof -
  have q: "q \<notin> run_pages (p, n)" using assms(1,3) by (auto simp: alloc_pages_effect_def)
  then have "page_to_virt v' q = page_to_virt v q" "flags_of (vm_mm v') q = flags_of (vm_mm v) q"
    using assms(1) by (simp_all add: alloc_pages_effect_def)
  moreover have "unat (kernel_next_page (vm_map v')) = unat (kernel_next_page (vm_map v)) + n"
    "\<forall>j<unat (kernel_next_page (vm_map v)). kslot (vm_map v') j = kslot (vm_map v) j"
    using assms(1) by (simp_all add: alloc_pages_effect_def)
  ultimately show ?thesis using q assms(2,3) by (auto simp: kmapped_def is_free_def)
qed

lemma alloc_keeps_uspace:
  assumes u: "uspace v d" and a: "alloc_pages_effect v v' p n flags"
  shows "uspace v' d \<and> tables v' d = tables v d \<and> page_to_virt v' d = page_to_virt v d
    \<and> run_pages (p, n) \<inter> tables v d = {}
    \<and> (\<forall>i<768. tab_frame v' d i = tab_frame v d i)
    \<and> (\<forall>i<768. \<forall>j<1024. user_frame v' d i j = user_frame v d i j)"
proof -
  have t: "kmapped v' t \<and> \<not> is_free (vm_mm v') t \<and> t \<notin> run_pages (p, n) \<and> page_to_virt v' t = page_to_virt v t
      \<and> t < NUM_PAGES" if "t \<in> tables v d" for t
    using kmapped_alloc [OF a, of t] u that by (auto simp: uspace_def kmapped_def)
  have same: "vm_mem v' x = vm_mem v x" if "unat x div 4096 \<in> tables v d" for x
    using a t [OF that] by (auto simp: alloc_pages_effect_def)
  have p: "ptab_at (vm_mem v') (page_to_phys t) i = ptab_at (vm_mem v) (page_to_phys t) i"
    if "t \<in> tables v d" "i < 1024" for t i
    using t [OF that(1)] that same by (intro ptab_at_cong) auto
  have tf: "tab_frame v' d i = tab_frame v d i" if "i < 768" for i
    using p [of d i] user_idx [OF that] by (simp add: tab_frame_def tables_def)
  have "user_frame v' d i j = user_frame v d i j" if "i < 768" "j < 1024" for i j
    using tf [OF that(1)] p [of "tab_frame v d i" j] that tab_in_tables [of i v d] by (simp add: user_frame_def)
  moreover have "uspace v' d \<and> tables v' d = tables v d" by (rule uspace_cong [OF u tf]) (use t in blast)+
  moreover have "run_pages (p, n) \<inter> tables v d = {}" using t by blast
  moreover have "page_to_virt v' d = page_to_virt v d" using t [of d] by (simp add: tables_def)
  ultimately show ?thesis using tf by blast
qed


text \<open>A set of address spaces that share no table.\<close>

definition spaces_ok :: "vm \<Rightarrow> nat set \<Rightarrow> bool" where
  "spaces_ok v D = ((\<forall>d\<in>D. uspace v d) \<and> (\<forall>d\<in>D. \<forall>e\<in>D. d \<noteq> e \<longrightarrow> tables v d \<inter> tables v e = {}))"

lemma map_in_table:
  assumes sp: "spaces_ok v D" and d: "d \<in> D" and i: "i < 768" and j: "j < 1024" and t: "tab_frame v d i \<noteq> 0"
  shows "\<exists>v'. entry_set v (page_to_virt v (tab_frame v d i)) j phys USER_ENTRY = Some v'
    \<and> spaces_ok v' D \<and> vm_mm v' = vm_mm v \<and> vm_map v' = vm_map v
    \<and> (\<forall>e\<in>D. \<forall>i'<768. \<forall>j'<1024. user_frame v' e i' j' =
        (if e = d \<and> i' = i \<and> j' = j then unat (pte_physaddr (new_pte phys)) else user_frame v e i' j'))"
proof -
  have u: "uspace v e" if "e \<in> D" for e using sp that by (simp add: spaces_ok_def)
  let ?v' = "v\<lparr>vm_mem := store_entry (vm_mem v) (page_to_phys (tab_frame v d i)) j (new_pte phys)\<rparr>"
  have km: "kmapped v (tab_frame v d i)" using uspaceD(3) [OF u [OF d] i t] by blast
  note s1 = store_in_table [OF u [OF d] i t j, of "new_pte phys"]
  have s2: "uspace ?v' e \<and> tables ?v' e = tables v e \<and> (\<forall>i<768. tab_frame ?v' e i = tab_frame v e i)
    \<and> (\<forall>i<768. \<forall>j<1024. user_frame ?v' e i j = user_frame v e i j)" if e: "e \<in> D" "e \<noteq> d" for e
  proof (rule store_elsewhere [OF u [OF e(1)] tab_frame_less j])
    show "tab_frame v d i \<notin> tables v e"
      using sp d e tab_in_tables [OF i t] unfolding spaces_ok_def by blast
  qed
  have tb: "uspace ?v' e \<and> tables ?v' e = tables v e" if "e \<in> D" for e
    using s1 s2 [OF that] by (cases "e = d") auto
  then have "spaces_ok ?v' D" using sp by (simp add: spaces_ok_def)
  moreover have "user_frame ?v' e i' j' =
      (if e = d \<and> i' = i \<and> j' = j then unat (pte_physaddr (new_pte phys)) else user_frame v e i' j')"
    if "e \<in> D" "i' < 768" "j' < 1024" for e i' j'
    using s1 s2 [OF that(1)] that by (cases "e = d") auto
  ultimately show ?thesis using entry_set_ok [OF km] by simp
qed

lemma new_pte_page: "q < NUM_PAGES \<Longrightarrow> unat (pte_physaddr (new_pte (page_to_phys q))) = q"
  using kentry_physaddr [of q] by (simp add: kentry_def new_pte_def)

lemma add_table:
  assumes sp: "spaces_ok v D" and d: "d \<in> D" and i: "i < 768" and t: "tab_frame v d i = 0"
    and q: "q < NUM_PAGES" "q \<noteq> 0" "kmapped v q" "\<not> is_free (vm_mm v) q"
    and new: "\<And>e. e \<in> D \<Longrightarrow> q \<notin> tables v e"
    and zero: "\<And>x. unat x div 4096 = q \<Longrightarrow> vm_mem v x = 0"
  shows "\<exists>v'. entry_set v (page_to_virt v d) i (page_to_phys q) USER_ENTRY = Some v'
    \<and> spaces_ok v' D \<and> tab_frame v' d i = q \<and> vm_mm v' = vm_mm v \<and> vm_map v' = vm_map v
    \<and> (\<forall>e\<in>D. \<forall>i'<768. \<forall>j'<1024. user_frame v' e i' j' = user_frame v e i' j')"
proof -
  have u: "uspace v e" if "e \<in> D" for e using sp that by (simp add: spaces_ok_def)
  let ?v' = "v\<lparr>vm_mem := store_entry (vm_mem v) (page_to_phys d) i (new_pte (page_to_phys q))\<rparr>"
  have dl: "d < NUM_PAGES" using uspaceD(1) [OF u [OF d]] by (simp add: kmapped_def)
  have dq: "d \<noteq> q" using new [OF d] by (auto simp: tables_def)
  have tf: "tab_frame ?v' d i' = (if i' = i then q else tab_frame v d i')" if "i' < 768" for i'
    using user_idx [OF that] user_idx [OF i] dl new_pte_page [OF q(1)] by (simp add: tab_frame_def ptab_at_store)
  have tb: "tables ?v' d = insert q (tables v d)"
  proof
    show "tables ?v' d \<subseteq> insert q (tables v d)" using tf by (auto simp: tables_def)
    have "tab_frame v d k \<in> tables ?v' d" if "k < 768" "tab_frame v d k \<noteq> 0" for k
      using tab_in_tables [OF that(1), of ?v' d] tf [OF that(1)] t that(2) by (auto split: if_splits)
    moreover have "q \<in> tables ?v' d" using tab_in_tables [OF i, of ?v' d] tf [OF i] q(2) by simp
    moreover have "d \<in> tables ?v' d" by (simp add: tables_def)
    ultimately show "insert q (tables v d) \<subseteq> tables ?v' d" unfolding tables_def [of v] by blast
  qed
  have inj: "i1 = i2" if "i1 < 768" "i2 < 768" "tab_frame ?v' d i1 = tab_frame ?v' d i2" "tab_frame ?v' d i1 \<noteq> 0" for i1 i2
  proof -
    have "tab_frame v d k \<noteq> q" if "k < 768" for k using new [OF d] tab_in_tables [OF that, of v d] q(2) by auto
    then show ?thesis using that tf [OF that(1)] tf [OF that(2)] uspaceD(5) [OF u [OF d] that(1,2)]
      by (auto split: if_splits)
  qed
  have ud: "uspace ?v' d"
    unfolding uspace_def tb
  proof (intro conjI ballI allI impI)
    fix x assume "x \<in> insert q (tables v d)"
    then have "kmapped v x \<and> \<not> is_free (vm_mm v) x" using q u [OF d] unfolding uspace_def by blast
    then show "kmapped ?v' x" "\<not> is_free (vm_mm ?v') x" by simp_all
  next
    show "tab_frame ?v' d k \<noteq> d" if "k < 768" for k
      using tf [OF that] dq uspaceD(4) [OF u [OF d] that] by simp
  qed (rule inj)
  have uf: "user_frame ?v' d i' j' = user_frame v d i' j'" if "i' < 768" "j' < 1024" for i' j'
  proof (cases "i' = i")
    case True
    have "ptab_at (vm_mem v) (page_to_phys q) j' = \<lparr>pte_flags = 0, pte_physaddr = 0\<rparr>"
      by (rule ptab_at_zero [OF q(1) that(2) zero])
    then show ?thesis using True tf [OF i] t q dl dq that user_idx [OF i]
      by (simp add: user_frame_def) (simp add: ptab_at_store)
  next
    case False
    then show ?thesis using tf [OF that(1)] uspaceD(4) [OF u [OF d] that(1)] dl that user_idx [OF i] tab_frame_less [of v d i']
      by (simp add: user_frame_def) (simp add: ptab_at_store)
  qed
  have s2: "uspace ?v' e \<and> tables ?v' e = tables v e \<and> (\<forall>i<768. tab_frame ?v' e i = tab_frame v e i)
    \<and> (\<forall>i<768. \<forall>j<1024. user_frame ?v' e i j = user_frame v e i j)" if e: "e \<in> D" "e \<noteq> d" for e
  proof (rule store_elsewhere [OF u [OF e(1)] dl user_idx [OF i]])
    show "d \<notin> tables v e" using sp d e unfolding spaces_ok_def tables_def by blast
  qed
  have "spaces_ok ?v' D"
    unfolding spaces_ok_def
  proof (intro conjI ballI impI)
    show "uspace ?v' e" if "e \<in> D" for e using ud s2 [OF that] by (cases "e = d") auto
    have x: "tables ?v' e = (if e = d then insert q (tables v d) else tables v e)" if "e \<in> D" for e
      using tb s2 [OF that] by (cases "e = d") auto
    show "tables ?v' e \<inter> tables ?v' e' = {}" if "e \<in> D" "e' \<in> D" "e \<noteq> e'" for e e'
      using x [OF that(1)] x [OF that(2)] new [OF that(1)] new [OF that(2)] sp that d
      unfolding spaces_ok_def by auto
  qed
  moreover have "user_frame ?v' e i' j' = user_frame v e i' j'" if "e \<in> D" "i' < 768" "j' < 1024" for e i' j'
    using uf [OF that(2,3)] s2 [OF that(1)] that by (cases "e = d") auto
  ultimately show ?thesis using entry_set_ok [OF uspaceD(1) [OF u [OF d]]] tf [OF i] by simp
qed


lemma do_user_map_page_ok:
  assumes sp: "spaces_ok v D" and d: "d \<in> D" and i: "i < 768" and j: "j < 1024"
    and inv: "runs_inv (vm_mm v) R" and room: "room_for (vm_mm v) 1"
    and nx: "unat (kernel_next_page (vm_map v)) < KERNEL_PAGES" and z: "\<not> is_free (vm_mm v) 0"
  shows "\<exists>v' R'. do_user_map_page (page_to_virt v d) i j phys v = Some v'
    \<and> spaces_ok v' D \<and> runs_inv (vm_mm v') R' \<and> R \<subseteq> R' \<and> (\<forall>e\<in>D. page_to_virt v' e = page_to_virt v e)
    \<and> (\<forall>e\<in>D. \<forall>i'<768. \<forall>j'<1024. user_frame v' e i' j' =
        (if e = d \<and> i' = i \<and> j' = j then unat (pte_physaddr (new_pte phys)) else user_frame v e i' j'))"
proof (cases "tab_frame v d i = 0")
  case False
  have u: "uspace v d" using sp d by (simp add: spaces_ok_def)
  have nn: "page_to_virt v (tab_frame v d i) \<noteq> 0" using kmapped_nonnull uspaceD(3) [OF u i False] by blast
  obtain v' where v': "entry_set v (page_to_virt v (tab_frame v d i)) j phys USER_ENTRY = Some v'"
    "spaces_ok v' D" "vm_mm v' = vm_mm v" "\<forall>e\<in>D. \<forall>i'<768. \<forall>j'<1024. user_frame v' e i' j' =
        (if e = d \<and> i' = i \<and> j' = j then unat (pte_physaddr (new_pte phys)) else user_frame v e i' j')"
    using map_in_table [OF sp d i j False] by blast
  have "do_user_map_page (page_to_virt v d) i j phys v = Some v'"
    using v'(1) False nn by (simp add: do_user_map_page_def dir_get_tab_ok [OF u i])
  moreover have "page_to_virt v' e = page_to_virt v e" for e using v'(3) by (simp add: page_to_virt_def)
  moreover have "runs_inv (vm_mm v') R" using inv v'(3) by simp
  ultimately show ?thesis using v'(2,4) by (intro exI [of _ v'] exI [of _ R]) simp
next
  case True
  have sps: "uspace v e" if "e \<in> D" for e using sp that by (simp add: spaces_ok_def)
  obtain v1 q where a: "alloc_pages 1 ALLOC_ZERO v = Some (v1, q)" "runs_inv (vm_mm v1) (insert (q, 1) R)"
    "alloc_pages_effect v v1 q 1 ALLOC_ZERO"
    using alloc_pages_ok [OF inv, of 1 ALLOC_ZERO] room nx by auto
  have k: "e \<in> D \<Longrightarrow> uspace v1 e" "e \<in> D \<Longrightarrow> tables v1 e = tables v e" "e \<in> D \<Longrightarrow> page_to_virt v1 e = page_to_virt v e"
    "e \<in> D \<Longrightarrow> q \<notin> tables v e" "e \<in> D \<Longrightarrow> \<forall>i<768. tab_frame v1 e i = tab_frame v e i"
    "e \<in> D \<Longrightarrow> \<forall>i<768. \<forall>j<1024. user_frame v1 e i j = user_frame v e i j" for e
    using alloc_keeps_uspace [OF sps a(3), of e] by (auto simp: run_pages_def)
  have sp1: "spaces_ok v1 D" using sp k unfolding spaces_ok_def by simp
  have q: "kmapped v1 q" "is_free (vm_mm v) q" "flags_of (vm_mm v1) q = alloc_flags ALLOC_ZERO"
    and zq: "unat x div 4096 = q \<Longrightarrow> vm_mem v1 x = 0" for x
    using a(3) by (auto simp: alloc_pages_effect_def run_pages_def ALLOC_ZERO_def)
  have q0: "q \<noteq> 0" "q < NUM_PAGES" using q(1,2) z by (auto simp: kmapped_def intro!: Nat.gr0I)
  have nf: "\<not> is_free (vm_mm v1) q" using q(3) by (auto simp: is_free_def alloc_flags_def PAGE_FLAG_USED_def PAGE_FLAG_CACHE_def)
  obtain v2 where v2: "entry_set v1 (page_to_virt v1 d) i (page_to_phys q) USER_ENTRY = Some v2"
    "spaces_ok v2 D" "tab_frame v2 d i = q" "vm_mm v2 = vm_mm v1" "vm_map v2 = vm_map v1"
    "\<forall>e\<in>D. \<forall>i'<768. \<forall>j'<1024. user_frame v2 e i' j' = user_frame v1 e i' j'"
    using add_table [OF sp1 d i _ q0(2,1) q(1) nf _ zq] k d True i by auto
  obtain v3 where v3: "entry_set v2 (page_to_virt v2 (tab_frame v2 d i)) j phys USER_ENTRY = Some v3"
    "spaces_ok v3 D" "vm_mm v3 = vm_mm v2" "\<forall>e\<in>D. \<forall>i'<768. \<forall>j'<1024. user_frame v3 e i' j' =
        (if e = d \<and> i' = i \<and> j' = j then unat (pte_physaddr (new_pte phys)) else user_frame v2 e i' j')"
    using map_in_table [OF v2(2) d i j] v2(3) q0(1) by metis
  have "do_user_map_page (page_to_virt v d) i j phys v = Some v3"
    using a(1) v2(1) v3(1) True k(3) [OF d]
    by (simp add: do_user_map_page_def dir_get_tab_ok [OF sps [OF d] i] alloc_page_def v2(3))
  moreover have "page_to_virt v3 e = page_to_virt v e" if "e \<in> D" for e
    using k(3) [OF that] v2(4) v3(3) by (simp add: page_to_virt_def)
  moreover have "runs_inv (vm_mm v3) (insert (q, 1) R)" using a(2) v2(4) v3(3) by simp
  moreover have "user_frame v3 e i' j' = (if e = d \<and> i' = i \<and> j' = j then unat (pte_physaddr (new_pte phys))
      else user_frame v e i' j')" if "e \<in> D" "i' < 768" "j' < 1024" for e i' j'
    using v3(4) v2(6) k(6) [OF that(1)] that by simp
  ultimately show ?thesis using v3(2) by (intro exI [of _ v3] exI [of _ "insert (q, 1) R"]) auto
qed

lemma user_addr_idx:
  assumes "a < VIRTUAL_BASE"
  shows "addr_to_diridx a < 768" and "addr_to_tabidx a < 1024"
  using assms by (simp_all add: word_less_nat_alt unat_diridx unat_tabidx VIRTUAL_BASE_def)

lemma same_page_iff:
  "addr_to_diridx a = addr_to_diridx b \<and> addr_to_tabidx a = addr_to_tabidx b \<longleftrightarrow> a div PAGE_SIZE = b div PAGE_SIZE"
proof -
  have "unat a div 4194304 = unat a div 4096 div 1024" for a :: u32 by (simp add: div_mult2_eq [symmetric])
  then have "addr_to_diridx a = addr_to_diridx b \<and> addr_to_tabidx a = addr_to_tabidx b \<longleftrightarrow> unat a div 4096 = unat b div 4096"
    unfolding word_unat_eq_iff unat_diridx unat_tabidx by (metis div_mult_mod_eq)
  then show ?thesis by (simp add: word_unat_eq_iff unat_div PAGE_SIZE_def)
qed

lemma new_pte_phys: "page_to_phys (unat (pte_physaddr (new_pte phys))) = phys AND 0xFFFFF000"
proof (rule bit_word_eqI)
  fix n assume "n < LENGTH(32)"
  have e: "(0xFFFFF000 :: u32) = push_bit 12 (mask 20)" by (simp add: mask_eq_exp_minus_1 push_bit_eq_mult)
  have "page_to_phys (unat (pte_physaddr (new_pte phys))) = push_bit 12 (ucast (ucast (drop_bit 12 phys) :: 20 word))"
    by (simp add: page_to_phys_def new_pte_def push_bit_eq_mult PAGE_SIZE_def)
  then show "bit (page_to_phys (unat (pte_physaddr (new_pte phys)))) n = bit (phys AND 0xFFFFF000) n"
    unfolding e using \<open>n < LENGTH(32)\<close> by (auto simp: bit_simps simp del: push_bit_mask_eq)
qed


section \<open>Properties\<close>

text \<open>
  C6. With room in the page allocator and in the kernel's half of the address space, allocating
  \<open>num\<close> pages returns. The pages were free and now carry the flags asked for; the kernel address
  of each translates to that page, the addresses are consecutive, translations handed out before
  are unchanged, the pages are zero when \<^verbatim>\<open>ALLOC_ZERO\<close> was given and no other byte of memory
  changes.
\<close>
theorem alloc_pages_mapped:
  assumes "runs_inv (vm_mm v) R" and "num \<noteq> 0" and "room_for (vm_mm v) (unat num)"
    and "unat (kernel_next_page (vm_map v)) + unat num \<le> KERNEL_PAGES"
  shows "\<exists>v' p. alloc_pages num flags v = Some (v', p) \<and> runs_inv (vm_mm v') (insert (p, unat num) R)
    \<and> alloc_pages_effect v v' p (unat num) flags
    \<and> (\<forall>q\<in>run_pages (p, unat num). \<forall>off<PAGE_SIZE.
         virt_to_phys (vm_map v') (page_to_virt v' q + off) = Some (page_to_phys q + off)
         \<and> virt_to_page (vm_map v') (page_to_virt v' q + off) = Some q)"
proof -
  obtain v' p where a: "alloc_pages num flags v = Some (v', p)" "runs_inv (vm_mm v') (insert (p, unat num) R)"
    "alloc_pages_effect v v' p (unat num) flags" using alloc_pages_ok [OF assms] by blast
  have "virt_to_phys (vm_map v') (page_to_virt v' q + off) = Some (page_to_phys q + off)
      \<and> virt_to_page (vm_map v') (page_to_virt v' q + off) = Some q"
    if "q \<in> run_pages (p, unat num)" "off < PAGE_SIZE" for q off
  proof -
    have k: "kmapped v' q" and o: "unat off < 4096"
      using a(3) that by (simp_all add: alloc_pages_effect_def PAGE_SIZE_def word_less_nat_alt)
    then have "q < NUM_PAGES" by (simp add: kmapped_def)
    then have "phys_to_page (page_to_phys q + off) = q"
      using page_to_phys_unat [of q off] o by (simp add: phys_to_page_def phys_to_pageidx_def unat_div PAGE_SIZE_def)
    then show ?thesis using kmapped_translate [OF k o] by (simp add: virt_to_page_def)
  qed
  then show ?thesis using a by blast
qed

definition small_vm :: vm where
  "small_vm = \<lparr>vm_mm = small_machine,
     vm_map = \<lparr>kptab = (\<lambda>_ _. \<lparr>pte_flags = 0, pte_physaddr = 0\<rparr>), kernel_next_page = 0\<rparr>, vm_mem = (\<lambda>_. 0xAA)\<rparr>"

lemma small_vm [simp]:
  "vm_mm small_vm = small_machine" "kernel_next_page (vm_map small_vm) = 0"
  by (simp_all add: small_vm_def)

theorem alloc_pages_mapped_witness:
  "\<exists>v' p. alloc_pages 3 (ALLOC_ZERO OR ALLOC_COMPOUND) small_vm = Some (v', p)
    \<and> virt_to_page (vm_map v') (page_to_virt v' p + 5) = Some p \<and> pg_compound_num (mm_pages (vm_mm v') p) = 3"
proof -
  obtain v' p where a: "alloc_pages 3 (ALLOC_ZERO OR ALLOC_COMPOUND) small_vm = Some (v', p)"
    "alloc_pages_effect small_vm v' p (unat (3::u32)) (ALLOC_ZERO OR ALLOC_COMPOUND)"
    and tr: "\<forall>q\<in>run_pages (p, unat (3::u32)). \<forall>off<PAGE_SIZE. virt_to_phys (vm_map v') (page_to_virt v' q + off) = Some (page_to_phys q + off)
         \<and> virt_to_page (vm_map v') (page_to_virt v' q + off) = Some q"
    using alloc_pages_mapped [of small_vm "{}" 3 "ALLOC_ZERO OR ALLOC_COMPOUND"] small_machine(2) small_machine_room [of 3]
    by (auto simp: KERNEL_PAGES_def)
  have "p \<in> run_pages (p, unat (3::u32))" "5 < PAGE_SIZE" by (simp_all add: run_pages_def PAGE_SIZE_def)
  then have "virt_to_page (vm_map v') (page_to_virt v' p + 5) = Some p" using tr by blast
  moreover have "pg_compound_num (mm_pages (vm_mm v') p) = 3"
    using a(2) by (simp add: alloc_pages_effect_def ALLOC_ZERO_def ALLOC_COMPOUND_def)
  ultimately show ?thesis using a(1) by blast
qed



lemma fresh_space:
  assumes "alloc_pages_effect v v' p 1 ALLOC_ZERO" and "p \<noteq> 0"
  shows "spaces_ok v' {p}"
proof -
  have k: "kmapped v' p" "flags_of (vm_mm v') p = alloc_flags ALLOC_ZERO"
    and z: "unat x div 4096 = p \<Longrightarrow> vm_mem v' x = 0" for x
    using assms by (auto simp: alloc_pages_effect_def run_pages_def ALLOC_ZERO_def)
  have "tab_frame v' p i = 0" if "i < 768" for i
    using ptab_at_zero [of p i "vm_mem v'"] k(1) z user_idx [OF that] by (simp add: tab_frame_def kmapped_def)
  then show ?thesis using k assms(2)
    by (auto simp: spaces_ok_def uspace_def tables_def is_free_def alloc_flags_def PAGE_FLAG_USED_def PAGE_FLAG_CACHE_def)
qed


end
