(* ===== verification/Slab_Cache.thy ===== *)
theory Slab_Cache
  imports Page_Map
begin

text \<open>
  The object caches of \<^verbatim>\<open>mm/cache.c\<close> and the kernel heap built on them, \<^verbatim>\<open>kmalloc\<close> and \<^verbatim>\<open>kfree\<close>
  of \<^verbatim>\<open>mm/mm.c\<close>. A cache page is a record keyed by its kernel address, its free list the array
  of indices that follows the header; the lists of full, partial and empty pages are HOL lists
  of such addresses. Pages come from the page allocator with the mapping of \<^verbatim>\<open>Page_Map\<close>, so the
  properties at the end hold for the whole path from \<^verbatim>\<open>kmalloc\<close> down to the free page lists.
\<close>

section \<open>The code\<close>

definition FREELIST_END :: u32 where "FREELIST_END = push_bit 31 1"
definition CACHE_FLAG_PERM :: u32 where "CACHE_FLAG_PERM = 1"

text \<open>Sizes of the structures on the 32-bit target.\<close>

definition sizeof_cache_page :: u32 where "sizeof_cache_page = 32"
definition sizeof_cache :: u32 where "sizeof_cache = 60"

record cache_page =
  cp_cache :: u32
  cp_left :: u32
  cp_free :: u32
  cp_freelist :: "u32 \<Rightarrow> u32"
  cp_mem :: u32
  cp_page :: nat

record cache =
  c_size :: u32
  c_max :: u32
  c_flags :: u32
  c_full :: "u32 list"
  c_partial :: "u32 list"
  c_empty :: "u32 list"

record heap =
  h_vm :: vm
  h_cp :: "u32 \<Rightarrow> cache_page"
  h_cache :: "u32 \<Rightarrow> cache"
  caches :: "u32 list"
  kalloc_cache :: "nat \<Rightarrow> u32"

definition objs_per_page :: "u32 \<Rightarrow> u32" where
  "objs_per_page sz = (PAGE_SIZE - sizeof_cache_page) div (sz + 4)"

definition meta_cache :: cache where
  "meta_cache = \<lparr>c_size = sizeof_cache, c_max = objs_per_page sizeof_cache, c_flags = CACHE_FLAG_PERM,
     c_full = [], c_partial = [], c_empty = []\<rparr>"

definition set_cp :: "u32 \<Rightarrow> cache_page \<Rightarrow> heap \<Rightarrow> heap" where
  "set_cp a p h = h\<lparr>h_cp := (h_cp h)(a := p)\<rparr>"

definition set_cache :: "u32 \<Rightarrow> cache \<Rightarrow> heap \<Rightarrow> heap" where
  "set_cache c k h = h\<lparr>h_cache := (h_cache h)(c := k)\<rparr>"

fun freelist_fill :: "u32 \<Rightarrow> nat \<Rightarrow> (u32 \<Rightarrow> u32) \<Rightarrow> u32 \<Rightarrow> u32" where
  "freelist_fill i 0 f = f"
| "freelist_fill i (Suc n) f = freelist_fill (i + 1) n (f(i := i + 1))"

definition cache_alloc_page :: "u32 \<Rightarrow> heap \<Rightarrow> heap option" where
  "cache_alloc_page c h = do {
     (v1, page) \<leftarrow> alloc_page ALLOC_CACHE (h_vm h);
     let k = h_cache h c;
     let a = page_to_virt v1 page;
     let left = c_max k;
     let h1 = set_cache c (k\<lparr>c_empty := a # c_empty k\<rparr>) (h\<lparr>h_vm := v1\<rparr>);
     bug_on (left = 0);
     let f = freelist_fill 0 (unat left) (cp_freelist (h_cp h a));
     Some (set_cp a \<lparr>cp_cache = c, cp_left = left, cp_free = 0, cp_freelist = f(left - 1 := FREELIST_END),
       cp_mem = a + sizeof_cache_page + 4 * left, cp_page = page\<rparr> h1) }"

definition cache_do_alloc :: "u32 \<Rightarrow> heap \<Rightarrow> heap option" where
  "cache_do_alloc a h = (let p = h_cp h a in do {
     bug_on (cp_free p = FREELIST_END);
     Some (set_cp a (p\<lparr>cp_left := cp_left p - 1, cp_free := cp_freelist p (cp_free p)\<rparr>) h) })"

definition cache_do_free :: "u32 \<Rightarrow> u32 \<Rightarrow> heap \<Rightarrow> heap" where
  "cache_do_free a free_idx h = (let p = h_cp h a in
     set_cp a (p\<lparr>cp_left := cp_left p + 1, cp_freelist := (cp_freelist p)(free_idx := cp_free p),
       cp_free := free_idx\<rparr>) h)"

text \<open>A page is on one of the lists of its cache; \<^verbatim>\<open>list_rm\<close> takes it off that list.\<close>

definition cache_list_rm :: "u32 \<Rightarrow> cache \<Rightarrow> cache" where
  "cache_list_rm a k = k\<lparr>c_full := remove1 a (c_full k), c_partial := remove1 a (c_partial k),
     c_empty := remove1 a (c_empty k)\<rparr>"

definition to_full :: "u32 \<Rightarrow> cache \<Rightarrow> cache" where
  "to_full a k = (let k1 = cache_list_rm a k in k1\<lparr>c_full := a # c_full k1\<rparr>)"

definition to_partial :: "u32 \<Rightarrow> cache \<Rightarrow> cache" where
  "to_partial a k = (let k1 = cache_list_rm a k in k1\<lparr>c_partial := a # c_partial k1\<rparr>)"

definition to_empty :: "u32 \<Rightarrow> cache \<Rightarrow> cache" where
  "to_empty a k = (let k1 = cache_list_rm a k in k1\<lparr>c_empty := a # c_empty k1\<rparr>)"

definition cache_alloc :: "u32 \<Rightarrow> heap \<Rightarrow> (heap \<times> u32) option" where
  "cache_alloc c h = do {
     h1 \<leftarrow> (if c_partial (h_cache h c) = [] \<and> c_empty (h_cache h c) = [] then cache_alloc_page c h else Some h);
     let k = h_cache h1 c;
     case c_partial k of
       a # _ \<Rightarrow> do {
         h2 \<leftarrow> cache_do_alloc a h1;
         Some (if cp_left (h_cp h2 a) = 0 then set_cache c (to_full a k) h2 else h2,
           cp_mem (h_cp h1 a) + cp_free (h_cp h1 a) * c_size k) }
     | [] \<Rightarrow> (case c_empty k of
         a # _ \<Rightarrow> do {
           h2 \<leftarrow> cache_do_alloc a h1;
           Some (set_cache c (if cp_left (h_cp h2 a) = 0 then to_full a k else to_partial a k) h2,
             cp_mem (h_cp h1 a) + cp_free (h_cp h1 a) * c_size k) }
       | [] \<Rightarrow> None) }"

definition mem_to_cache_page :: "u32 \<Rightarrow> u32" where
  "mem_to_cache_page mem = (mem div PAGE_SIZE) * PAGE_SIZE"

text \<open>A zero object size would divide by zero.\<close>

definition cache_free :: "u32 \<Rightarrow> u32 \<Rightarrow> heap \<Rightarrow> heap option" where
  "cache_free c mem h =
     (let k = h_cache h c; a = mem_to_cache_page mem; p = h_cp h a;
          h1 = (if cp_left p + 1 = c_max k then set_cache c (to_empty a k) h
                else if cp_left p = 0 then set_cache c (to_partial a k) h else h)
      in do {
        bug_on (c_size k = 0);
        Some (cache_do_free a ((mem - cp_mem p) div c_size k) h1) })"

definition cache_create :: "u32 \<Rightarrow> u32 \<Rightarrow> heap \<Rightarrow> (heap \<times> u32) option" where
  "cache_create meta sz h = do {
     (h1, c) \<leftarrow> cache_alloc meta h;
     bug_on (sz + 4 = 0);
     Some (set_cache c \<lparr>c_size = sz, c_max = objs_per_page sz, c_flags = 0,
       c_full = [], c_partial = [], c_empty = []\<rparr> (h1\<lparr>caches := c # caches h1\<rparr>), c) }"

definition KALLOC_CACHE_SHIFT_MIN :: nat where "KALLOC_CACHE_SHIFT_MIN = 3"
definition KALLOC_CACHE_SHIFT_MAX :: nat where "KALLOC_CACHE_SHIFT_MAX = 11"
definition KALLOC_CACHE_MAX :: u32 where "KALLOC_CACHE_MAX = push_bit KALLOC_CACHE_SHIFT_MAX 1"
definition KALLOC_NUM_CACHES :: nat where
  "KALLOC_NUM_CACHES = KALLOC_CACHE_SHIFT_MAX - KALLOC_CACHE_SHIFT_MIN + 1"

function kalloc_index_loop :: "u32 \<Rightarrow> nat \<Rightarrow> nat option" where
  "kalloc_index_loop sz i =
     (if i \<le> KALLOC_CACHE_SHIFT_MAX
      then if sz \<le> push_bit i 1 then Some (i - KALLOC_CACHE_SHIFT_MIN) else kalloc_index_loop sz (i + 1)
      else None)"
  by pat_completeness auto
termination
  by (relation "measure (\<lambda>(sz, i). KALLOC_CACHE_SHIFT_MAX + 1 - i)") auto

declare kalloc_index_loop.simps [simp del]

definition kalloc_cache_index :: "u32 \<Rightarrow> nat option" where
  "kalloc_cache_index sz = kalloc_index_loop sz KALLOC_CACHE_SHIFT_MIN"

definition kalloc_cache_alloc :: "u32 \<Rightarrow> heap \<Rightarrow> (heap \<times> u32) option" where
  "kalloc_cache_alloc sz h =
     (if KALLOC_CACHE_MAX < sz then None
      else do { i \<leftarrow> kalloc_cache_index sz; cache_alloc (kalloc_cache h i) h })"

definition kalloc_cache_free :: "u32 \<Rightarrow> heap \<Rightarrow> heap option" where
  "kalloc_cache_free mem h = cache_free (cp_cache (h_cp h (mem_to_cache_page mem))) mem h"

fun kalloc_init_loop :: "u32 \<Rightarrow> nat \<Rightarrow> nat \<Rightarrow> heap \<Rightarrow> heap option" where
  "kalloc_init_loop meta i 0 h = Some h"
| "kalloc_init_loop meta i (Suc n) h = do {
     (h1, c) \<leftarrow> cache_create meta (push_bit (i + KALLOC_CACHE_SHIFT_MIN) 1) h;
     kalloc_init_loop meta (i + 1) n (h1\<lparr>kalloc_cache := (kalloc_cache h1)(i := c)\<rparr>) }"

definition cache_init :: "u32 \<Rightarrow> heap \<Rightarrow> heap option" where
  "cache_init meta h =
     kalloc_init_loop meta 0 KALLOC_NUM_CACHES
       (h\<lparr>caches := meta # caches h, h_cache := (h_cache h)(meta := meta_cache)\<rparr>)"

definition kmalloc :: "u32 \<Rightarrow> heap \<Rightarrow> (heap \<times> u32) option" where
  "kmalloc sz h =
     (if sz \<le> KALLOC_CACHE_MAX then do {
        (h1, mem) \<leftarrow> kalloc_cache_alloc sz h;
        p \<leftarrow> virt_to_page (vm_map (h_vm h1)) mem;
        bug_on (flags_of (vm_mm (h_vm h1)) p AND PAGE_FLAG_CACHE = 0);
        Some (h1, mem) }
      else do {
        (v1, p) \<leftarrow> alloc_pages (DIV_UP sz PAGE_SIZE) ALLOC_COMPOUND (h_vm h);
        Some (h\<lparr>h_vm := v1\<rparr>, page_to_virt v1 p) })"

definition kfree :: "u32 \<Rightarrow> heap \<Rightarrow> heap option" where
  "kfree mem h =
     (if mem = 0 then Some h
      else do {
        first \<leftarrow> virt_to_page (vm_map (h_vm h)) mem;
        if flags_of (vm_mm (h_vm h)) first AND PAGE_FLAG_CACHE \<noteq> 0 then kalloc_cache_free mem h
        else do {
          let n = pg_compound_num (mm_pages (vm_mm (h_vm h)) first);
          bug_on (n = 0);
          s \<leftarrow> free_pages first n (vm_mm (h_vm h));
          Some (h\<lparr>h_vm := (h_vm h)\<lparr>vm_mm := s\<rparr>\<rparr>) } })"

section \<open>The free list of a cache page\<close>

fun fl_walk :: "(u32 \<Rightarrow> u32) \<Rightarrow> u32 \<Rightarrow> nat \<Rightarrow> u32 list" where
  "fl_walk f i 0 = []"
| "fl_walk f i (Suc n) = i # fl_walk f (f i) n"

fun fl_end :: "(u32 \<Rightarrow> u32) \<Rightarrow> u32 \<Rightarrow> nat \<Rightarrow> u32" where
  "fl_end f i 0 = i"
| "fl_end f i (Suc n) = fl_end f (f i) n"

lemma fl_walk_upd: "x \<notin> set (fl_walk f i n) \<Longrightarrow>
    fl_walk (f(x := y)) i n = fl_walk f i n \<and> fl_end (f(x := y)) i n = fl_end f i n"
  by (induction n arbitrary: i) auto

lemma length_fl_walk [simp]: "length (fl_walk f i n) = n"
  by (induction n arbitrary: i) auto

definition cp_free_list :: "cache_page \<Rightarrow> u32 list" where
  "cp_free_list p = fl_walk (cp_freelist p) (cp_free p) (unat (cp_left p))"

definition cp_ok :: "u32 \<Rightarrow> u32 \<Rightarrow> cache_page \<Rightarrow> bool" where
  "cp_ok mx a p = (cp_mem p = a + sizeof_cache_page + 4 * mx
     \<and> distinct (cp_free_list p) \<and> (\<forall>i\<in>set (cp_free_list p). i < mx)
     \<and> fl_end (cp_freelist p) (cp_free p) (unat (cp_left p)) = FREELIST_END)"

definition cp_live :: "u32 \<Rightarrow> cache_page \<Rightarrow> u32 set" where
  "cp_live mx p = {i. i < mx \<and> i \<notin> set (cp_free_list p)}"

lemma card_u32_below: "card {i::u32. i < mx} = unat mx"
proof -
  have "{i::u32. i < mx} = of_nat ` {..<unat mx}"
  proof
    show "{i::u32. i < mx} \<subseteq> of_nat ` {..<unat mx}"
      by (auto simp: word_less_nat_alt image_iff) (metis lessThan_iff unat_eq_of_nat)
    show "of_nat ` {..<unat mx} \<subseteq> {i::u32. i < mx}"
      using unat_lt_32 [of mx] by (auto simp: word_less_nat_alt unat_of_nat_less)
  qed
  moreover have "inj_on (of_nat :: nat \<Rightarrow> u32) {..<unat mx}"
    using unat_lt_32 [of mx] by (auto intro!: inj_onI simp: of_nat_u32_inj)
  ultimately show ?thesis by (simp add: card_image)
qed

lemma cp_left_le:
  assumes "cp_ok mx a p"
  shows "unat (cp_left p) \<le> unat mx" and "unat (cp_left p) = unat mx \<longleftrightarrow> cp_live mx p = {}"
proof -
  have c: "card (set (cp_free_list p)) = unat (cp_left p)"
    using assms distinct_card [of "cp_free_list p"] by (simp add: cp_ok_def cp_free_list_def)
  have sub: "set (cp_free_list p) \<subseteq> {i. i < mx}" using assms by (auto simp: cp_ok_def)
  have fin: "finite {i::u32. i < mx}" by simp
  show "unat (cp_left p) \<le> unat mx" using card_mono [OF fin sub] by (simp add: c card_u32_below)
  have "cp_live mx p = {i. i < mx} - set (cp_free_list p)" by (auto simp: cp_live_def)
  then show "unat (cp_left p) = unat mx \<longleftrightarrow> cp_live mx p = {}"
    using card_subset_eq [OF fin sub] sub c card_u32_below [of mx] by auto
qed

lemma cp_take:
  assumes ok: "cp_ok mx a p" and l: "cp_left p \<noteq> 0"
  defines "p' \<equiv> p\<lparr>cp_left := cp_left p - 1, cp_free := cp_freelist p (cp_free p)\<rparr>"
  shows "cp_free p \<noteq> FREELIST_END \<or> FREELIST_END < mx" and "cp_ok mx a p'" and "cp_free p < mx"
    and "cp_free p \<notin> cp_live mx p" and "cp_live mx p' = insert (cp_free p) (cp_live mx p)"
    and "unat (cp_left p') = unat (cp_left p) - 1"
proof -
  obtain n where n: "unat (cp_left p) = Suc n" using l by (metis not0_implies_Suc unat_eq_zero)
  have l': "unat (cp_left p - 1) = n" using n by (subst unat_diff_le) simp_all
  have w: "cp_free_list p = cp_free p # cp_free_list p'" by (simp add: cp_free_list_def n l' p'_def)
  show "cp_ok mx a p'" using ok w n l' by (simp add: cp_ok_def) (simp add: p'_def)
  show "cp_free p < mx" using ok w by (simp add: cp_ok_def)
  then show "cp_free p \<noteq> FREELIST_END \<or> FREELIST_END < mx" by auto
  show "cp_free p \<notin> cp_live mx p" using w by (simp add: cp_live_def)
  show "cp_live mx p' = insert (cp_free p) (cp_live mx p)"
    using ok w by (auto simp: cp_live_def cp_ok_def)
  show "unat (cp_left p') = unat (cp_left p) - 1" using n l' by (simp add: p'_def)
qed

lemma cp_give:
  assumes ok: "cp_ok mx a p" and i: "i \<in> cp_live mx p"
  defines "p' \<equiv> p\<lparr>cp_left := cp_left p + 1, cp_freelist := (cp_freelist p)(i := cp_free p), cp_free := i\<rparr>"
  shows "cp_ok mx a p'" and "cp_live mx p' = cp_live mx p - {i}" and "unat (cp_left p') = unat (cp_left p) + 1"
proof -
  have "unat (cp_left p) < unat mx"
    using cp_left_le [OF ok] i by (metis empty_iff le_neq_implies_less)
  then show l: "unat (cp_left p') = unat (cp_left p) + 1"
    using unat_lt_32 [of mx] by (simp add: p'_def unat_word_ariths)
  have i': "i \<notin> set (cp_free_list p)" "i < mx" using i by (simp_all add: cp_live_def)
  have w: "cp_free_list p' = i # cp_free_list p"
    using fl_walk_upd [of i "cp_freelist p" "cp_free p" "unat (cp_left p)" "cp_free p"] i'(1)
    unfolding cp_free_list_def l by (simp add: p'_def)
  then show "cp_live mx p' = cp_live mx p - {i}" by (auto simp: cp_live_def)
  show "cp_ok mx a p'"
    using ok i' w fl_walk_upd [of i "cp_freelist p" "cp_free p" "unat (cp_left p)" "cp_free p"]
    unfolding cp_ok_def l by (simp add: cp_free_list_def) (simp add: p'_def)
qed

lemma freelist_fill_at: "freelist_fill i n f x = (if \<exists>d<n. x = i + of_nat d then x + 1 else f x)"
proof (induction n arbitrary: i f)
  case (Suc n)
  have "(\<exists>d<Suc n. x = i + of_nat d) \<longleftrightarrow> x = i \<or> (\<exists>d<n. x = (i + 1) + of_nat d)"
    by (auto simp: less_Suc_eq_0_disj algebra_simps)
  then show ?case unfolding freelist_fill.simps Suc.IH
    by (cases "x = i"; cases "\<exists>d<n. x = (i + 1) + of_nat d") (simp_all only: fun_upd_apply if_True if_False simp_thms)
qed simp

lemma fresh_walk:
  assumes f: "\<And>i. unat i + 1 < n \<Longrightarrow> f i = i + 1" and e: "f (of_nat (n - 1)) = FREELIST_END" and n: "n < 4294967296"
  shows "k < n \<Longrightarrow> fl_walk f (of_nat k) (n - k) = map of_nat [k..<n] \<and> fl_end f (of_nat k) (n - k) = FREELIST_END"
proof (induction "n - k" arbitrary: k)
  case (Suc m)
  have k: "unat (of_nat k :: u32) = k" using Suc.prems n by (intro unat_of_nat_less) simp
  show ?case
  proof (cases "m = 0")
    case True
    then have "n = Suc k" using Suc by simp
    then show ?thesis using e by simp
  next
    case False
    then have s: "f (of_nat k) = of_nat (Suc k)" "Suc k < n" "n - k = Suc (n - Suc k)"
      using f [of "of_nat k"] k Suc by auto
    have "m = n - Suc k" using Suc(2) s(3) by simp
    from Suc(1) [OF this s(2)] show ?thesis
      unfolding s(3) fl_walk.simps fl_end.simps s(1) using Suc.prems by (simp add: upt_conv_Cons)
  qed
qed simp

lemma fresh_cp_ok:
  assumes "l \<noteq> 0"
  shows "cp_ok l a \<lparr>cp_cache = c, cp_left = l, cp_free = 0, cp_freelist = (freelist_fill 0 (unat l) f)(l - 1 := FREELIST_END),
       cp_mem = a + sizeof_cache_page + 4 * l, cp_page = pg\<rparr>" (is "cp_ok l a ?p")
proof -
  define g where "g = (freelist_fill 0 (unat l) f)(l - 1 := FREELIST_END)"
  have l0: "0 < unat l" using assms by (simp add: unat_gt_0)
  have lm: "unat (l - 1) = unat l - 1" using l0 by (subst unat_diff_le) simp_all
  then have lm': "l - 1 = of_nat (unat l - 1)" by (rule unat_eq_of_nat)
  have g1: "g i = i + 1" if "unat i + 1 < unat l" for i
  proof -
    have "i \<noteq> l - 1" using lm that by auto
    moreover have "\<exists>d<unat l. i = of_nat d" using that by (intro exI [of _ "unat i"]) auto
    ultimately show ?thesis by (simp add: g_def freelist_fill_at)
  qed
  have g2: "g (of_nat (unat l - 1)) = FREELIST_END" unfolding lm' [symmetric] by (simp add: g_def)
  have w: "fl_walk g 0 (unat l) = map of_nat [0..<unat l]" "fl_end g 0 (unat l) = FREELIST_END"
    using fresh_walk [OF g1 g2 unat_lt_32, of 0] l0 by simp_all
  have "inj_on (of_nat :: nat \<Rightarrow> u32) {0..<unat l}"
    using unat_lt_32 [of l] by (auto intro!: inj_onI simp: of_nat_u32_inj)
  moreover have "(of_nat i :: u32) < l" if "i < unat l" for i
    using that unat_lt_32 [of l] by (simp add: word_less_nat_alt unat_of_nat_less)
  ultimately show ?thesis using w by (simp add: cp_ok_def cp_free_list_def distinct_map g_def [symmetric])
qed

section \<open>The invariant of the heap\<close>

definition cpages :: "cache \<Rightarrow> u32 list" where
  "cpages k = c_full k @ c_partial k @ c_empty k"

definition cache_wf :: "u32 \<Rightarrow> cache \<Rightarrow> (u32 \<Rightarrow> cache_page) \<Rightarrow> bool" where
  "cache_wf c k g = (c_size k \<noteq> 0 \<and> c_max k \<noteq> 0 \<and> 32 + unat (c_max k) * (unat (c_size k) + 4) \<le> 4096
     \<and> distinct (cpages k)
     \<and> (\<forall>a\<in>set (cpages k). cp_ok (c_max k) a (g a) \<and> cp_cache (g a) = c)
     \<and> (\<forall>a\<in>set (c_full k). cp_left (g a) = 0)
     \<and> (\<forall>a\<in>set (c_partial k). cp_left (g a) \<noteq> 0 \<and> cp_left (g a) \<noteq> c_max k)
     \<and> (\<forall>a\<in>set (c_empty k). cp_left (g a) = c_max k))"

definition obj_addr :: "cache \<Rightarrow> u32 \<Rightarrow> u32 \<Rightarrow> u32" where
  "obj_addr k a i = a + sizeof_cache_page + 4 * c_max k + i * c_size k"

definition live_objs :: "heap \<Rightarrow> u32 \<Rightarrow> (u32 \<times> u32) set" where
  "live_objs h c = {(a, i). a \<in> set (cpages (h_cache h c)) \<and> i \<in> cp_live (c_max (h_cache h c)) (h_cp h a)}"

text \<open>The runs of pages the caches in \<open>C\<close> hold.\<close>

definition all_cpages :: "heap \<Rightarrow> u32 set \<Rightarrow> u32 set" where
  "all_cpages h C = (\<Union>c\<in>C. set (cpages (h_cache h c)))"

definition cache_runs :: "heap \<Rightarrow> u32 set \<Rightarrow> (nat \<times> nat) set" where
  "cache_runs h C = (\<lambda>a. (cp_page (h_cp h a), 1)) ` all_cpages h C"

definition cp_backed :: "heap \<Rightarrow> u32 \<Rightarrow> bool" where
  "cp_backed h a = (kmapped (h_vm h) (cp_page (h_cp h a)) \<and> page_to_virt (h_vm h) (cp_page (h_cp h a)) = a
     \<and> flags_of (vm_mm (h_vm h)) (cp_page (h_cp h a)) = PAGE_FLAG_USED OR PAGE_FLAG_CACHE)"

definition heap_inv :: "heap \<Rightarrow> u32 set \<Rightarrow> (nat \<times> nat) set \<Rightarrow> bool" where
  "heap_inv h C L = ((\<forall>c\<in>C. cache_wf c (h_cache h c) (h_cp h))
     \<and> (\<forall>c\<in>C. \<forall>d\<in>C. c \<noteq> d \<longrightarrow> set (cpages (h_cache h c)) \<inter> set (cpages (h_cache h d)) = {})
     \<and> (\<forall>a\<in>all_cpages h C. cp_backed h a)
     \<and> runs_inv (vm_mm (h_vm h)) (L \<union> cache_runs h C) \<and> L \<inter> cache_runs h C = {}
     \<and> unat (kernel_next_page (vm_map (h_vm h))) \<le> KERNEL_PAGES)"

lemma heap_invD:
  assumes "heap_inv h C L"
  shows "c \<in> C \<Longrightarrow> cache_wf c (h_cache h c) (h_cp h)"
    and "c \<in> C \<Longrightarrow> d \<in> C \<Longrightarrow> c \<noteq> d \<Longrightarrow> set (cpages (h_cache h c)) \<inter> set (cpages (h_cache h d)) = {}"
    and "c \<in> C \<Longrightarrow> a \<in> set (cpages (h_cache h c)) \<Longrightarrow> cp_backed h a"
    and "runs_inv (vm_mm (h_vm h)) (L \<union> cache_runs h C)" and "L \<inter> cache_runs h C = {}"
    and "unat (kernel_next_page (vm_map (h_vm h))) \<le> KERNEL_PAGES"
  using assms unfolding heap_inv_def all_cpages_def by blast+

lemma cache_wfD:
  assumes "cache_wf c k g"
  shows "c_size k \<noteq> 0" "c_max k \<noteq> 0" "32 + unat (c_max k) * (unat (c_size k) + 4) \<le> 4096" "distinct (cpages k)"
    and "a \<in> set (cpages k) \<Longrightarrow> cp_ok (c_max k) a (g a)" and "a \<in> set (cpages k) \<Longrightarrow> cp_cache (g a) = c"
    and "a \<in> set (c_full k) \<Longrightarrow> cp_left (g a) = 0"
    and "a \<in> set (c_partial k) \<Longrightarrow> cp_left (g a) \<noteq> 0 \<and> cp_left (g a) \<noteq> c_max k"
    and "a \<in> set (c_empty k) \<Longrightarrow> cp_left (g a) = c_max k"
  using assms unfolding cache_wf_def by blast+

text \<open>Where an object lies: inside its page, behind the header and the free list.\<close>

lemma obj_geometry:
  assumes wf: "cache_wf c k g" and al: "unat a mod 4096 = 0" and i: "i < c_max k"
  shows "unat (obj_addr k a i) = unat a + 32 + 4 * unat (c_max k) + unat i * unat (c_size k)"
    and "32 + 4 * unat (c_max k) + unat i * unat (c_size k) + unat (c_size k) \<le> 4096"
    and "mem_to_cache_page (obj_addr k a i) = a"
    and "(obj_addr k a i - (a + sizeof_cache_page + 4 * c_max k)) div c_size k = i"
proof -
  let ?m = "unat (c_max k)" and ?s = "unat (c_size k)" and ?i = "unat i"
  have im: "?i < ?m" using i by (simp add: word_less_nat_alt)
  then have "(?i + 1) * ?s \<le> ?m * ?s" by (intro mult_le_mono1) simp
  then have b: "32 + 4 * ?m + ?i * ?s + ?s \<le> 4096" using cache_wfD(3) [OF wf] by (simp add: algebra_simps)
  have a: "unat a \<le> 4294963200"
  proof -
    have "unat a = 4096 * (unat a div 4096)" using al by auto
    moreover have "unat a div 4096 < 1048576" using unat_lt_32 [of a] by (simp add: div_less_iff_less_mult)
    ultimately show ?thesis by linarith
  qed
  have s0: "0 < ?s" using cache_wfD(1) [OF wf] by (simp add: unat_gt_0)
  have isz: "unat (i * c_size k) = ?i * ?s" using b by (simp add: unat_word_ariths)
  have m4: "unat (4 * c_max k) = 4 * ?m" using b by (simp add: unat_word_ariths)
  have base: "unat (a + sizeof_cache_page + 4 * c_max k) = unat a + 32 + 4 * ?m"
    using a b m4 s0 by (simp add: unat_word_ariths sizeof_cache_page_def)
  show u: "unat (obj_addr k a i) = unat a + 32 + 4 * ?m + ?i * ?s"
    unfolding obj_addr_def using a b base isz s0 by (subst unat_add_no_wrap) simp_all
  show "32 + 4 * ?m + ?i * ?s + ?s \<le> 4096" by (rule b)
  have "unat (obj_addr k a i) div 4096 * 4096 = unat a"
  proof -
    have "unat a = 4096 * (unat a div 4096)" using al by auto
    then have "unat (obj_addr k a i) = (32 + 4 * ?m + ?i * ?s) + 4096 * (unat a div 4096)" unfolding u by linarith
    moreover have "32 + 4 * ?m + ?i * ?s < 4096" using b s0 by linarith
    ultimately have "unat (obj_addr k a i) div 4096 = unat a div 4096" by simp
    then show ?thesis using al by auto
  qed
  then show "mem_to_cache_page (obj_addr k a i) = a"
    using unat_lt_32 [of a] by (simp add: mem_to_cache_page_def PAGE_SIZE_def word_unat_eq_iff unat_word_ariths unat_div)
  have "obj_addr k a i - (a + sizeof_cache_page + 4 * c_max k) = i * c_size k" by (simp add: obj_addr_def)
  then show "(obj_addr k a i - (a + sizeof_cache_page + 4 * c_max k)) div c_size k = i"
    using s0 isz by (simp add: word_unat_eq_iff unat_div)
qed

section \<open>Updates of one cache page\<close>

lemma cache_list_rm_set:
  "distinct (cpages k) \<Longrightarrow> set (cpages (cache_list_rm a k)) = set (cpages k) - {a} \<and> distinct (cpages (cache_list_rm a k))
     \<and> set (c_full (cache_list_rm a k)) = set (c_full k) - {a} \<and> set (c_partial (cache_list_rm a k)) = set (c_partial k) - {a}
     \<and> set (c_empty (cache_list_rm a k)) = set (c_empty k) - {a}"
  by (auto simp: cpages_def cache_list_rm_def distinct_remove1 dest: notin_set_remove1)

lemmas to_list_defs = to_full_def to_partial_def to_empty_def Let_def

lemma to_list_sel [simp]:
  "c_size (to_full a k) = c_size k" "c_max (to_full a k) = c_max k"
  "c_size (to_partial a k) = c_size k" "c_max (to_partial a k) = c_max k"
  "c_size (to_empty a k) = c_size k" "c_max (to_empty a k) = c_max k"
  by (simp_all add: to_list_defs cache_list_rm_def)

lemma move_wf:
  assumes wf: "cache_wf c k g" and a: "a \<in> set (cpages k)" and p: "cp_ok (c_max k) a p" "cp_cache p = c"
    and k': "k' = to_full a k \<and> cp_left p = 0 \<or> k' = to_partial a k \<and> cp_left p \<noteq> 0 \<and> cp_left p \<noteq> c_max k
      \<or> k' = to_empty a k \<and> cp_left p = c_max k"
  shows "cache_wf c k' (g(a := p)) \<and> set (cpages k') = set (cpages k) \<and> c_size k' = c_size k \<and> c_max k' = c_max k"
proof -
  note r = cache_list_rm_set [OF cache_wfD(4) [OF wf], of a]
  have n: "a \<notin> set (cpages (cache_list_rm a k))" "distinct (cpages (cache_list_rm a k))" using r by simp_all
  have s: "set (cpages k') = insert a (set (cpages (cache_list_rm a k))) \<and> distinct (cpages k')
    \<and> (\<forall>b\<in>set (c_full k'). b \<in> set (c_full k) \<and> b \<noteq> a \<or> b = a \<and> cp_left p = 0)
    \<and> (\<forall>b\<in>set (c_partial k'). b \<in> set (c_partial k) \<and> b \<noteq> a \<or> b = a \<and> cp_left p \<noteq> 0 \<and> cp_left p \<noteq> c_max k)
    \<and> (\<forall>b\<in>set (c_empty k'). b \<in> set (c_empty k) \<and> b \<noteq> a \<or> b = a \<and> cp_left p = c_max k)"
    using k'
  proof (elim disjE conjE)
    assume "k' = to_full a k" "cp_left p = 0" then show ?thesis using r n
      by (simp add: to_full_def Let_def cpages_def)
  next
    assume "k' = to_partial a k" "cp_left p \<noteq> 0" "cp_left p \<noteq> c_max k" then show ?thesis using r n
      by (simp add: to_partial_def Let_def cpages_def)
  next
    assume "k' = to_empty a k" "cp_left p = c_max k" then show ?thesis using r n
      by (simp add: to_empty_def Let_def cpages_def) blast
  qed
  have e: "set (cpages k') = set (cpages k)" using s r a by (simp add: insert_absorb)
  have m: "c_size k' = c_size k" "c_max k' = c_max k" using k' by (elim disjE; simp)+
  have g: "\<forall>b\<in>set (cpages k'). cp_ok (c_max k) b ((g(a := p)) b) \<and> cp_cache ((g(a := p)) b) = c"
    using cache_wfD(5,6) [OF wf] p unfolding e by simp
  have f: "\<forall>b\<in>set (c_full k'). cp_left ((g(a := p)) b) = 0"
    using s cache_wfD(7) [OF wf] by fastforce
  have pt: "\<forall>b\<in>set (c_partial k'). cp_left ((g(a := p)) b) \<noteq> 0 \<and> cp_left ((g(a := p)) b) \<noteq> c_max k"
    using s cache_wfD(8) [OF wf] by fastforce
  have em: "\<forall>b\<in>set (c_empty k'). cp_left ((g(a := p)) b) = c_max k"
    using s cache_wfD(9) [OF wf] by fastforce
  show ?thesis using cache_wfD(1-3) [OF wf] s g f pt em e m unfolding cache_wf_def by simp
qed

lemma stay_wf:
  assumes wf: "cache_wf c k g" and a: "a \<in> set (c_partial k)" and p: "cp_ok (c_max k) a p" "cp_cache p = c"
    and l: "cp_left p \<noteq> 0" "cp_left p \<noteq> c_max k"
  shows "cache_wf c k (g(a := p))"
proof -
  have "a \<notin> set (c_full k)" "a \<notin> set (c_empty k)" using cache_wfD(4) [OF wf] a by (auto simp: cpages_def)
  then show ?thesis using wf p l unfolding cache_wf_def by auto
qed

lemma heap_inv_update:
  assumes inv: "heap_inv h C L" and c: "c \<in> C" and a: "a \<in> set (cpages (h_cache h c))"
    and wf: "cache_wf c k' ((h_cp h)(a := p'))" and s: "set (cpages k') = set (cpages (h_cache h c))"
    and mx: "c_max k' = c_max (h_cache h c)" and pg: "cp_page p' = cp_page (h_cp h a)"
  defines "h' \<equiv> set_cache c k' (set_cp a p' h)"
  shows "heap_inv h' C L
    \<and> live_objs h' c = {x \<in> live_objs h c. fst x \<noteq> a} \<union> {a} \<times> cp_live (c_max k') p'
    \<and> (\<forall>d\<in>C. d \<noteq> c \<longrightarrow> live_objs h' d = live_objs h d)"
proof -
  have sets: "set (cpages (h_cache h' d)) = set (cpages (h_cache h d))" for d
    using s by (simp add: h'_def set_cache_def set_cp_def)
  have vm: "h_vm h' = h_vm h" and pgs: "cp_page (h_cp h' b) = cp_page (h_cp h b)" for b
    using pg by (simp_all add: h'_def set_cache_def set_cp_def)
  have na: "a \<notin> set (cpages (h_cache h d))" if "d \<in> C" "d \<noteq> c" for d
    using heap_invD(2) [OF inv c that(1)] that a by auto
  have w: "cache_wf d (h_cache h' d) (h_cp h')" if "d \<in> C" for d
  proof (cases "d = c")
    case False
    have "set (c_full (h_cache h d)) \<union> set (c_partial (h_cache h d)) \<union> set (c_empty (h_cache h d))
      \<subseteq> set (cpages (h_cache h d))" by (auto simp: cpages_def)
    then show ?thesis using heap_invD(1) [OF inv that] na [OF that False] False
      unfolding cache_wf_def h'_def set_cache_def set_cp_def by auto
  qed (use wf in \<open>simp add: h'_def set_cache_def set_cp_def\<close>)
  have ap: "all_cpages h' C = all_cpages h C" by (simp add: all_cpages_def sets)
  have cr: "cache_runs h' C = cache_runs h C" by (simp add: cache_runs_def ap pgs)
  have bk: "cp_backed h' b = cp_backed h b" for b by (simp add: cp_backed_def vm pgs)
  have "heap_inv h' C L"
    using inv w unfolding heap_inv_def sets ap cr bk vm by blast
  moreover have "live_objs h' c = {x \<in> live_objs h c. fst x \<noteq> a} \<union> {a} \<times> cp_live (c_max k') p'"
    using a s mx by (auto simp: live_objs_def h'_def set_cache_def set_cp_def split: if_splits)
  moreover have "live_objs h' d = live_objs h d" if "d \<in> C" "d \<noteq> c" for d
    using na [OF that] that by (auto simp: live_objs_def h'_def set_cache_def set_cp_def split: if_splits)
  ultimately show ?thesis by blast
qed

section \<open>Allocation and release of objects\<close>

lemma kvirt_inj: "i < KERNEL_PAGES \<Longrightarrow> j < KERNEL_PAGES \<Longrightarrow> kvirt i = kvirt j \<Longrightarrow> i = j"
  using kvirt_unat [of i 0] kvirt_unat [of j 0] by simp

lemma used_not_is_free: "flags_of s p = PAGE_FLAG_USED OR PAGE_FLAG_CACHE \<Longrightarrow> \<not> is_free s p"
  by (simp add: is_free_def PAGE_FLAG_USED_def PAGE_FLAG_CACHE_def)

lemma cp_backed_alloc:
  assumes a: "alloc_pages_effect (h_vm h) v' p n flags" and b: "cp_backed h x"
  shows "cp_backed (h\<lparr>h_vm := v'\<rparr>) x \<and> cp_page (h_cp h x) \<notin> run_pages (p, n)"
proof -
  have f: "\<not> is_free (vm_mm (h_vm h)) (cp_page (h_cp h x))" using b by (simp add: cp_backed_def used_not_is_free)
  have "kmapped (h_vm h) (cp_page (h_cp h x))" using b by (simp add: cp_backed_def)
  note k = kmapped_alloc [OF a this f]
  then have "flags_of (vm_mm v') (cp_page (h_cp h x)) = flags_of (vm_mm (h_vm h)) (cp_page (h_cp h x))"
    using a by (simp add: alloc_pages_effect_def)
  then show ?thesis using k b by (simp add: cp_backed_def)
qed

lemma new_page_addr:
  assumes a: "alloc_pages_effect (h_vm h) v' p 1 flags" and "unat (kernel_next_page (vm_map (h_vm h))) < KERNEL_PAGES"
    and "cp_backed h x"
  shows "page_to_virt v' p \<noteq> x"
proof -
  obtain j where "j < KERNEL_PAGES" "j < unat (kernel_next_page (vm_map (h_vm h)))" "x = kvirt j"
    using assms(3) by (auto simp: cp_backed_def kmapped_def)
  moreover have "page_to_virt v' p = kvirt (unat (kernel_next_page (vm_map (h_vm h))))"
    using a by (auto simp: alloc_pages_effect_def)
  ultimately show ?thesis using kvirt_inj assms(2) by fastforce
qed

lemma cache_wf_add_empty:
  assumes wf: "cache_wf c k g" and a: "a \<notin> set (cpages k)"
    and p: "cp_ok (c_max k) a p" "cp_cache p = c" "cp_left p = c_max k"
  shows "cache_wf c (k\<lparr>c_empty := a # c_empty k\<rparr>) (g(a := p))"
  using wf a p unfolding cache_wf_def cpages_def by auto

lemma cache_wf_other: "cache_wf c k g \<Longrightarrow> a \<notin> set (cpages k) \<Longrightarrow> cache_wf c k (g(a := p))"
  unfolding cache_wf_def cpages_def by auto

definition fresh_cp :: "u32 \<Rightarrow> u32 \<Rightarrow> nat \<Rightarrow> u32 \<Rightarrow> (u32 \<Rightarrow> u32) \<Rightarrow> cache_page" where
  "fresh_cp c a pg l f = \<lparr>cp_cache = c, cp_left = l, cp_free = 0,
     cp_freelist = (freelist_fill 0 (unat l) f)(l - 1 := FREELIST_END),
     cp_mem = a + sizeof_cache_page + 4 * l, cp_page = pg\<rparr>"

lemma cache_alloc_page_ok:
  assumes inv: "heap_inv h C L" and c: "c \<in> C" and room: "room_for (vm_mm (h_vm h)) 1"
    and nx: "unat (kernel_next_page (vm_map (h_vm h))) < KERNEL_PAGES"
  shows "\<exists>h' a p. cache_alloc_page c h = Some h' \<and> heap_inv h' C L
    \<and> h_cache h' c = (h_cache h c)\<lparr>c_empty := a # c_empty (h_cache h c)\<rparr> \<and> kalloc_cache h' = kalloc_cache h
    \<and> (\<forall>d. d \<noteq> c \<longrightarrow> h_cache h' d = h_cache h d)
    \<and> (\<forall>d\<in>C. live_objs h' d = live_objs h d) \<and> alloc_pages_effect (h_vm h) (h_vm h') p 1 ALLOC_CACHE"
proof -
  obtain v1 p where a1: "alloc_pages 1 ALLOC_CACHE (h_vm h) = Some (v1, p)"
    "runs_inv (vm_mm v1) (insert (p, 1) (L \<union> cache_runs h C))" "(p, 1) \<notin> L \<union> cache_runs h C"
    "alloc_pages_effect (h_vm h) v1 p 1 ALLOC_CACHE"
    using alloc_pages_ok [OF heap_invD(4) [OF inv], of 1 ALLOC_CACHE] room nx by auto
  define a where "a = page_to_virt v1 p"
  define k where "k = h_cache h c"
  define q where "q = fresh_cp c a p (c_max k) (cp_freelist (h_cp h a))"
  define h' where "h' = set_cp a q (set_cache c (k\<lparr>c_empty := a # c_empty k\<rparr>) (h\<lparr>h_vm := v1\<rparr>))"
  have mx: "c_max k \<noteq> 0" using cache_wfD(2) [OF heap_invD(1) [OF inv c]] by (simp add: k_def)
  have e: "cache_alloc_page c h = Some h'"
    using a1(1) mx by (simp add: cache_alloc_page_def alloc_page_def Let_def h'_def q_def fresh_cp_def k_def a_def)
  have new: "a \<notin> set (cpages (h_cache h d))" if "d \<in> C" for d
    using new_page_addr [OF a1(4) nx] heap_invD(3) [OF inv that] unfolding a_def by blast
  have qok: "cp_ok (c_max k) a q" "cp_cache q = c" "cp_left q = c_max k" "cp_page q = p"
    using fresh_cp_ok [OF mx] by (simp_all add: q_def fresh_cp_def)
  have ql: "cp_live (c_max k) q = {}" using cp_left_le(2) [OF qok(1)] qok(3) by simp
  have cps: "set (cpages (h_cache h' d)) = (if d = c then insert a (set (cpages k)) else set (cpages (h_cache h d)))" for d
    by (auto simp: h'_def set_cp_def set_cache_def cpages_def k_def)
  have w: "cache_wf d (h_cache h' d) (h_cp h')" if "d \<in> C" for d
    using cache_wf_add_empty [OF heap_invD(1) [OF inv c] new [OF c], folded k_def, OF qok(1-3)]
      cache_wf_other [OF heap_invD(1) [OF inv that] new [OF that], of q]
    by (simp add: h'_def set_cp_def set_cache_def)
  have dj: "set (cpages (h_cache h' d)) \<inter> set (cpages (h_cache h' e)) = {}" if "d \<in> C" "e \<in> C" "d \<noteq> e" for d e
    using heap_invD(2) [OF inv that] new [OF that(1)] new [OF that(2)] that(3) unfolding cps k_def by auto
  have ap: "all_cpages h' C = insert a (all_cpages h C)"
    unfolding all_cpages_def cps k_def using c by auto
  have old: "h_cp h' b = h_cp h b" if "b \<noteq> a" for b using that by (simp add: h'_def set_cp_def set_cache_def)
  have na: "a \<notin> all_cpages h C" using new by (auto simp: all_cpages_def)
  have cr: "cache_runs h' C = insert (p, 1) (cache_runs h C)"
  proof -
    have "(\<lambda>b. (cp_page (h_cp h' b), 1::nat)) ` all_cpages h C = (\<lambda>b. (cp_page (h_cp h b), 1)) ` all_cpages h C"
      by (intro image_cong refl) (metis na old)
    moreover have "cp_page (h_cp h' a) = p" using qok(4) by (simp add: h'_def set_cp_def set_cache_def)
    ultimately show ?thesis by (simp add: cache_runs_def ap)
  qed
  have vm: "h_vm h' = v1" by (simp add: h'_def set_cp_def set_cache_def)
  have bk: "cp_backed h' b" if "b \<in> all_cpages h' C" for b
  proof (cases "b = a")
    case True
    have "kmapped v1 p" "flags_of (vm_mm v1) p = alloc_flags ALLOC_CACHE"
      using a1(4) by (simp_all add: alloc_pages_effect_def run_pages_def)
    then show ?thesis using True qok(4)
      by (simp add: cp_backed_def h'_def set_cp_def set_cache_def a_def alloc_flags_def ALLOC_CACHE_def)
  next
    case False
    then have "cp_backed h b" using that inv unfolding ap heap_inv_def by blast
    from cp_backed_alloc [OF a1(4) this] show ?thesis by (simp add: cp_backed_def old [OF False] vm)
  qed
  have "unat (kernel_next_page (vm_map v1)) \<le> KERNEL_PAGES" using a1(4) nx by (simp add: alloc_pages_effect_def)
  then have "heap_inv h' C L" unfolding heap_inv_def cr vm
    using w dj bk a1(2,3) heap_invD(5) [OF inv] by simp
  moreover have "live_objs h' d = live_objs h d" if "d \<in> C" for d
    using ql new [OF that] by (auto simp: live_objs_def cps old k_def [symmetric])
      (auto simp: h'_def set_cp_def set_cache_def k_def split: if_splits)
  ultimately show ?thesis using e a1(4)
    by (intro exI [of _ h'] exI [of _ a] exI [of _ p]) (simp add: h'_def set_cp_def set_cache_def k_def)
qed


lemma take_object:
  assumes inv: "heap_inv h C L" and c: "c \<in> C" and k: "k = h_cache h c"
    and a: "a \<in> set (c_partial k) \<or> a \<in> set (c_empty k)"
  shows "\<exists>h2. cache_do_alloc a h = Some h2 \<and> (let
      k' = (if cp_left (h_cp h2 a) = 0 then to_full a k else if a \<in> set (c_partial k) then k else to_partial a k);
      h' = set_cache c k' h2; i = cp_free (h_cp h a) in
      heap_inv h' C L \<and> cp_mem (h_cp h a) + i * c_size k = obj_addr k a i
      \<and> i < c_max k \<and> a \<in> set (cpages k) \<and> (a, i) \<notin> live_objs h c \<and> live_objs h' c = insert (a, i) (live_objs h c)
      \<and> (\<forall>d\<in>C. d \<noteq> c \<longrightarrow> live_objs h' d = live_objs h d) \<and> h_vm h' = h_vm h
      \<and> (\<forall>d. c_size (h_cache h' d) = c_size (h_cache h d) \<and> c_max (h_cache h' d) = c_max (h_cache h d))
      \<and> kalloc_cache h' = kalloc_cache h)"
proof -
  note wf = heap_invD(1) [OF inv c, folded k]
  have ap: "a \<in> set (cpages k)" using a by (auto simp: cpages_def)
  note ok = cache_wfD(5) [OF wf ap]
  have l: "cp_left (h_cp h a) \<noteq> 0" using a cache_wfD(8,9) [OF wf] cache_wfD(2) [OF wf] by auto
  define p' where "p' = (h_cp h a)\<lparr>cp_left := cp_left (h_cp h a) - 1, cp_free := cp_freelist (h_cp h a) (cp_free (h_cp h a))\<rparr>"
  note t = cp_take [OF ok l, folded p'_def]
  have "unat (c_max k) * 1 \<le> unat (c_max k) * (unat (c_size k) + 4)" by (rule mult_le_mono2) simp
  then have "unat (c_max k) \<le> 4096" using cache_wfD(3) [OF wf] by linarith
  then have ne: "cp_free (h_cp h a) \<noteq> FREELIST_END" using t(1) by (auto simp: FREELIST_END_def word_less_nat_alt)
  define k' where "k' = (if cp_left p' = 0 then to_full a k else if a \<in> set (c_partial k) then k else to_partial a k)"
  have lt: "cp_left p' \<noteq> c_max k"
  proof
    assume "cp_left p' = c_max k"
    moreover have "0 < unat (cp_left (h_cp h a))" using l by (simp add: unat_gt_0)
    ultimately show False using t(6) cp_left_le(1) [OF ok] by simp
  qed
  have cc: "cp_cache p' = c" using cache_wfD(6) [OF wf ap] by (simp add: p'_def)
  have w: "cache_wf c k' ((h_cp h)(a := p')) \<and> set (cpages k') = set (cpages k) \<and> c_size k' = c_size k \<and> c_max k' = c_max k"
  proof (cases "cp_left p' \<noteq> 0 \<and> a \<in> set (c_partial k)")
    case True
    then have "cache_wf c k ((h_cp h)(a := p'))" using lt by (intro stay_wf [OF wf _ t(2) cc]) simp_all
    then show ?thesis using True by (simp add: k'_def)
  next
    case False
    show ?thesis by (rule move_wf [OF wf ap t(2) cc]) (use False lt in \<open>auto simp: k'_def\<close>)
  qed
  let ?h' = "set_cache c k' (set_cp a p' h)"
  have u: "heap_inv ?h' C L \<and> live_objs ?h' c = {x \<in> live_objs h c. fst x \<noteq> a} \<union> {a} \<times> cp_live (c_max k') p'
    \<and> (\<forall>d\<in>C. d \<noteq> c \<longrightarrow> live_objs ?h' d = live_objs h d)"
    by (rule heap_inv_update [OF inv c]) (use ap w k in \<open>auto simp: p'_def\<close>)
  have "live_objs ?h' c = insert (a, cp_free (h_cp h a)) (live_objs h c)"
    using u t(5) w ap unfolding live_objs_def [of h] k [symmetric] by auto
  moreover have "(a, cp_free (h_cp h a)) \<notin> live_objs h c" using t(4) by (simp add: live_objs_def k [symmetric])
  moreover have "cache_do_alloc a h = Some (set_cp a p' h)" using ne by (simp add: cache_do_alloc_def Let_def p'_def)
  moreover have "cp_mem (h_cp h a) = a + sizeof_cache_page + 4 * c_max k" using ok by (simp add: cp_ok_def)
  ultimately show ?thesis using u t(3) ap w k
    by (intro exI [of _ "set_cp a p' h"]) (simp add: set_cp_def set_cache_def k'_def Let_def obj_addr_def cong: if_cong)
qed

lemma do_map_page_full:
  assumes "unat (kernel_next_page k) = KERNEL_PAGES"
  shows "do_map_page phys k = None"
proof -
  have "kernel_next_page k = of_nat 262144" using assms unfolding KERNEL_PAGES_def by (rule unat_eq_of_nat)
  then have "get_next_virt 0 k = 0" by (simp add: get_next_virt_def get_pageoff_def PAGE_SIZE_def VIRTUAL_BASE_def)
  then show ?thesis
    by (simp add: do_map_page_def Let_def kptab_index_def addr_to_diridx_def VIRTUAL_BASE_def PAGE_SIZE_def KERNEL_NUM_TABLES_def)
qed

lemma map_pages_loop_full:
  "unat (kernel_next_page k) \<le> KERNEL_PAGES \<Longrightarrow> KERNEL_PAGES < unat (kernel_next_page k) + n \<Longrightarrow>
     map_pages_loop phys i n k = None"
proof (induction n arbitrary: k i)
  case (Suc n)
  show ?case
  proof (cases "unat (kernel_next_page k) = KERNEL_PAGES")
    case False
    then obtain k1 where "do_map_page (phys + PAGE_SIZE * i) k = Some k1"
      "unat (kernel_next_page k1) = unat (kernel_next_page k) + 1"
      using do_map_page_ok [of k "phys + PAGE_SIZE * i"] Suc.prems(1) by auto
    then show ?thesis using Suc.IH [of k1 "i + 1"] Suc.prems False by simp
  qed (simp add: do_map_page_full)
qed simp

lemma alloc_pages_needs:
  assumes inv: "runs_inv (vm_mm v) R" and nx: "unat (kernel_next_page (vm_map v)) \<le> KERNEL_PAGES"
    and a: "alloc_pages num flags v = Some (v', p)"
  shows "num \<noteq> 0" and "room_for (vm_mm v) (unat num)"
    and "unat (kernel_next_page (vm_map v)) + unat num \<le> KERNEL_PAGES"
proof -
  obtain s1 q where s1: "do_alloc_pages (unat num) (vm_mm v) = Some (s1, q)"
    using a by (auto simp: alloc_pages_def elim!: bind_eq_SomeD)
  then show n: "num \<noteq> 0" by (auto simp: do_alloc_pages_def)
  have mi: "mm_inv (vm_mm v) (\<Union>(b, n)\<in>R. pieces b n) {}" using inv by (simp add: runs_inv_def)
  have "\<exists>k. unat num \<le> 2 ^ k \<and> free_page_list (vm_mm v) k \<noteq> []"
  proof (rule ccontr)
    assume "\<not> ?thesis"
    then have "do_alloc_pages (unat num) (vm_mm v) = None"
      using n by (intro do_alloc_pages_oom) (auto simp: unat_gt_0)
    then show False using s1 by simp
  qed
  then show "room_for (vm_mm v) (unat num)" using alloc_possible_iff [OF mi] by blast
  have "map_pages_loop (page_to_phys q) 0 (unat num) (vm_map v) \<noteq> None"
    using a s1 by (cases "map_pages_loop (page_to_phys q) 0 (unat num) (vm_map v)") (auto simp: alloc_pages_def map_pages_def)
  then show "unat (kernel_next_page (vm_map v)) + unat num \<le> KERNEL_PAGES"
    using map_pages_loop_full [OF nx, of "unat num"] by fastforce
qed


lemma set_cache_same: "set_cache c (h_cache h c) h = h"
  by (simp add: set_cache_def)

lemma cache_do_alloc_cache: "cache_do_alloc a h = Some h2 \<Longrightarrow> h_cache h2 = h_cache h"
  by (auto simp: cache_do_alloc_def Let_def set_cp_def split: if_splits)

text \<open>What every allocation from a cache does, whether or not it takes a new page.\<close>

definition obj_alloc_effect :: "heap \<Rightarrow> heap \<Rightarrow> u32 set \<Rightarrow> u32 \<Rightarrow> u32 \<Rightarrow> u32 \<Rightarrow> bool" where
  "obj_alloc_effect h h' C c a i =
     (i < c_max (h_cache h c) \<and> (a, i) \<notin> live_objs h c \<and> live_objs h' c = insert (a, i) (live_objs h c)
      \<and> (\<forall>d\<in>C. d \<noteq> c \<longrightarrow> live_objs h' d = live_objs h d)
      \<and> (\<forall>d. c_size (h_cache h' d) = c_size (h_cache h d) \<and> c_max (h_cache h' d) = c_max (h_cache h d))
      \<and> kalloc_cache h' = kalloc_cache h \<and> a \<in> set (cpages (h_cache h' c))
      \<and> (h_vm h' = h_vm h \<or> (\<exists>p. alloc_pages_effect (h_vm h) (h_vm h') p 1 ALLOC_CACHE)))"

lemma cache_alloc_listed:
  assumes inv: "heap_inv h C L" and c: "c \<in> C"
    and some: "c_partial (h_cache h c) \<noteq> [] \<or> c_empty (h_cache h c) \<noteq> []"
  shows "\<exists>h' a i. cache_alloc c h = Some (h', obj_addr (h_cache h c) a i) \<and> heap_inv h' C L
    \<and> obj_alloc_effect h h' C c a i \<and> h_vm h' = h_vm h"
proof -
  define k where "k = h_cache h c"
  define a where "a = (if c_partial k \<noteq> [] then hd (c_partial k) else hd (c_empty k))"
  have al: "a \<in> set (c_partial k) \<or> a \<in> set (c_empty k)" using some by (auto simp: a_def k_def)
  obtain h2 where h2: "cache_do_alloc a h = Some h2" and ef: "let
      k' = (if cp_left (h_cp h2 a) = 0 then to_full a k else if a \<in> set (c_partial k) then k else to_partial a k);
      h' = set_cache c k' h2; i = cp_free (h_cp h a) in
      heap_inv h' C L \<and> cp_mem (h_cp h a) + i * c_size k = obj_addr k a i
      \<and> i < c_max k \<and> a \<in> set (cpages k) \<and> (a, i) \<notin> live_objs h c \<and> live_objs h' c = insert (a, i) (live_objs h c)
      \<and> (\<forall>d\<in>C. d \<noteq> c \<longrightarrow> live_objs h' d = live_objs h d) \<and> h_vm h' = h_vm h
      \<and> (\<forall>d. c_size (h_cache h' d) = c_size (h_cache h d) \<and> c_max (h_cache h' d) = c_max (h_cache h d))
      \<and> kalloc_cache h' = kalloc_cache h"
    using take_object [OF inv c k_def al] by blast
  let ?k' = "if cp_left (h_cp h2 a) = 0 then to_full a k else if a \<in> set (c_partial k) then k else to_partial a k"
  let ?h' = "set_cache c ?k' h2" and ?i = "cp_free (h_cp h a)"
  have hk: "h_cache h2 c = k" using cache_do_alloc_cache [OF h2] by (simp add: k_def)
  have r: "cache_alloc c h = Some (?h', obj_addr k a ?i)"
  proof (cases "c_partial k")
    case Nil
    then obtain as where e: "c_empty k = a # as" using some by (cases "c_empty k") (auto simp: a_def k_def)
    show ?thesis using Nil e ef h2 some by (simp add: cache_alloc_def k_def [symmetric] Let_def)
  next
    case (Cons b as)
    then have ca: "c_partial k = a # as" by (simp add: a_def)
    show ?thesis using ca ef h2 hk set_cache_same [of c h2] by (simp add: cache_alloc_def k_def [symmetric] Let_def)
  qed
  have "(a, ?i) \<in> live_objs ?h' c" using ef by (simp add: Let_def)
  then have "a \<in> set (cpages (h_cache ?h' c))" by (simp add: live_objs_def)
  then have "heap_inv ?h' C L \<and> obj_alloc_effect h ?h' C c a ?i \<and> h_vm ?h' = h_vm h"
    using ef by (simp add: obj_alloc_effect_def Let_def k_def)
  then show ?thesis using r unfolding k_def by blast
qed

lemma cache_alloc_ok:
  assumes inv: "heap_inv h C L" and c: "c \<in> C"
    and av: "c_partial (h_cache h c) \<noteq> [] \<or> c_empty (h_cache h c) \<noteq> []
      \<or> room_for (vm_mm (h_vm h)) 1 \<and> unat (kernel_next_page (vm_map (h_vm h))) < KERNEL_PAGES"
  shows "\<exists>h' a i. cache_alloc c h = Some (h', obj_addr (h_cache h c) a i) \<and> heap_inv h' C L
    \<and> obj_alloc_effect h h' C c a i"
proof (cases "c_partial (h_cache h c) = [] \<and> c_empty (h_cache h c) = []")
  case False
  then show ?thesis using cache_alloc_listed [OF inv c] by blast
next
  case True
  then have "room_for (vm_mm (h_vm h)) 1" "unat (kernel_next_page (vm_map (h_vm h))) < KERNEL_PAGES" using av by auto
  then obtain h1 b p where h1: "cache_alloc_page c h = Some h1" "heap_inv h1 C L"
    "h_cache h1 c = (h_cache h c)\<lparr>c_empty := b # c_empty (h_cache h c)\<rparr>" "kalloc_cache h1 = kalloc_cache h"
    "\<forall>d. d \<noteq> c \<longrightarrow> h_cache h1 d = h_cache h d"
    "\<forall>d\<in>C. live_objs h1 d = live_objs h d" "alloc_pages_effect (h_vm h) (h_vm h1) p 1 ALLOC_CACHE"
    using cache_alloc_page_ok [OF inv c] by blast
  obtain h' a i where h': "cache_alloc c h1 = Some (h', obj_addr (h_cache h1 c) a i)" "heap_inv h' C L"
    "obj_alloc_effect h1 h' C c a i" "h_vm h' = h_vm h1"
    using cache_alloc_listed [OF h1(2) c] h1(3) by auto
  have "cache_alloc c h = cache_alloc c h1" using True h1(1,3) by (simp add: cache_alloc_def)
  moreover have sm: "c_size (h_cache h1 d) = c_size (h_cache h d) \<and> c_max (h_cache h1 d) = c_max (h_cache h d)" for d
    using h1(3,5) by (cases "d = c") auto
  moreover have "obj_alloc_effect h h' C c a i"
    using h'(3,4) h1(4,6,7) c sm by (auto simp: obj_alloc_effect_def)
  ultimately show ?thesis using h'(1,2) by (auto simp: obj_addr_def)
qed

lemma cache_alloc_needs:
  assumes inv: "heap_inv h C L" and c: "c \<in> C" and "cache_alloc c h = Some r"
  shows "c_partial (h_cache h c) \<noteq> [] \<or> c_empty (h_cache h c) \<noteq> []
      \<or> room_for (vm_mm (h_vm h)) 1 \<and> unat (kernel_next_page (vm_map (h_vm h))) < KERNEL_PAGES"
proof (rule ccontr)
  assume n: "\<not> ?thesis"
  then have "alloc_pages 1 ALLOC_CACHE (h_vm h) = None"
    using alloc_pages_needs [OF heap_invD(4,6) [OF inv], of 1 ALLOC_CACHE]
    by (cases "alloc_pages 1 ALLOC_CACHE (h_vm h)") (auto simp: less_eq_Suc_le)
  then show False using n assms(3) by (simp add: cache_alloc_def cache_alloc_page_def alloc_page_def)
qed

lemma cp_backed_aligned:
  assumes "cp_backed h a" shows "unat a mod 4096 = 0"
proof -
  obtain j where "j < KERNEL_PAGES" "a = kvirt j" using assms by (auto simp: cp_backed_def kmapped_def)
  then have "unat a = 4096 * (786432 + j)" using kvirt_unat [of j 0] by simp
  then show ?thesis by simp
qed

definition obj_free_effect :: "heap \<Rightarrow> heap \<Rightarrow> u32 set \<Rightarrow> u32 \<Rightarrow> u32 \<Rightarrow> u32 \<Rightarrow> bool" where
  "obj_free_effect h h' C c a i =
     (live_objs h' c = live_objs h c - {(a, i)} \<and> (\<forall>d\<in>C. d \<noteq> c \<longrightarrow> live_objs h' d = live_objs h d)
      \<and> (\<forall>d. c_size (h_cache h' d) = c_size (h_cache h d) \<and> c_max (h_cache h' d) = c_max (h_cache h d))
      \<and> kalloc_cache h' = kalloc_cache h \<and> h_vm h' = h_vm h)"

lemma cache_free_ok:
  assumes inv: "heap_inv h C L" and c: "c \<in> C" and o: "(a, i) \<in> live_objs h c"
  shows "\<exists>h'. cache_free c (obj_addr (h_cache h c) a i) h = Some h' \<and> heap_inv h' C L
    \<and> obj_free_effect h h' C c a i"
proof -
  define k where "k = h_cache h c"
  note wf = heap_invD(1) [OF inv c, folded k_def]
  have ap: "a \<in> set (cpages k)" and il: "i \<in> cp_live (c_max k) (h_cp h a)" using o by (simp_all add: live_objs_def k_def)
  have im: "i < c_max k" using il by (simp add: cp_live_def)
  have al: "unat a mod 4096 = 0" using heap_invD(3) [OF inv c] ap by (auto simp: k_def intro: cp_backed_aligned)
  note ok = cache_wfD(5) [OF wf ap] and geo = obj_geometry [OF wf al im]
  define p' where "p' = (h_cp h a)\<lparr>cp_left := cp_left (h_cp h a) + 1,
    cp_freelist := (cp_freelist (h_cp h a))(i := cp_free (h_cp h a)), cp_free := i\<rparr>"
  note g = cp_give [OF ok il, folded p'_def]
  have lp: "cp_left p' = cp_left (h_cp h a) + 1" by (simp add: p'_def)
  have l0: "cp_left p' \<noteq> 0" using g(3) by auto
  have ll: "cp_left (h_cp h a) \<noteq> c_max k" using cp_left_le(2) [OF ok] il by auto
  define k' where "k' = (if cp_left p' = c_max k then to_empty a k else if cp_left (h_cp h a) = 0 then to_partial a k else k)"
  have cc: "cp_cache p' = c" using cache_wfD(6) [OF wf ap] by (simp add: p'_def)
  have w: "cache_wf c k' ((h_cp h)(a := p')) \<and> set (cpages k') = set (cpages k) \<and> c_size k' = c_size k \<and> c_max k' = c_max k"
  proof (cases "cp_left p' \<noteq> c_max k \<and> cp_left (h_cp h a) \<noteq> 0")
    case True
    then have "a \<in> set (c_partial k)" using ap ll cache_wfD(7,9) [OF wf] by (auto simp: cpages_def)
    then have "cache_wf c k ((h_cp h)(a := p'))" using True l0 by (intro stay_wf [OF wf _ g(1) cc]) simp_all
    then show ?thesis using True by (simp add: k'_def)
  next
    case False
    show ?thesis by (rule move_wf [OF wf ap g(1) cc]) (use False l0 in \<open>auto simp: k'_def\<close>)
  qed
  let ?h' = "set_cache c k' (set_cp a p' h)"
  have u: "heap_inv ?h' C L \<and> live_objs ?h' c = {x \<in> live_objs h c. fst x \<noteq> a} \<union> {a} \<times> cp_live (c_max k') p'
    \<and> (\<forall>d\<in>C. d \<noteq> c \<longrightarrow> live_objs ?h' d = live_objs h d)"
    by (rule heap_inv_update [OF inv c]) (use ap w in \<open>auto simp: p'_def k_def\<close>)
  have lv: "live_objs ?h' c = live_objs h c - {(a, i)}"
    using u g(2) w ap unfolding live_objs_def [of h] k_def [symmetric] by auto
  have m: "cp_mem (h_cp h a) = a + sizeof_cache_page + 4 * c_max k" using ok by (simp add: cp_ok_def)
  have "cache_free c (obj_addr k a i) h = Some ?h'"
    using cache_wfD(1) [OF wf] geo(3,4) set_cache_same [of c "set_cp a p' h", folded k_def]
    by (simp add: cache_free_def Let_def k_def [symmetric] m cache_do_free_def set_cache_def set_cp_def k'_def lp p'_def)
  then show ?thesis using u lv w
    by (intro exI [of _ ?h']) (simp add: obj_free_effect_def k_def [symmetric] set_cache_def set_cp_def)
qed

section \<open>The kernel heap\<close>

text \<open>
  A live block of the heap is an object of a cache or a run of whole pages. \<open>kblock\<close> is its
  address and length.
\<close>

datatype ktag = Small u32 u32 u32 | Large nat nat

fun kblock :: "heap \<Rightarrow> ktag \<Rightarrow> u32 \<times> nat" where
  "kblock h (Small c a i) = (obj_addr (h_cache h c) a i, unat (c_size (h_cache h c)))"
| "kblock h (Large p n) = (page_to_virt (h_vm h) p, n * 4096)"

definition ktags :: "heap \<Rightarrow> u32 set \<Rightarrow> (nat \<times> nat) set \<Rightarrow> ktag set" where
  "ktags h C K = {Small c a i |c a i. c \<in> C \<and> (a, i) \<in> live_objs h c} \<union> {Large p n |p n. (p, n) \<in> K}"

definition block_bytes :: "u32 \<times> nat \<Rightarrow> nat set" where
  "block_bytes b = {unat (fst b) ..< unat (fst b) + snd b}"

definition large_ok :: "vm \<Rightarrow> nat \<Rightarrow> nat \<Rightarrow> bool" where
  "large_ok v p n = (0 < n \<and> pg_compound_num (mm_pages (vm_mm v) p) = n
     \<and> (\<exists>j. j + n \<le> KERNEL_PAGES \<and> (\<forall>d<n. kmapped v (p + d) \<and> page_to_virt v (p + d) = kvirt (j + d)
          \<and> flags_of (vm_mm v) (p + d) = PAGE_FLAG_USED)))"

definition kheap_inv :: "heap \<Rightarrow> u32 set \<Rightarrow> (nat \<times> nat) set \<Rightarrow> (nat \<times> nat) set \<Rightarrow> bool" where
  "kheap_inv h C L K = (heap_inv h C (L \<union> K) \<and> L \<inter> K = {} \<and> (\<forall>(p, n)\<in>K. large_ok (h_vm h) p n)
     \<and> (\<forall>i<KALLOC_NUM_CACHES. kalloc_cache h i \<in> C
          \<and> c_size (h_cache h (kalloc_cache h i)) = push_bit (i + KALLOC_CACHE_SHIFT_MIN) 1))"

lemma kheap_invD:
  assumes "kheap_inv h C L K"
  shows "heap_inv h C (L \<union> K)" and "L \<inter> K = {}" and "(p, n) \<in> K \<Longrightarrow> large_ok (h_vm h) p n"
    and "i < KALLOC_NUM_CACHES \<Longrightarrow> kalloc_cache h i \<in> C \<and> c_size (h_cache h (kalloc_cache h i)) = push_bit (i + KALLOC_CACHE_SHIFT_MIN) 1"
  using assms unfolding kheap_inv_def by blast+

lemma kalloc_index_ok:
  assumes "sz \<le> KALLOC_CACHE_MAX"
  shows "\<exists>i<KALLOC_NUM_CACHES. kalloc_cache_index sz = Some i \<and> sz \<le> push_bit (i + KALLOC_CACHE_SHIFT_MIN) 1"
proof -
  have "\<exists>i<KALLOC_NUM_CACHES. kalloc_index_loop sz m = Some i \<and> sz \<le> push_bit (i + KALLOC_CACHE_SHIFT_MIN) 1"
    if "KALLOC_CACHE_SHIFT_MIN \<le> m" "m \<le> KALLOC_CACHE_SHIFT_MAX" for m
    using that
  proof (induction "KALLOC_CACHE_SHIFT_MAX - m" arbitrary: m)
    case 0
    then have "m = KALLOC_CACHE_SHIFT_MAX" by simp
    then show ?case using assms
      by (subst kalloc_index_loop.simps) (simp add: KALLOC_CACHE_MAX_def KALLOC_NUM_CACHES_def KALLOC_CACHE_SHIFT_MIN_def KALLOC_CACHE_SHIFT_MAX_def)
  next
    case (Suc d)
    have ih: "\<exists>i<KALLOC_NUM_CACHES. kalloc_index_loop sz (m + 1) = Some i \<and> sz \<le> push_bit (i + KALLOC_CACHE_SHIFT_MIN) 1"
      by (rule Suc(1)) (use Suc(2-) in auto)
    show ?case
    proof (cases "sz \<le> push_bit m 1")
      case True
      then show ?thesis using Suc(2-) by (subst kalloc_index_loop.simps) (simp add: KALLOC_NUM_CACHES_def)
    next
      case False
      then show ?thesis using ih Suc(2-) by (subst kalloc_index_loop.simps) simp
    qed
  qed
  then show ?thesis unfolding kalloc_cache_index_def by (simp add: KALLOC_CACHE_SHIFT_MIN_def KALLOC_CACHE_SHIFT_MAX_def)
qed

lemma phys_to_page_off:
  assumes "q < NUM_PAGES" and "unat off < 4096"
  shows "phys_to_page (page_to_phys q + off) = q"
  using page_to_phys_unat [OF assms] assms(2) by (simp add: phys_to_page_def phys_to_pageidx_def unat_div PAGE_SIZE_def)

lemma kmapped_page: "kmapped v q \<Longrightarrow> unat off < 4096 \<Longrightarrow> virt_to_page (vm_map v) (page_to_virt v q + off) = Some q"
  using kmapped_translate [of v q off] phys_to_page_off [of q off] by (simp add: virt_to_page_def kmapped_def)

text \<open>Every byte of a live block lies in a page of the run that backs the block.\<close>

fun tag_run :: "heap \<Rightarrow> ktag \<Rightarrow> nat \<times> nat" where
  "tag_run h (Small c a i) = (cp_page (h_cp h a), 1)"
| "tag_run h (Large p n) = (p, n)"

lemma aligned_offset:
  assumes "unat a mod 4096 = 0" and "unat a \<le> x" and "x < unat a + 4096" and "x < 4294967296"
  shows "(of_nat x :: u32) = a + of_nat (x - unat a)" and "unat (of_nat (x - unat a) :: u32) < 4096"
proof -
  have "(of_nat x :: u32) = of_nat (unat a + (x - unat a))" using assms(2) by simp
  then show "(of_nat x :: u32) = a + of_nat (x - unat a)" by (simp only: of_nat_add) simp
  show "unat (of_nat (x - unat a) :: u32) < 4096"
    using assms by (subst unat_of_nat_less) linarith+
qed

lemma aligned_top:
  fixes a :: u32
  assumes "unat a mod 4096 = 0" shows "unat a + 4096 \<le> 4294967296"
proof -
  have "unat a = 4096 * (unat a div 4096)" using assms by auto
  moreover have "unat a div 4096 < 1048576" using unat_lt_32 [of a] by (simp add: div_less_iff_less_mult)
  ultimately show ?thesis by linarith
qed

lemma small_bytes:
  assumes inv: "heap_inv h C L" and c: "c \<in> C" and o: "(a, i) \<in> live_objs h c" and x: "x \<in> block_bytes (kblock h (Small c a i))"
  shows "virt_to_page (vm_map (h_vm h)) (of_nat x) = Some (cp_page (h_cp h a))"
    and "unat a + 32 + 4 * unat (c_max (h_cache h c)) + unat i * unat (c_size (h_cache h c)) \<le> x"
    and "x < unat a + 32 + 4 * unat (c_max (h_cache h c)) + (unat i + 1) * unat (c_size (h_cache h c))"
    and "x < unat a + 4096"
proof -
  have ap: "a \<in> set (cpages (h_cache h c))" and im: "i < c_max (h_cache h c)"
    using o by (simp_all add: live_objs_def cp_live_def)
  have bk: "cp_backed h a" by (rule heap_invD(3) [OF inv c ap])
  note al = cp_backed_aligned [OF bk] and wf = heap_invD(1) [OF inv c]
  note geo = obj_geometry [OF wf al im]
  show "unat a + 32 + 4 * unat (c_max (h_cache h c)) + unat i * unat (c_size (h_cache h c)) \<le> x"
    "x < unat a + 32 + 4 * unat (c_max (h_cache h c)) + (unat i + 1) * unat (c_size (h_cache h c))"
    using x geo(1) by (auto simp: block_bytes_def algebra_simps)
  show lt: "x < unat a + 4096" using x geo(1,2) by (auto simp: block_bytes_def)
  have ge: "unat a \<le> x" using x geo(1) by (auto simp: block_bytes_def)
  have "x < 4294967296" using lt aligned_top [OF al] by linarith
  note o = aligned_offset [OF al ge lt this]
  show "virt_to_page (vm_map (h_vm h)) (of_nat x) = Some (cp_page (h_cp h a))"
    unfolding o(1) using kmapped_page [of "h_vm h" "cp_page (h_cp h a)"] o(2) bk by (simp add: cp_backed_def)
qed

lemma large_bytes:
  assumes l: "large_ok v p n" and x: "unat (page_to_virt v p) \<le> x" "x < unat (page_to_virt v p) + n * 4096"
  shows "\<exists>q\<in>run_pages (p, n). virt_to_page (vm_map v) (of_nat x) = Some q"
proof -
  obtain j where j: "j + n \<le> KERNEL_PAGES" "\<forall>d<n. kmapped v (p + d) \<and> page_to_virt v (p + d) = kvirt (j + d)"
    and n: "0 < n" using l unfolding large_ok_def by blast
  have u: "unat (kvirt (j + d)) = 3221225472 + j * 4096 + d * 4096" if "d < n" for d
    using kvirt_unat [of "j + d" 0] that j(1) by (simp add: algebra_simps)
  have p0: "page_to_virt v p = kvirt j" using j(2) n by (metis add_0_right)
  have pu: "unat (page_to_virt v p) = 3221225472 + j * 4096" using u [OF n] p0 by simp
  define d where "d = (x - unat (page_to_virt v p)) div 4096"
  have dn: "d < n" unfolding d_def using x by (simp add: div_less_iff_less_mult)
  have xd: "unat (kvirt (j + d)) \<le> x" "x < unat (kvirt (j + d)) + 4096"
    unfolding u [OF dn] using x(1) pu by (auto simp: d_def)
  have al: "unat (kvirt (j + d)) mod 4096 = 0"
  proof -
    have "unat (kvirt (j + d)) = 4096 * (786432 + j + d)" unfolding u [OF dn] by simp
    then show ?thesis by simp
  qed
  have "x < 4294967296" using xd(2) aligned_top [OF al] by linarith
  note o = aligned_offset [OF al xd this]
  have "virt_to_page (vm_map v) (page_to_virt v (p + d) + of_nat (x - unat (kvirt (j + d)))) = Some (p + d)"
    using kmapped_page o(2) j(2) dn by blast
  then have "virt_to_page (vm_map v) (of_nat x) = Some (p + d)" unfolding o(1) using j(2) dn by simp
  then show ?thesis using dn by (auto simp: run_pages_def)
qed

lemma tag_bytes:
  assumes inv: "kheap_inv h C L K" and t: "t \<in> ktags h C K" and x: "x \<in> block_bytes (kblock h t)"
  shows "\<exists>q\<in>run_pages (tag_run h t). virt_to_page (vm_map (h_vm h)) (of_nat x) = Some q"
proof (cases t)
  case (Small c a i)
  then have "c \<in> C" "(a, i) \<in> live_objs h c" using t by (auto simp: ktags_def)
  from small_bytes(1) [OF kheap_invD(1) [OF inv] this, of x] x Small show ?thesis by (simp add: run_pages_def)
next
  case (Large p n)
  then have "(p, n) \<in> K" using t by (auto simp: ktags_def)
  from large_bytes [OF kheap_invD(3) [OF inv this], of x] x Large show ?thesis by (simp add: block_bytes_def)
qed

lemma tag_run_in:
  assumes "kheap_inv h C L K" and "t \<in> ktags h C K"
  shows "tag_run h t \<in> L \<union> K \<union> cache_runs h C"
  using assms(2) by (auto simp: ktags_def cache_runs_def all_cpages_def live_objs_def)

lemma small_disjoint:
  assumes inv: "heap_inv h C L" and s: "c \<in> C" "(a, i) \<in> live_objs h c" "d \<in> C" "(b, j) \<in> live_objs h d"
    and pg: "cp_page (h_cp h a) = cp_page (h_cp h b)" and ne: "(c, a, i) \<noteq> (d, b, j)"
  shows "block_bytes (kblock h (Small c a i)) \<inter> block_bytes (kblock h (Small d b j)) = {}"
proof -
  have m: "a \<in> set (cpages (h_cache h c))" "b \<in> set (cpages (h_cache h d))" using s by (simp_all add: live_objs_def)
  have ab: "a = b" using heap_invD(3) [OF inv s(1) m(1)] heap_invD(3) [OF inv s(3) m(2)] pg by (auto simp: cp_backed_def)
  have cd: "c = d" using heap_invD(2) [OF inv s(1,3)] m ab by blast
  then have "unat i \<noteq> unat j" using ne ab by (simp add: word_unat_eq_iff)
  then have lt: "unat i + 1 \<le> unat j \<or> unat j + 1 \<le> unat i" by linarith
  let ?s = "unat (c_size (h_cache h c))"
  have "(unat i + 1) * ?s \<le> unat j * ?s \<or> (unat j + 1) * ?s \<le> unat i * ?s"
    using lt by (metis mult_le_mono1)
  moreover have "x \<notin> block_bytes (kblock h (Small d b j))" if x: "x \<in> block_bytes (kblock h (Small c a i))"
    and "(unat i + 1) * ?s \<le> unat j * ?s \<or> (unat j + 1) * ?s \<le> unat i * ?s" for x
  proof
    assume y: "x \<in> block_bytes (kblock h (Small d b j))"
    show False using small_bytes(2,3) [OF inv s(1,2) x] small_bytes(2,3) [OF inv s(3,4) y] that(2) ab cd by auto
  qed
  ultimately show ?thesis by blast
qed

lemma blocks_disjoint:
  assumes inv: "kheap_inv h C L K" and t: "t \<in> ktags h C K" and u: "u \<in> ktags h C K" and ne: "t \<noteq> u"
  shows "block_bytes (kblock h t) \<inter> block_bytes (kblock h u) = {}"
proof (cases "tag_run h t = tag_run h u")
  case False
  have "runs_disjoint (L \<union> K \<union> cache_runs h C)"
    using heap_invD(4) [OF kheap_invD(1) [OF inv]] by (simp add: runs_inv_def)
  from runs_disjointD [OF this tag_run_in [OF inv t] tag_run_in [OF inv u] False]
  have d: "run_pages (tag_run h t) \<inter> run_pages (tag_run h u) = {}" .
  show ?thesis
  proof (rule ccontr)
    assume "\<not> ?thesis"
    then obtain x where "x \<in> block_bytes (kblock h t)" "x \<in> block_bytes (kblock h u)" by blast
    from tag_bytes [OF inv t this(1)] tag_bytes [OF inv u this(2)] d show False by auto
  qed
next
  case True
  have k: "K \<inter> cache_runs h C = {}" using heap_invD(5) [OF kheap_invD(1) [OF inv]] by blast
  have sr: "tag_run h (Small c a i) \<in> cache_runs h C" if "Small c a i \<in> ktags h C K" for c a i
    using that by (auto simp: ktags_def cache_runs_def all_cpages_def live_objs_def)
  have lr: "(p, n) \<in> K" if "Large p n \<in> ktags h C K" for p n using that by (auto simp: ktags_def)
  show ?thesis
  proof (cases t; cases u)
    fix c a i d b j assume e: "t = Small c a i" "u = Small d b j"
    then show ?thesis using small_disjoint [OF kheap_invD(1) [OF inv], of c a i d b j] t u ne True
      by (auto simp: ktags_def)
  next
    fix c a i p n assume e: "t = Small c a i" "u = Large p n"
    then show ?thesis using sr [of c a i] lr [of p n] t u True k by auto
  next
    fix p n c a i assume e: "t = Large p n" "u = Small c a i"
    then show ?thesis using sr [of c a i] lr [of p n] t u True k by auto
  next
    fix p n q m assume "t = Large p n" "u = Large q m"
    then show ?thesis using True ne by simp
  qed
qed

lemma block_nonempty:
  assumes inv: "kheap_inv h C L K" and t: "t \<in> ktags h C K"
  shows "0 < snd (kblock h t)"
proof (cases t)
  case (Small c a i)
  then have "c \<in> C" using t by (auto simp: ktags_def)
  then show ?thesis using Small cache_wfD(1) [OF heap_invD(1) [OF kheap_invD(1) [OF inv]]] by (simp add: unat_gt_0)
next
  case (Large p n)
  then have "(p, n) \<in> K" using t by (auto simp: ktags_def)
  then show ?thesis using Large kheap_invD(3) [OF inv] by (simp add: large_ok_def)
qed

lemma kblock_inj:
  assumes inv: "kheap_inv h C L K" shows "inj_on (kblock h) (ktags h C K)"
proof (rule inj_onI, rule ccontr)
  fix t u assume a: "t \<in> ktags h C K" "u \<in> ktags h C K" "kblock h t = kblock h u" "t \<noteq> u"
  then have "block_bytes (kblock h u) = {}" using blocks_disjoint [OF inv a(1,2,4)] by simp
  then show False using block_nonempty [OF inv a(2)] by (simp add: block_bytes_def)
qed

section \<open>kmalloc and kfree\<close>

lemma large_ok_alloc:
  assumes l: "large_ok v p n" and e: "alloc_pages_effect v v' q m flags"
  shows "large_ok v' p n \<and> page_to_virt v' p = page_to_virt v p"
proof -
  obtain j where n: "0 < n" and cn: "pg_compound_num (mm_pages (vm_mm v) p) = n" and j: "j + n \<le> KERNEL_PAGES"
    and pg: "\<forall>d<n. kmapped v (p + d) \<and> page_to_virt v (p + d) = kvirt (j + d) \<and> flags_of (vm_mm v) (p + d) = PAGE_FLAG_USED"
    using l unfolding large_ok_def by blast
  have k: "kmapped v' (p + d) \<and> p + d \<notin> run_pages (q, m) \<and> page_to_virt v' (p + d) = page_to_virt v (p + d)" if "d < n" for d
    using kmapped_alloc [OF e, of "p + d"] pg that by (auto simp: is_free_def PAGE_FLAG_USED_def)
  then have "flags_of (vm_mm v') (p + d) = PAGE_FLAG_USED" if "d < n" for d
    using e pg that by (simp add: alloc_pages_effect_def)
  moreover have "pg_compound_num (mm_pages (vm_mm v') p) = n" using e k [OF n] cn by (simp add: alloc_pages_effect_def)
  ultimately show ?thesis unfolding large_ok_def using n j pg k k [OF n] by auto
qed

lemma kmalloc_small_ok:
  assumes inv: "kheap_inv h C L K" and sz: "sz \<le> KALLOC_CACHE_MAX" and r: "kmalloc sz h = Some (h', m)"
  shows "\<exists>t. t \<notin> ktags h C K \<and> kheap_inv h' C L K \<and> ktags h' C K = insert t (ktags h C K)
    \<and> (\<forall>u\<in>ktags h C K. kblock h' u = kblock h u) \<and> fst (kblock h' t) = m \<and> unat sz \<le> snd (kblock h' t)"
proof -
  obtain x where x: "x < KALLOC_NUM_CACHES" "kalloc_cache_index sz = Some x" "sz \<le> push_bit (x + KALLOC_CACHE_SHIFT_MIN) 1"
    using kalloc_index_ok [OF sz] by blast
  define c where "c = kalloc_cache h x"
  have c: "c \<in> C" "c_size (h_cache h c) = push_bit (x + KALLOC_CACHE_SHIFT_MIN) 1"
    using kheap_invD(4) [OF inv x(1)] by (simp_all add: c_def)
  have ca: "cache_alloc c h = Some (h', m)"
    using r sz x(2) by (auto simp: kmalloc_def kalloc_cache_alloc_def c_def elim!: bind_eq_SomeD split: if_splits)
  note hi = kheap_invD(1) [OF inv]
  obtain a i where h': "m = obj_addr (h_cache h c) a i" "heap_inv h' C (L \<union> K)" "obj_alloc_effect h h' C c a i"
    using cache_alloc_ok [OF hi c(1) cache_alloc_needs [OF hi c(1) ca]] ca by auto
  have ef: "(a, i) \<notin> live_objs h c" "live_objs h' c = insert (a, i) (live_objs h c)"
    "\<And>d. d \<in> C \<Longrightarrow> d \<noteq> c \<Longrightarrow> live_objs h' d = live_objs h d"
    "\<And>d. c_size (h_cache h' d) = c_size (h_cache h d) \<and> c_max (h_cache h' d) = c_max (h_cache h d)"
    "kalloc_cache h' = kalloc_cache h"
    "h_vm h' = h_vm h \<or> (\<exists>p. alloc_pages_effect (h_vm h) (h_vm h') p 1 ALLOC_CACHE)"
    using h'(3) unfolding obj_alloc_effect_def by blast+
  have lg: "large_ok (h_vm h') p n \<and> page_to_virt (h_vm h') p = page_to_virt (h_vm h) p" if "(p, n) \<in> K" for p n
    using ef(6) large_ok_alloc [OF kheap_invD(3) [OF inv that]] kheap_invD(3) [OF inv that] by auto
  have "kheap_inv h' C L K" using h'(2) lg ef(4,5) inv unfolding kheap_inv_def by auto
  moreover have "ktags h' C K = insert (Small c a i) (ktags h C K)"
  proof (rule set_eqI)
    fix x
    have lo: "live_objs h' d = (if d = c then insert (a, i) (live_objs h c) else live_objs h d)" if "d \<in> C" for d
      using ef(2,3) that by simp
    show "x \<in> ktags h' C K \<longleftrightarrow> x \<in> insert (Small c a i) (ktags h C K)"
      using lo c(1) by (cases x) (auto simp: ktags_def split: if_splits)
  qed
  moreover have "kblock h' u = kblock h u" if "u \<in> ktags h C K" for u
    using that lg ef(4) by (cases u) (auto simp: ktags_def obj_addr_def)
  moreover have "Small c a i \<notin> ktags h C K" using ef(1) by (simp add: ktags_def)
  ultimately show ?thesis using h'(1) ef(4) c(2) x(3)
    by (intro exI [of _ "Small c a i"]) (simp add: obj_addr_def word_le_nat_alt)
qed

lemma heap_inv_vm:
  assumes inv: "heap_inv h C L" and r: "runs_inv (vm_mm v') (L' \<union> cache_runs h C)" "L' \<inter> cache_runs h C = {}"
    and b: "\<And>a. a \<in> all_cpages h C \<Longrightarrow> cp_backed (h\<lparr>h_vm := v'\<rparr>) a"
    and nx: "unat (kernel_next_page (vm_map v')) \<le> KERNEL_PAGES"
  shows "heap_inv (h\<lparr>h_vm := v'\<rparr>) C L'"
proof -
  have "all_cpages (h\<lparr>h_vm := v'\<rparr>) C = all_cpages h C" "cache_runs (h\<lparr>h_vm := v'\<rparr>) C = cache_runs h C"
    by (simp_all add: all_cpages_def cache_runs_def)
  then show ?thesis using inv r b nx unfolding heap_inv_def by simp
qed

lemma DIV_UP_pages:
  assumes "KALLOC_CACHE_MAX < sz"
  shows "DIV_UP sz PAGE_SIZE \<noteq> 0" and "unat sz \<le> unat (DIV_UP sz PAGE_SIZE) * 4096"
proof -
  have e: "unat (DIV_UP sz PAGE_SIZE) = (unat sz + 4095) div 4096" by (subst DIV_UP_eq) (simp_all add: PAGE_SIZE_def)
  show "unat sz \<le> unat (DIV_UP sz PAGE_SIZE) * 4096" unfolding e by simp
  moreover have "0 < unat sz" using assms by (simp add: word_less_nat_alt KALLOC_CACHE_MAX_def KALLOC_CACHE_SHIFT_MAX_def)
  ultimately show "DIV_UP sz PAGE_SIZE \<noteq> 0" by (cases "DIV_UP sz PAGE_SIZE = 0") auto
qed

lemma large_ok_new:
  assumes e: "alloc_pages_effect v v' p n ALLOC_COMPOUND" and n: "0 < n"
    and nx: "unat (kernel_next_page (vm_map v)) + n \<le> KERNEL_PAGES"
  shows "large_ok v' p n"
proof -
  have "p + d \<in> run_pages (p, n)" if "d < n" for d using that by (simp add: run_pages_def)
  then have "\<forall>d<n. kmapped v' (p + d) \<and> page_to_virt v' (p + d) = kvirt (unat (kernel_next_page (vm_map v)) + d)
      \<and> flags_of (vm_mm v') (p + d) = PAGE_FLAG_USED"
    using e by (simp add: alloc_pages_effect_def alloc_flags_def ALLOC_COMPOUND_def ALLOC_CACHE_def)
  moreover have "pg_compound_num (mm_pages (vm_mm v') p) = n"
    using e by (simp add: alloc_pages_effect_def ALLOC_COMPOUND_def)
  ultimately show ?thesis unfolding large_ok_def using n nx by blast
qed

lemma kmalloc_large_ok:
  assumes inv: "kheap_inv h C L K" and sz: "KALLOC_CACHE_MAX < sz" and r: "kmalloc sz h = Some (h', m)"
  shows "\<exists>K' t. t \<notin> ktags h C K \<and> kheap_inv h' C L K' \<and> ktags h' C K' = insert t (ktags h C K)
    \<and> (\<forall>u\<in>ktags h C K. kblock h' u = kblock h u) \<and> fst (kblock h' t) = m \<and> unat sz \<le> snd (kblock h' t)"
proof -
  let ?n = "DIV_UP sz PAGE_SIZE"
  note hi = kheap_invD(1) [OF inv]
  obtain v1 p where a: "alloc_pages ?n ALLOC_COMPOUND (h_vm h) = Some (v1, p)" and h': "h' = h\<lparr>h_vm := v1\<rparr>" "m = page_to_virt v1 p"
    using r sz by (auto simp: kmalloc_def elim!: bind_eq_SomeD split: if_splits)
  note nd = alloc_pages_needs [OF heap_invD(4,6) [OF hi] a]
  obtain b: "runs_inv (vm_mm v1) (insert (p, unat ?n) (L \<union> K \<union> cache_runs h C))" "(p, unat ?n) \<notin> L \<union> K \<union> cache_runs h C"
    and e: "alloc_pages_effect (h_vm h) v1 p (unat ?n) ALLOC_COMPOUND"
    using alloc_pages_ok [OF heap_invD(4) [OF hi] nd, of ALLOC_COMPOUND] a by auto
  define K' where "K' = insert (p, unat ?n) K"
  have n0: "0 < unat ?n" using nd(1) by (simp add: unat_gt_0)
  have hv: "heap_inv h' C (L \<union> K')" unfolding h'(1)
  proof (rule heap_inv_vm [OF hi])
    show "runs_inv (vm_mm v1) (L \<union> K' \<union> cache_runs h C)" using b by (simp add: K'_def)
    show "(L \<union> K') \<inter> cache_runs h C = {}" using b(2) heap_invD(5) [OF hi] by (auto simp: K'_def)
    show "cp_backed (h\<lparr>h_vm := v1\<rparr>) x" if "x \<in> all_cpages h C" for x
      using cp_backed_alloc [OF e, of x] that hi unfolding heap_inv_def by blast
    show "unat (kernel_next_page (vm_map v1)) \<le> KERNEL_PAGES" using e nd(3) by (simp add: alloc_pages_effect_def)
  qed
  have lg: "large_ok v1 q n \<and> page_to_virt v1 q = page_to_virt (h_vm h) q" if "(q, n) \<in> K" for q n
    by (rule large_ok_alloc [OF kheap_invD(3) [OF inv that] e])
  have "kheap_inv h' C L K'"
    unfolding kheap_inv_def using hv b(2) kheap_invD(2) [OF inv] lg large_ok_new [OF e n0 nd(3)] inv
    by (auto simp: K'_def h'(1) kheap_inv_def)
  moreover have "ktags h' C K' = insert (Large p (unat ?n)) (ktags h C K)"
    by (auto simp: ktags_def K'_def h'(1) live_objs_def)
  moreover have "kblock h' u = kblock h u" if "u \<in> ktags h C K" for u
    using that lg by (cases u) (auto simp: ktags_def h'(1))
  moreover have "Large p (unat ?n) \<notin> ktags h C K" using b(2) by (simp add: ktags_def)
  ultimately show ?thesis using DIV_UP_pages(2) [OF sz] h'
    by (intro exI [of _ K'] exI [of _ "Large p (unat ?n)"]) simp
qed

lemma obj_addr_base:
  assumes inv: "heap_inv h C L" and c: "c \<in> C" and o: "(a, i) \<in> live_objs h c"
  shows "mem_to_cache_page (obj_addr (h_cache h c) a i) = a"
    and "virt_to_page (vm_map (h_vm h)) (obj_addr (h_cache h c) a i) = Some (cp_page (h_cp h a))"
    and "obj_addr (h_cache h c) a i \<noteq> 0"
proof -
  have ap: "a \<in> set (cpages (h_cache h c))" and im: "i < c_max (h_cache h c)"
    using o by (simp_all add: live_objs_def cp_live_def)
  note wf = heap_invD(1) [OF inv c] and al = cp_backed_aligned [OF heap_invD(3) [OF inv c ap]]
  note geo = obj_geometry [OF wf al im]
  show "mem_to_cache_page (obj_addr (h_cache h c) a i) = a" by (rule geo(3))
  have "unat (obj_addr (h_cache h c) a i) \<in> block_bytes (kblock h (Small c a i))"
    using cache_wfD(1) [OF wf] by (simp add: block_bytes_def unat_gt_0)
  from small_bytes(1) [OF inv c o this] show "virt_to_page (vm_map (h_vm h)) (obj_addr (h_cache h c) a i) = Some (cp_page (h_cp h a))"
    by simp
  show "obj_addr (h_cache h c) a i \<noteq> 0" using geo(1) by (metis add_is_0 unat_0 zero_neq_numeral)
qed

lemma kfree_small_ok:
  assumes inv: "kheap_inv h C L K" and t: "Small c a i \<in> ktags h C K"
  shows "\<exists>h'. kfree (fst (kblock h (Small c a i))) h = Some h' \<and> kheap_inv h' C L K
    \<and> ktags h' C K = ktags h C K - {Small c a i} \<and> (\<forall>u\<in>ktags h C K. kblock h' u = kblock h u)"
proof -
  note hi = kheap_invD(1) [OF inv]
  have c: "c \<in> C" and o: "(a, i) \<in> live_objs h c" using t by (auto simp: ktags_def)
  have ap: "a \<in> set (cpages (h_cache h c))" using o by (simp add: live_objs_def)
  note ad = obj_addr_base [OF hi c o]
  obtain h' where h': "cache_free c (obj_addr (h_cache h c) a i) h = Some h'" "heap_inv h' C (L \<union> K)"
    "obj_free_effect h h' C c a i" using cache_free_ok [OF hi c o] by blast
  have bk: "flags_of (vm_mm (h_vm h)) (cp_page (h_cp h a)) AND PAGE_FLAG_CACHE \<noteq> 0"
    using heap_invD(3) [OF hi c ap] by (simp add: cp_backed_def PAGE_FLAG_USED_def PAGE_FLAG_CACHE_def)
  have "cp_cache (h_cp h a) = c" using cache_wfD(6) [OF heap_invD(1) [OF hi c] ap] .
  then have k: "kfree (fst (kblock h (Small c a i))) h = Some h'"
    using ad bk h'(1) by (simp add: kfree_def kalloc_cache_free_def)
  have ef: "\<And>d. d \<in> C \<Longrightarrow> live_objs h' d = (if d = c then live_objs h c - {(a, i)} else live_objs h d)"
    "\<And>d. c_size (h_cache h' d) = c_size (h_cache h d) \<and> c_max (h_cache h' d) = c_max (h_cache h d)"
    "kalloc_cache h' = kalloc_cache h" "h_vm h' = h_vm h"
    using h'(3) by (simp_all add: obj_free_effect_def)
  have "kheap_inv h' C L K" using h'(2) ef inv unfolding kheap_inv_def by simp
  moreover have "ktags h' C K = ktags h C K - {Small c a i}"
  proof (rule set_eqI)
    fix x show "x \<in> ktags h' C K \<longleftrightarrow> x \<in> ktags h C K - {Small c a i}"
      using ef(1) by (cases x) (auto simp: ktags_def split: if_splits)
  qed
  moreover have "kblock h' u = kblock h u" for u using ef by (cases u) (auto simp: obj_addr_def)
  ultimately show ?thesis using k by blast
qed

lemma free_effect_vm:
  assumes e: "free_effect (set_compound p 0 s) s' p n" and q: "q \<notin> run_pages (p, n)" and n: "0 < n"
  shows "flags_of s' q = flags_of s q \<and> pg_addr (mm_pages s' q) = pg_addr (mm_pages s q)
    \<and> pg_compound_num (mm_pages s' q) = pg_compound_num (mm_pages s q)"
proof -
  have "q \<noteq> p" using q n by (auto simp: run_pages_def)
  then show ?thesis using e q by (auto simp: free_effect_def set_compound_def run_pages_def)
qed

definition same_page :: "vm \<Rightarrow> vm \<Rightarrow> nat \<Rightarrow> bool" where
  "same_page v v' q = (kmapped v' q = kmapped v q \<and> page_to_virt v' q = page_to_virt v q
     \<and> flags_of (vm_mm v') q = flags_of (vm_mm v) q
     \<and> pg_compound_num (mm_pages (vm_mm v') q) = pg_compound_num (mm_pages (vm_mm v) q))"

lemma large_ok_same:
  assumes "large_ok v p n" and "\<And>q. q \<in> run_pages (p, n) \<Longrightarrow> same_page v v' q"
  shows "large_ok v' p n"
proof -
  have "same_page v v' (p + d)" if "d < n" for d using assms(2) that by (simp add: run_pages_def)
  then show ?thesis using assms(1) unfolding large_ok_def same_page_def by (metis add_0_right)
qed

lemma cp_backed_same: "cp_backed h b \<Longrightarrow> same_page (h_vm h) v' (cp_page (h_cp h b)) \<Longrightarrow> cp_backed (h\<lparr>h_vm := v'\<rparr>) b"
  by (simp add: cp_backed_def same_page_def)

lemma kfree_large_ok:
  assumes inv: "kheap_inv h C L K" and t: "Large p n \<in> ktags h C K"
  shows "\<exists>h'. kfree (fst (kblock h (Large p n))) h = Some h' \<and> kheap_inv h' C L (K - {(p, n)})
    \<and> ktags h' C (K - {(p, n)}) = ktags h C K - {Large p n}
    \<and> (\<forall>u\<in>ktags h C K. kblock h' u = kblock h u)"
proof -
  note hi = kheap_invD(1) [OF inv]
  let ?s = "vm_mm (h_vm h)"
  have pn: "(p, n) \<in> K" using t by (auto simp: ktags_def)
  note lg = kheap_invD(3) [OF inv pn]
  then obtain j where n: "0 < n" and cn: "pg_compound_num (mm_pages ?s p) = n"
    and pg: "kmapped (h_vm h) p" "flags_of ?s p = PAGE_FLAG_USED" unfolding large_ok_def by (metis add_0_right)
  obtain s' where s': "free_pages p n ?s = Some s'" "runs_inv s' (L \<union> K \<union> cache_runs h C - {(p, n)})"
    "free_effect (set_compound p 0 ?s) s' p n"
    using runs_inv_free [OF heap_invD(4) [OF hi], of p n] pn by blast
  define h' where "h' = h\<lparr>h_vm := (h_vm h)\<lparr>vm_mm := s'\<rparr>\<rparr>"
  have k: "kfree (fst (kblock h (Large p n))) h = Some h'"
    using kmapped_nonnull [OF pg(1)] kmapped_page [OF pg(1), of 0] pg(2) cn n s'(1)
    by (simp add: kfree_def h'_def Let_def PAGE_FLAG_USED_def PAGE_FLAG_CACHE_def)
  have rd: "runs_disjoint (L \<union> K \<union> cache_runs h C)" using heap_invD(4) [OF hi] by (simp add: runs_inv_def)
  have other: "q \<notin> run_pages (p, n)" if "x \<in> L \<union> K \<union> cache_runs h C" "x \<noteq> (p, n)" "q \<in> run_pages x" for q x
    using runs_disjointD [OF rd that(1), of "(p, n)"] that(2,3) pn by blast
  have km: "same_page (h_vm h) (h_vm h') q" if "q \<notin> run_pages (p, n)" for q
    using free_effect_vm [OF s'(3) that n] by (simp add: h'_def kmapped_def page_to_virt_def same_page_def)
  have av: "page_to_virt (h_vm h') q = page_to_virt (h_vm h) q" for q
    using s'(3) by (simp add: h'_def page_to_virt_def free_effect_def set_compound_def)
  have lk: "large_ok (h_vm h') q m" if "(q, m) \<in> K - {(p, n)}" for q m
    using that by (intro large_ok_same [OF kheap_invD(3) [OF inv]] km other [of "(q, m)"]) auto
  have nc: "(p, n) \<notin> cache_runs h C" "(p, n) \<notin> L" using heap_invD(5) [OF hi] kheap_invD(2) [OF inv] pn by auto
  have hv: "heap_inv h' C (L \<union> (K - {(p, n)}))" unfolding h'_def
  proof (rule heap_inv_vm [OF hi])
    have "L \<union> K \<union> cache_runs h C - {(p, n)} = L \<union> (K - {(p, n)}) \<union> cache_runs h C" using nc by auto
    then show "runs_inv (vm_mm ((h_vm h)\<lparr>vm_mm := s'\<rparr>)) (L \<union> (K - {(p, n)}) \<union> cache_runs h C)" using s'(2) by simp
    show "(L \<union> (K - {(p, n)})) \<inter> cache_runs h C = {}" using heap_invD(5) [OF hi] by blast
    show "unat (kernel_next_page (vm_map ((h_vm h)\<lparr>vm_mm := s'\<rparr>))) \<le> KERNEL_PAGES" using heap_invD(6) [OF hi] by simp
    fix b assume b: "b \<in> all_cpages h C"
    then have "(cp_page (h_cp h b), 1) \<in> cache_runs h C" by (auto simp: cache_runs_def)
    then have "cp_page (h_cp h b) \<notin> run_pages (p, n)"
      using other [of "(cp_page (h_cp h b), 1)" "cp_page (h_cp h b)"] nc(1) by (auto simp: run_pages_def)
    note km [OF this]
    moreover have "cp_backed h b" using hi b unfolding heap_inv_def by blast
    ultimately show "cp_backed (h\<lparr>h_vm := (h_vm h)\<lparr>vm_mm := s'\<rparr>\<rparr>) b"
      by (intro cp_backed_same) (simp_all add: h'_def)
  qed
  have "kheap_inv h' C L (K - {(p, n)})"
    unfolding kheap_inv_def using hv lk inv by (auto simp: h'_def kheap_inv_def)
  moreover have "ktags h' C (K - {(p, n)}) = ktags h C K - {Large p n}"
  proof (rule set_eqI)
    fix x show "x \<in> ktags h' C (K - {(p, n)}) \<longleftrightarrow> x \<in> ktags h C K - {Large p n}"
      by (cases x) (auto simp: ktags_def h'_def live_objs_def)
  qed
  moreover have "kblock h' u = kblock h u" for u using av by (cases u) (auto simp: h'_def)
  ultimately show ?thesis using k by blast
qed

section \<open>The heap as its clients see it\<close>

text \<open>
  The contract of a heap: live blocks are non-empty and pairwise disjoint, an allocation that
  returns adds one block of at least the size asked for, and every live block can be freed.
\<close>

locale object_allocator =
  fixes inv :: "'h \<Rightarrow> (u32 \<times> nat) set \<Rightarrow> bool"
    and alloc :: "u32 \<Rightarrow> 'h \<Rightarrow> ('h \<times> u32) option"
    and free :: "u32 \<Rightarrow> 'h \<Rightarrow> 'h option"
  assumes nonempty: "inv h B \<Longrightarrow> b \<in> B \<Longrightarrow> 0 < snd b"
    and disjoint: "inv h B \<Longrightarrow> b \<in> B \<Longrightarrow> b' \<in> B \<Longrightarrow> b \<noteq> b' \<Longrightarrow> block_bytes b \<inter> block_bytes b' = {}"
    and alloc_ok: "inv h B \<Longrightarrow> alloc n h = Some (h', m) \<Longrightarrow>
      \<exists>len. unat n \<le> len \<and> (m, len) \<notin> B \<and> inv h' (insert (m, len) B)"
    and free_ok: "inv h B \<Longrightarrow> (m, len) \<in> B \<Longrightarrow> \<exists>h'. free m h = Some h' \<and> inv h' (B - {(m, len)})"

text \<open>A client that allocates and frees in any order; it frees the \<open>i\<close>-th of its pointers.\<close>

datatype heap_op = Malloc u32 | Mfree nat

fun heap_trace :: "(u32 \<Rightarrow> 'h \<Rightarrow> ('h \<times> u32) option) \<Rightarrow> (u32 \<Rightarrow> 'h \<Rightarrow> 'h option)
    \<Rightarrow> heap_op list \<Rightarrow> 'h \<Rightarrow> u32 list \<Rightarrow> (heap_op list \<times> 'h \<times> u32 list)" where
  "heap_trace alloc free [] h ptrs = ([], h, ptrs)"
| "heap_trace alloc free (Malloc n # ops) h ptrs =
     (case alloc n h of None \<Rightarrow> (Malloc n # ops, h, ptrs)
      | Some (h', m) \<Rightarrow> heap_trace alloc free ops h' (m # ptrs))"
| "heap_trace alloc free (Mfree i # ops) h ptrs =
     (if i < length ptrs
      then case free (ptrs ! i) h of None \<Rightarrow> (Mfree i # ops, h, ptrs)
        | Some h' \<Rightarrow> heap_trace alloc free ops h' (take i ptrs @ drop (Suc i) ptrs)
      else heap_trace alloc free ops h ptrs)"

context object_allocator
begin

lemma addr_unique:
  assumes i: "inv h B" and m: "(m, l) \<in> B" "(m, l') \<in> B"
  shows "l = l'"
proof (rule ccontr)
  assume "l \<noteq> l'"
  then have "block_bytes (m, l) \<inter> block_bytes (m, l') = {}" using disjoint [OF i m] by blast
  moreover have "unat m \<in> block_bytes (m, l) \<inter> block_bytes (m, l')"
    using nonempty [OF i m(1)] nonempty [OF i m(2)] by (simp add: block_bytes_def)
  ultimately show False by blast
qed

lemma heap_trace_stops_only_at_alloc:
  "inv h B \<Longrightarrow> distinct ptrs \<Longrightarrow> set ptrs \<subseteq> fst ` B \<Longrightarrow> heap_trace alloc free ops h ptrs = (rest, h', ptrs') \<Longrightarrow>
     \<exists>B'. inv h' B' \<and> distinct ptrs' \<and> set ptrs' \<subseteq> fst ` B'
       \<and> (rest = [] \<or> (\<exists>n ops'. rest = Malloc n # ops' \<and> alloc n h' = None))"
proof (induction ops arbitrary: h B ptrs)
  case Nil then show ?case by auto
next
  case (Cons x ops)
  show ?case
  proof (cases x)
    case (Malloc n)
    show ?thesis
    proof (cases "alloc n h")
      case None then show ?thesis using Cons.prems Malloc by auto
    next
      case (Some r)
      then obtain h1 m where r: "alloc n h = Some (h1, m)" by (cases r) auto
      obtain len where l: "(m, len) \<notin> B" "inv h1 (insert (m, len) B)" using alloc_ok [OF Cons.prems(1) r] by blast
      have "m \<notin> fst ` B"
      proof
        assume "m \<in> fst ` B"
        then obtain l' where l': "(m, l') \<in> B" by auto
        with addr_unique [OF l(2), of m len l'] l(1) show False by simp
      qed
      then have d: "distinct (m # ptrs)" "set (m # ptrs) \<subseteq> fst ` insert (m, len) B" using Cons.prems(2,3) by auto
      show ?thesis using Cons.IH [OF l(2) d] Cons.prems(4) r Malloc by simp
    qed
  next
    case (Mfree i)
    show ?thesis
    proof (cases "i < length ptrs")
      case True
      let ?l = "take i ptrs @ drop (Suc i) ptrs"
      obtain len where len: "(ptrs ! i, len) \<in> B" using Cons.prems(3) nth_mem [OF True] by auto
      then obtain h1 where h1: "free (ptrs ! i) h = Some h1" "inv h1 (B - {(ptrs ! i, len)})"
        using free_ok [OF Cons.prems(1)] by blast
      have l: "ptrs = take i ptrs @ ptrs ! i # drop (Suc i) ptrs" using True by (rule id_take_nth_drop)
      have d: "distinct (take i ptrs @ ptrs ! i # drop (Suc i) ptrs)" using Cons.prems(2) l by simp
      have s: "set ptrs = set (take i ptrs @ ptrs ! i # drop (Suc i) ptrs)" using l by simp
      have "set ?l \<subseteq> fst ` B - {ptrs ! i}" using d s Cons.prems(3) by auto
      moreover have "fst ` B - {ptrs ! i} \<subseteq> fst ` (B - {(ptrs ! i, len)})" by auto
      ultimately have "set ?l \<subseteq> fst ` (B - {(ptrs ! i, len)})" by (rule subset_trans)
      then show ?thesis using Cons.IH [OF h1(2), of ?l] h1(1) d Cons.prems(4) True Mfree by simp
    qed (use Cons Mfree in simp)
  qed
qed

end

definition kheap_spec :: "u32 set \<Rightarrow> (nat \<times> nat) set \<Rightarrow> heap \<Rightarrow> (u32 \<times> nat) set \<Rightarrow> bool" where
  "kheap_spec C L h B = (\<exists>K. kheap_inv h C L K \<and> B = kblock h ` ktags h C K)"

lemma kmalloc_ok:
  assumes "kheap_inv h C L K" and "kmalloc sz h = Some (h', m)"
  shows "\<exists>K' t. t \<notin> ktags h C K \<and> kheap_inv h' C L K' \<and> ktags h' C K' = insert t (ktags h C K)
    \<and> (\<forall>u\<in>ktags h C K. kblock h' u = kblock h u) \<and> fst (kblock h' t) = m \<and> unat sz \<le> snd (kblock h' t)"
proof (cases "sz \<le> KALLOC_CACHE_MAX")
  case True
  show ?thesis by (rule exI [of _ K]) (rule kmalloc_small_ok [OF assms(1) True assms(2)])
next
  case False
  then show ?thesis by (intro kmalloc_large_ok [OF assms(1) _ assms(2)]) simp
qed

lemma kfree_ok:
  assumes inv: "kheap_inv h C L K" and t: "t \<in> ktags h C K"
  shows "\<exists>h' K'. kfree (fst (kblock h t)) h = Some h' \<and> kheap_inv h' C L K' \<and> ktags h' C K' = ktags h C K - {t}
    \<and> (\<forall>u\<in>ktags h C K. kblock h' u = kblock h u)"
proof (cases t)
  case (Small c a i)
  then show ?thesis using kfree_small_ok [OF inv, of c a i] t by metis
next
  case (Large p n)
  then show ?thesis using kfree_large_ok [OF inv, of p n] t by metis
qed

lemma kheap_spec_alloc:
  assumes "kheap_spec C L h B" and "kmalloc sz h = Some (h', m)"
  shows "\<exists>len. unat sz \<le> len \<and> (m, len) \<notin> B \<and> kheap_spec C L h' (insert (m, len) B)"
proof -
  obtain K where K: "kheap_inv h C L K" "B = kblock h ` ktags h C K" using assms(1) by (auto simp: kheap_spec_def)
  obtain K' t where t: "t \<notin> ktags h C K" "kheap_inv h' C L K'" "ktags h' C K' = insert t (ktags h C K)"
    "\<forall>u\<in>ktags h C K. kblock h' u = kblock h u" "fst (kblock h' t) = m" "unat sz \<le> snd (kblock h' t)"
    using kmalloc_ok [OF K(1) assms(2)] by blast
  have B: "B = kblock h' ` ktags h C K" using K(2) t(4) by (auto intro: image_cong)
  then have "kblock h' ` ktags h' C K' = insert (kblock h' t) B" using t(3) by simp
  moreover have "kblock h' t \<notin> B"
    using kblock_inj [OF t(2)] t(1) unfolding B t(3) by (auto simp: inj_on_def)
  ultimately show ?thesis using t(2,5,6) unfolding kheap_spec_def by (metis prod.collapse)
qed

lemma kheap_spec_free:
  assumes "kheap_spec C L h B" and m: "(m, len) \<in> B"
  shows "\<exists>h'. kfree m h = Some h' \<and> kheap_spec C L h' (B - {(m, len)})"
proof -
  obtain K t where K: "kheap_inv h C L K" "B = kblock h ` ktags h C K" and t: "t \<in> ktags h C K" "kblock h t = (m, len)"
    using assms by (auto simp: kheap_spec_def)
  obtain h' K' where h': "kfree m h = Some h'" "kheap_inv h' C L K'" "ktags h' C K' = ktags h C K - {t}"
    "\<forall>u\<in>ktags h C K. kblock h' u = kblock h u" using kfree_ok [OF K(1) t(1)] t(2) by auto
  have "kblock h' ` (ktags h C K - {t}) = kblock h ` (ktags h C K - {t})" using h'(4) by (intro image_cong) auto
  also have "\<dots> = B - {(m, len)}"
    using inj_on_image_set_diff [OF kblock_inj [OF K(1)], of "ktags h C K" "{t}"] t K(2) by simp
  finally have "kblock h' ` ktags h' C K' = B - {(m, len)}" unfolding h'(3) .
  then have "kheap_spec C L h' (B - {(m, len)})" using h'(2) unfolding kheap_spec_def by (intro exI [of _ K']) simp
  then show ?thesis using h'(1) by simp
qed

interpretation kheap: object_allocator "kheap_spec C L" kmalloc kfree for C L
proof (unfold_locales, goal_cases)
  case (1 h B b)
  then obtain K t where "kheap_inv h C L K" "t \<in> ktags h C K" "b = kblock h t" by (auto simp: kheap_spec_def)
  then show ?case using block_nonempty by blast
next
  case (2 h B b b')
  then obtain K t u where "kheap_inv h C L K" "t \<in> ktags h C K" "b = kblock h t" "u \<in> ktags h C K" "b' = kblock h u"
    by (auto simp: kheap_spec_def)
  then show ?case using blocks_disjoint [of h C L K t u] 2(4) by blast
next
  case 3 then show ?case by (rule kheap_spec_alloc)
next
  case 4 then show ?case by (rule kheap_spec_free)
qed

text \<open>There is memory for a request: a cache page with space or a page for a new one, or a run of pages.\<close>

definition heap_room :: "u32 \<Rightarrow> heap \<Rightarrow> bool" where
  "heap_room sz h =
     (let v = h_vm h; used = unat (kernel_next_page (vm_map v)) in
      if sz \<le> KALLOC_CACHE_MAX
      then (let k = h_cache h (kalloc_cache h (the (kalloc_cache_index sz))) in
        c_partial k \<noteq> [] \<or> c_empty k \<noteq> [] \<or> room_for (vm_mm v) 1 \<and> used < KERNEL_PAGES)
      else room_for (vm_mm v) (unat (DIV_UP sz PAGE_SIZE)) \<and> used + unat (DIV_UP sz PAGE_SIZE) \<le> KERNEL_PAGES)"

lemma kmalloc_small_returns:
  assumes inv: "kheap_inv h C L K" and sz: "sz \<le> KALLOC_CACHE_MAX"
  shows "kmalloc sz h \<noteq> None \<longleftrightarrow> heap_room sz h"
proof -
  note hi = kheap_invD(1) [OF inv]
  obtain x where x: "x < KALLOC_NUM_CACHES" "kalloc_cache_index sz = Some x" using kalloc_index_ok [OF sz] by blast
  define c where "c = kalloc_cache h x"
  have c: "c \<in> C" using kheap_invD(4) [OF inv x(1)] by (simp add: c_def)
  have k: "kmalloc sz h = (do { (h1, mem) \<leftarrow> cache_alloc c h; p \<leftarrow> virt_to_page (vm_map (h_vm h1)) mem;
      bug_on (flags_of (vm_mm (h_vm h1)) p AND PAGE_FLAG_CACHE = 0); Some (h1, mem) })"
    using sz leD [OF sz] x(2) by (simp add: kmalloc_def kalloc_cache_alloc_def c_def)
  show ?thesis
  proof
    assume "kmalloc sz h \<noteq> None"
    then obtain r where "cache_alloc c h = Some r" unfolding k by (cases "cache_alloc c h") auto
    from cache_alloc_needs [OF hi c this] show "heap_room sz h" using sz x(2) by (simp add: heap_room_def Let_def c_def)
  next
    assume "heap_room sz h"
    then have "c_partial (h_cache h c) \<noteq> [] \<or> c_empty (h_cache h c) \<noteq> []
      \<or> room_for (vm_mm (h_vm h)) 1 \<and> unat (kernel_next_page (vm_map (h_vm h))) < KERNEL_PAGES"
      using sz x(2) by (simp add: heap_room_def Let_def c_def)
    from cache_alloc_ok [OF hi c this] obtain h' a i where h': "cache_alloc c h = Some (h', obj_addr (h_cache h c) a i)"
      "heap_inv h' C (L \<union> K)" "obj_alloc_effect h h' C c a i" by blast
    have live: "(a, i) \<in> live_objs h' c" and same: "obj_addr (h_cache h c) a i = obj_addr (h_cache h' c) a i"
      using h'(3) by (simp_all add: obj_alloc_effect_def obj_addr_def)
    have "a \<in> set (cpages (h_cache h' c))" using live by (simp add: live_objs_def)
    then have "flags_of (vm_mm (h_vm h')) (cp_page (h_cp h' a)) AND PAGE_FLAG_CACHE \<noteq> 0"
      using heap_invD(3) [OF h'(2) c] by (simp add: cp_backed_def PAGE_FLAG_USED_def PAGE_FLAG_CACHE_def)
    then show "kmalloc sz h \<noteq> None"
      unfolding k h'(1) same using obj_addr_base(2) [OF h'(2) c live] by simp
  qed
qed

lemma kmalloc_large_returns:
  assumes inv: "kheap_inv h C L K" and sz: "KALLOC_CACHE_MAX < sz"
  shows "kmalloc sz h \<noteq> None \<longleftrightarrow> heap_room sz h"
proof
  note hi = kheap_invD(1) [OF inv]
  let ?n = "DIV_UP sz PAGE_SIZE"
  have k: "kmalloc sz h = (do { (v1, p) \<leftarrow> alloc_pages ?n ALLOC_COMPOUND (h_vm h);
      Some (h\<lparr>h_vm := v1\<rparr>, page_to_virt v1 p) })" using sz by (auto simp: kmalloc_def)
  have r: "heap_room sz h \<longleftrightarrow> room_for (vm_mm (h_vm h)) (unat ?n) \<and> unat (kernel_next_page (vm_map (h_vm h))) + unat ?n \<le> KERNEL_PAGES"
    using sz by (auto simp: heap_room_def Let_def)
  show "heap_room sz h" if ks: "kmalloc sz h \<noteq> None"
  proof -
    obtain v1 p where "alloc_pages ?n ALLOC_COMPOUND (h_vm h) = Some (v1, p)"
      using ks unfolding k by (cases "alloc_pages ?n ALLOC_COMPOUND (h_vm h)") auto
    from alloc_pages_needs [OF heap_invD(4,6) [OF hi] this] show ?thesis unfolding r by simp
  qed
  show "kmalloc sz h \<noteq> None" if "heap_room sz h"
  proof -
    have a: "room_for (vm_mm (h_vm h)) (unat ?n)" "unat (kernel_next_page (vm_map (h_vm h))) + unat ?n \<le> KERNEL_PAGES"
      using that unfolding r by auto
    from alloc_pages_ok [OF heap_invD(4) [OF hi] DIV_UP_pages(1) [OF sz] a, of ALLOC_COMPOUND]
    show ?thesis unfolding k by auto
  qed
qed

section \<open>Properties\<close>

text \<open>
  C4. \<^verbatim>\<open>kmalloc\<close> returns exactly when there is memory for the request, and then returns a block of
  at least the size asked for that shares no byte with any live block; it keeps the invariant of
  the heap, in which the block is now live. Small requests come from the power-of-two caches,
  which take new pages as they need them, large ones from the page allocator.
\<close>
theorem kmalloc_fresh_block:
  assumes "kheap_spec C L h B"
  shows "(kmalloc sz h \<noteq> None \<longleftrightarrow> heap_room sz h)
    \<and> (\<forall>h' m. kmalloc sz h = Some (h', m) \<longrightarrow> (\<exists>len. unat sz \<le> len \<and> kheap_spec C L h' (insert (m, len) B)
         \<and> (m, len) \<notin> B \<and> (\<forall>b\<in>B. block_bytes (m, len) \<inter> block_bytes b = {})))"
proof (intro conjI allI impI)
  obtain K where "kheap_inv h C L K" using assms by (auto simp: kheap_spec_def)
  then show "kmalloc sz h \<noteq> None \<longleftrightarrow> heap_room sz h"
    using kmalloc_small_returns [of h C L K sz] kmalloc_large_returns [of h C L K sz] by (cases "sz \<le> KALLOC_CACHE_MAX") auto
  fix h' m assume "kmalloc sz h = Some (h', m)"
  from kheap.alloc_ok [OF assms this] obtain len where l: "unat sz \<le> len" "(m, len) \<notin> B" "kheap_spec C L h' (insert (m, len) B)" by blast
  have "block_bytes (m, len) \<inter> block_bytes b = {}" if "b \<in> B" for b
    using kheap.disjoint [OF l(3), of "(m, len)" b] that l(2) by auto
  then show "\<exists>len. unat sz \<le> len \<and> kheap_spec C L h' (insert (m, len) B)
         \<and> (m, len) \<notin> B \<and> (\<forall>b\<in>B. block_bytes (m, len) \<inter> block_bytes b = {})" using l by blast
qed

definition small_heap :: heap where
  "small_heap = \<lparr>h_vm = small_vm, h_cp = (\<lambda>_. \<lparr>cp_cache = 0, cp_left = 0, cp_free = 0, cp_freelist = (\<lambda>_. 0), cp_mem = 0, cp_page = 0\<rparr>),
     h_cache = (\<lambda>c. \<lparr>c_size = push_bit (unat c) 1, c_max = objs_per_page (push_bit (unat c) 1), c_flags = 0,
       c_full = [], c_partial = [], c_empty = []\<rparr>),
     caches = [], kalloc_cache = (\<lambda>i. of_nat (i + 3))\<rparr>"

lemma small_heap_spec: "kheap_spec (set [3, 4, 5, 6, 7, 8, 9, 10, 11]) {} small_heap {}"
proof -
  let ?C = "set [3, 4, 5, 6, 7, 8, 9, 10, 11] :: u32 set"
  have "cache_wf c (h_cache small_heap c) (h_cp small_heap)" if "c \<in> ?C" for c
    using that by (auto simp: cache_wf_def small_heap_def cpages_def objs_per_page_def PAGE_SIZE_def sizeof_cache_page_def)
  moreover have "all_cpages small_heap ?C = {}" "cache_runs small_heap ?C = {}"
    by (auto simp: all_cpages_def cache_runs_def small_heap_def cpages_def)
  ultimately have hi: "heap_inv small_heap ?C {}"
    using small_machine(2) by (simp add: heap_inv_def) (simp add: small_heap_def cpages_def)
  have "kalloc_cache small_heap i \<in> ?C \<and> c_size (h_cache small_heap (kalloc_cache small_heap i)) = push_bit (i + KALLOC_CACHE_SHIFT_MIN) 1"
    if "i < KALLOC_NUM_CACHES" for i
  proof -
    have "i \<in> {0, 1, 2, 3, 4, 5, 6, 7, 8}" using that
      by (auto simp: KALLOC_NUM_CACHES_def KALLOC_CACHE_SHIFT_MIN_def KALLOC_CACHE_SHIFT_MAX_def)
    then show ?thesis by (auto simp: small_heap_def KALLOC_CACHE_SHIFT_MIN_def)
  qed
  then have "kheap_inv small_heap ?C {} {}" using hi unfolding kheap_inv_def by simp
  moreover have "ktags small_heap ?C {} = {}" by (auto simp: ktags_def live_objs_def small_heap_def cpages_def)
  ultimately show ?thesis unfolding kheap_spec_def by (metis image_empty)
qed

theorem kmalloc_fresh_block_witness:
  "\<exists>h' m. kmalloc 100 small_heap = Some (h', m)"
proof -
  have i: "kalloc_cache_index 100 = Some 4"
    by (simp add: kalloc_cache_index_def kalloc_index_loop.simps KALLOC_CACHE_SHIFT_MIN_def KALLOC_CACHE_SHIFT_MAX_def)
  have "heap_room 100 small_heap"
    using small_machine_room [of 1]
    by (simp add: heap_room_def Let_def small_heap_def KALLOC_CACHE_MAX_def KALLOC_CACHE_SHIFT_MAX_def KERNEL_PAGES_def)
  then show ?thesis using kmalloc_fresh_block [OF small_heap_spec, of 100] by auto
qed

text \<open>
  C3. However a client interleaves \<^verbatim>\<open>kmalloc\<close> with \<^verbatim>\<open>kfree\<close> of its live pointers, no check of the
  heap, the caches or the page allocator fires and no pointer is handed out twice: execution
  stops only at a \<^verbatim>\<open>kmalloc\<close> for which there is no memory.
\<close>
theorem kernel_heap_safe:
  assumes "kheap_spec C L h B" and "distinct ptrs" and "set ptrs \<subseteq> fst ` B"
    and "heap_trace kmalloc kfree ops h ptrs = (rest, h', ptrs')"
  shows "\<exists>B'. kheap_spec C L h' B' \<and> distinct ptrs' \<and> set ptrs' \<subseteq> fst ` B'
    \<and> (rest = [] \<or> (\<exists>n ops'. rest = Malloc n # ops' \<and> \<not> heap_room n h'))"
proof -
  from kheap.heap_trace_stops_only_at_alloc [OF assms] obtain B' where
    B: "kheap_spec C L h' B'" "distinct ptrs'" "set ptrs' \<subseteq> fst ` B'"
    "rest = [] \<or> (\<exists>n ops'. rest = Malloc n # ops' \<and> kmalloc n h' = None)" by blast
  obtain K where "kheap_inv h' C L K" using B(1) by (auto simp: kheap_spec_def)
  then have "\<not> heap_room n h'" if "kmalloc n h' = None" for n
    using kmalloc_small_returns [of h' C L K n] kmalloc_large_returns [of h' C L K n] that by (cases "n \<le> KALLOC_CACHE_MAX") auto
  then show ?thesis using B by blast
qed

theorem kernel_heap_safe_witness:
  "\<exists>rest h' ptrs'. heap_trace kmalloc kfree [Malloc 100, Malloc 5000, Mfree 1, Malloc 20, Mfree 0] small_heap [] = (rest, h', ptrs')
    \<and> distinct ptrs'"
proof -
  obtain rest h' ptrs' where t: "heap_trace kmalloc kfree [Malloc 100, Malloc 5000, Mfree 1, Malloc 20, Mfree 0]
      small_heap [] = (rest, h', ptrs')" by (rule prod_cases3)
  from kernel_heap_safe [OF small_heap_spec _ _ t] show ?thesis using t by auto
qed

end
