(* ===== verification/Boot_Memory.thy ===== *)
theory Boot_Memory
  imports Slab_Cache
begin

text \<open>
  Start-up of the memory manager: \<^verbatim>\<open>find_region\<close>, \<^verbatim>\<open>find_free_pages\<close>, \<^verbatim>\<open>mm_init\<close> and
  \<^verbatim>\<open>mm_postinit_reclaim\<close> of \<^verbatim>\<open>mm/mm.c\<close>, \<^verbatim>\<open>mmu_init\<close> of \<^verbatim>\<open>arch/mmu.c\<close>, and the boot modules of
  \<^verbatim>\<open>mm/module.c\<close>. The multiboot memory map and module list are lists of records, as the boot
  loader passes them. Link-time addresses are arguments.
\<close>

section \<open>The code\<close>

definition MMAP_BUFF_SIZE :: nat where "MMAP_BUFF_SIZE = 256"
definition MAX_MODULES :: nat where "MAX_MODULES = 256"
definition ADDRESS_SPACE_SIZE :: u64 where "ADDRESS_SPACE_SIZE = 4294967295"
definition MULTIBOOT_MEMORY_AVAILABLE :: u32 where "MULTIBOOT_MEMORY_AVAILABLE = 1"
definition sizeof_page :: u32 where "sizeof_page = 20"

definition MALLOC_NUM_PAGES :: u32 where
  "MALLOC_NUM_PAGES = DIV_UP (sizeof_page * of_nat NUM_ENTRIES * of_nat NUM_ENTRIES) PAGE_SIZE"

definition MALLOC_SIZE :: u32 where "MALLOC_SIZE = MALLOC_NUM_PAGES * PAGE_SIZE"

record mmap_entry =
  me_addr :: u64
  me_len :: u64
  me_type :: u32

record module =
  mod_start :: u32
  mod_end :: u32
  mod_cmdline :: u32

record boot =
  kernel_start :: u32
  kernel_end :: u32
  malloc_start :: u32
  malloc_end :: u32
  mmap :: "mmap_entry list"
  modules :: "module list"

definition get_page :: "u32 \<Rightarrow> u32" where
  "get_page phys = phys div PAGE_SIZE"

definition is_module_page :: "boot \<Rightarrow> u32 \<Rightarrow> bool" where
  "is_module_page b idx = list_ex (\<lambda>m. get_page (mod_start m) \<le> idx \<and> idx \<le> get_page (mod_end m)) (modules b)"

definition page_is_between_addr :: "u32 \<Rightarrow> u32 \<Rightarrow> u32 \<Rightarrow> bool" where
  "page_is_between_addr idx start fin = (DIV_DOWN start PAGE_SIZE \<le> idx \<and> idx \<le> DIV_DOWN fin PAGE_SIZE)"

definition is_kernel_page :: "boot \<Rightarrow> u32 \<Rightarrow> bool" where
  "is_kernel_page b idx = page_is_between_addr idx (kernel_start b) (kernel_end b)"

definition is_malloc_page :: "boot \<Rightarrow> u32 \<Rightarrow> bool" where
  "is_malloc_page b idx = page_is_between_addr idx (malloc_start b) (malloc_end b)"

text \<open>
  The pages of an entry. \<^verbatim>\<open>DIV_UP\<close> casts its argument to 32 bits, so the 64-bit end of the region
  is truncated before it is divided; the result is at most \<open>2 ^ 20\<close>.
\<close>

definition entry_usable :: "mmap_entry \<Rightarrow> bool" where
  "entry_usable e = (me_type e = MULTIBOOT_MEMORY_AVAILABLE \<and> \<not> ADDRESS_SPACE_SIZE \<le> me_addr e)"

definition entry_start :: "mmap_entry \<Rightarrow> u32" where
  "entry_start e = DIV_UP (ucast (me_addr e)) PAGE_SIZE"

definition entry_end :: "mmap_entry \<Rightarrow> u64" where
  "entry_end e = (let fin = ucast (DIV_UP (ucast (me_addr e + me_len e)) PAGE_SIZE) in
     if ADDRESS_SPACE_SIZE div 0x1000 < fin then ADDRESS_SPACE_SIZE div 0x1000 else fin)"

text \<open>The inner loop of \<^verbatim>\<open>find_region\<close>; \<open>n\<close> counts the pages left in the entry.\<close>

fun region_scan :: "boot \<Rightarrow> u32 \<Rightarrow> nat \<Rightarrow> u32 \<Rightarrow> u32 \<Rightarrow> u32 \<Rightarrow> u32 option" where
  "region_scan b start 0 reg_len reg_start num = None"
| "region_scan b start (Suc n) reg_len reg_start num =
     (let reg_start' = (if reg_len = 0 then start else reg_start);
          reg_len' = (if is_kernel_page b start \<or> is_module_page b start then 0 else reg_len + 1)
      in if num \<le> reg_len' then Some (reg_start' * PAGE_SIZE)
         else region_scan b (start + 1) n reg_len' reg_start' num)"

fun find_region_in :: "boot \<Rightarrow> mmap_entry list \<Rightarrow> u32 \<Rightarrow> u32" where
  "find_region_in b [] num = 0"
| "find_region_in b (e # es) num =
     (if entry_usable e \<and> \<not> entry_end e - ucast (entry_start e) < ucast num
      then case region_scan b (entry_start e) (unat (entry_end e) - unat (entry_start e)) 0 0 num of
          Some a \<Rightarrow> a | None \<Rightarrow> find_region_in b es num
      else find_region_in b es num)"

definition find_region :: "boot \<Rightarrow> u32 \<Rightarrow> u32" where
  "find_region b num = find_region_in b (mmap b) num"

definition page_wanted :: "boot \<Rightarrow> u32 \<Rightarrow> bool" where
  "page_wanted b j = (\<not> is_kernel_page b j \<and> \<not> is_module_page b j \<and> \<not> is_malloc_page b j)"

fun claim_entry :: "boot \<Rightarrow> u32 \<Rightarrow> nat \<Rightarrow> mm \<Rightarrow> mm option" where
  "claim_entry b j 0 s = Some s"
| "claim_entry b j (Suc n) s = do {
     s1 \<leftarrow> (if page_wanted b j then claim_page (unat j) s else Some s);
     claim_entry b (j + 1) n s1 }"

fun claim_entries :: "boot \<Rightarrow> mmap_entry list \<Rightarrow> mm \<Rightarrow> mm option" where
  "claim_entries b [] s = Some s"
| "claim_entries b (e # es) s = do {
     s1 \<leftarrow> (if entry_usable e
           then claim_entry b (entry_start e) (unat (entry_end e) - unat (entry_start e)) s else Some s);
     claim_entries b es s1 }"

definition find_free_pages :: "boot \<Rightarrow> mm \<Rightarrow> mm option" where
  "find_free_pages b s = claim_entries b (mmap b) s"

text \<open>
  The pointers that \<^verbatim>\<open>mmu_init\<close> moves into the new map: the BIOS data area, the video memory of the
  console, and the symbol tables of \<^verbatim>\<open>bug/debug.c\<close>. \<^verbatim>\<open>debug_kernel_end\<close> adds the size of the symbol table
  to a pointer to its 16-byte entries.
\<close>

definition BIOS_BDA :: u32 where "BIOS_BDA = 0x400"
definition BIOS_VRAM :: u32 where "BIOS_VRAM = 0xB8000"

record early =
  bios_bda_ptr :: u32
  vram_ptr :: u32
  strtab :: u32
  strtabsz :: u32
  symtab :: u32
  symtabsz :: u32

definition debug_kernel_start :: "early \<Rightarrow> u32 \<Rightarrow> u32" where
  "debug_kernel_start e raw =
     (let raw1 = (if strtab e \<noteq> 0 then MIN_u raw (strtab e) else raw)
      in if symtab e \<noteq> 0 then MIN_u raw1 (symtab e) else raw1)"

definition debug_kernel_end :: "early \<Rightarrow> u32 \<Rightarrow> u32" where
  "debug_kernel_end e raw =
     (let raw1 = (if strtab e \<noteq> 0 then MAX_u raw (strtab e + strtabsz e) else raw)
      in if symtab e \<noteq> 0 then MAX_u raw1 (symtab e + symtabsz e * 16) else raw1)"

definition bios_early_remap :: "kmap \<Rightarrow> early \<Rightarrow> (kmap \<times> early) option" where
  "bios_early_remap k e = do { (k1, p) \<leftarrow> map_page BIOS_BDA k; Some (k1, e\<lparr>bios_bda_ptr := p\<rparr>) }"

definition vram_early_remap :: "kmap \<Rightarrow> early \<Rightarrow> (kmap \<times> early) option" where
  "vram_early_remap k e = do { (k1, p) \<leftarrow> map_page BIOS_VRAM k; Some (k1, e\<lparr>vram_ptr := p\<rparr>) }"

definition console_early_remap :: "kmap \<Rightarrow> early \<Rightarrow> (kmap \<times> early) option" where
  "console_early_remap k e = vram_early_remap k e"

definition debug_remap :: "kmap \<Rightarrow> early \<Rightarrow> (kmap \<times> early) option" where
  "debug_remap k e =
     (if strtabsz e \<noteq> 0 \<and> symtabsz e \<noteq> 0 then do {
        (k1, p) \<leftarrow> map_pages (strtab e) (DIV_UP (strtabsz e) PAGE_SIZE) k;
        (k2, q) \<leftarrow> map_pages (symtab e) (DIV_UP (symtabsz e) PAGE_SIZE) k1;
        Some (k2, e\<lparr>strtab := p, symtab := q\<rparr>) }
      else Some (k, e))"

definition mmu_init :: "u32 \<Rightarrow> u32 \<Rightarrow> u32 \<Rightarrow> u32 \<Rightarrow> early \<Rightarrow> kmap \<Rightarrow> byte_mem \<Rightarrow> (kmap \<times> byte_mem \<times> u32 \<times> early) option" where
  "mmu_init kptab_addr init_dir kend mstart e k m = do {
     (k1, _) \<leftarrow> map_pages 0 (DIV_UP kend PAGE_SIZE) (k\<lparr>kernel_next_page := 0\<rparr>);
     (k2, pages) \<leftarrow> map_pages mstart MALLOC_NUM_PAGES k1;
     dir \<leftarrow> kvirt_to_phys init_dir;
     m1 \<leftarrow> build_page_dir kptab_addr dir m;
     (k3, e1) \<leftarrow> bios_early_remap k2 e;
     (k4, e2) \<leftarrow> console_early_remap k3 e1;
     (k5, e3) \<leftarrow> debug_remap k4 e2;
     Some (k5, m1, pages, e3) }"

definition module_init :: "module list \<Rightarrow> boot \<Rightarrow> boot" where
  "module_init mods b = b\<lparr>modules := take MAX_MODULES mods\<rparr>"

text \<open>
  \<open>image_start\<close> and \<open>image_end\<close> are the bounds of the kernel image; the bounds that are kept clear include
  the symbol tables that \<^verbatim>\<open>debug_init\<close> found.
\<close>

definition mm_init :: "u32 \<Rightarrow> u32 \<Rightarrow> u32 \<Rightarrow> u32 \<Rightarrow> early \<Rightarrow> module list \<Rightarrow> mmap_entry list \<Rightarrow> kmap \<Rightarrow> byte_mem
    \<Rightarrow> (boot \<times> vm \<times> early) option" where
  "mm_init kptab_addr init_dir image_start image_end e mods entries k m = do {
     let kstart = debug_kernel_start e image_start;
     let kend = debug_kernel_end e image_end;
     let b1 = module_init mods \<lparr>kernel_start = kstart, kernel_end = kend, malloc_start = 0, malloc_end = 0,
       mmap = entries, modules = []\<rparr>;
     bug_on (MMAP_BUFF_SIZE < length entries);
     let a = find_region b1 MALLOC_NUM_PAGES;
     bug_on (a = 0);
     let b2 = b1\<lparr>malloc_start := a, malloc_end := a + MALLOC_SIZE\<rparr>;
     (k1, m1, _, e1) \<leftarrow> mmu_init kptab_addr init_dir kend a e k m;
     s \<leftarrow> find_free_pages b2 mm_reset;
     Some (b2, \<lparr>vm_mm = s\<lparr>pages_in_use := 0\<rparr>, vm_map = k1, vm_mem = m1\<rparr>, e1) }"

fun reclaim_loop :: "u32 \<Rightarrow> nat \<Rightarrow> mm \<Rightarrow> mm option" where
  "reclaim_loop page_start 0 s = Some s"
| "reclaim_loop page_start (Suc n) s = do {
     s1 \<leftarrow> claim_page (unat page_start) s;
     reclaim_loop (page_start + 1) n s1 }"

definition mm_postinit_reclaim :: "u32 \<Rightarrow> u32 \<Rightarrow> mm \<Rightarrow> mm option" where
  "mm_postinit_reclaim init_start init_end s =
     reclaim_loop (init_start div PAGE_SIZE) (unat (DIV_UP (init_end - init_start) PAGE_SIZE)) s"

text \<open>The second loop of \<^verbatim>\<open>module_load\<close>, which gives the pages of the modules back.\<close>

fun module_reclaim :: "module list \<Rightarrow> mm \<Rightarrow> mm option" where
  "module_reclaim [] s = Some s"
| "module_reclaim (md # ms) s =
     (let first_page = DIV_UP (mod_start md) PAGE_SIZE; last_page = DIV_DOWN (mod_end md) PAGE_SIZE in do {
        s1 \<leftarrow> claim_pages (unat first_page) (unat (last_page - first_page)) s;
        module_reclaim ms s1 })"

section \<open>Which pages become available\<close>

definition entry_pages :: "mmap_entry \<Rightarrow> nat set" where
  "entry_pages e = (if entry_usable e then {unat (entry_start e) ..< unat (entry_end e)} else {})"

definition wanted_pages :: "boot \<Rightarrow> nat set" where
  "wanted_pages b = {p. page_wanted b (of_nat p)}"

lemma entry_end_le: "unat (entry_end e) \<le> 1048575"
  by (simp add: entry_end_def Let_def ADDRESS_SPACE_SIZE_def word_less_nat_alt)

lemma entry_pages_less: "p \<in> entry_pages e \<Longrightarrow> p < NUM_PAGES"
  using entry_end_le [of e] by (auto simp: entry_pages_def NUM_PAGES_def NUM_ENTRIES_def split: if_splits)

lemma claim_step:
  assumes "mm_inv s {} {}" and "reserved s {} i"
  shows "\<exists>s'. claim_page i s = Some s' \<and> mm_inv s' {} {} \<and> (\<forall>p. is_free s' p \<longleftrightarrow> is_free s p \<or> p = i)
    \<and> (\<forall>p. reserved s {} p \<longrightarrow> p \<noteq> i \<longrightarrow> reserved s' {} p)"
proof -
  obtain s' where s': "claim_page i s = Some s'" "mm_inv s' {} {}" "is_free s' i" "\<forall>p. p \<noteq> i \<longrightarrow> flags_of s' p = flags_of s p"
    using claim_page_ok [OF assms(1), of i] assms(2) unfolding reserved_def by blast
  moreover have "is_free s' p \<longleftrightarrow> is_free s p \<or> p = i" for p using s'(3,4) by (cases "p = i") (auto simp: is_free_def)
  moreover have "reserved s' {} p" if "reserved s {} p" "p \<noteq> i" for p
    using claim_keeps_reserved [OF assms(1) s'(2), of p] s'(4) that by blast
  ultimately show ?thesis by blast
qed

lemma claim_entry_ok:
  "mm_inv s {} {} \<Longrightarrow> unat j + n < 4294967296 \<Longrightarrow> (\<forall>p. unat j \<le> p \<and> p < unat j + n \<longrightarrow> reserved s {} p) \<Longrightarrow>
     \<exists>s'. claim_entry b j n s = Some s' \<and> mm_inv s' {} {}
       \<and> (\<forall>p. is_free s' p \<longleftrightarrow> is_free s p \<or> unat j \<le> p \<and> p < unat j + n \<and> p \<in> wanted_pages b)
       \<and> (\<forall>p. reserved s {} p \<longrightarrow> \<not> (unat j \<le> p \<and> p < unat j + n) \<longrightarrow> reserved s' {} p)"
proof (induction n arbitrary: s j)
  case 0
  then show ?case by (intro exI [of _ s]) auto
next
  case (Suc n)
  define s1r where "s1r = (if page_wanted b j then claim_page (unat j) s else Some s)"
  have r: "reserved s {} (unat j)" using Suc.prems(3) by simp
  have jw: "unat j \<in> wanted_pages b \<longleftrightarrow> page_wanted b j" by (simp add: wanted_pages_def)
  have "\<exists>s1. s1r = Some s1 \<and> mm_inv s1 {} {}
    \<and> (\<forall>p. is_free s1 p \<longleftrightarrow> is_free s p \<or> p = unat j \<and> unat j \<in> wanted_pages b)
    \<and> (\<forall>p. reserved s {} p \<longrightarrow> p \<noteq> unat j \<longrightarrow> reserved s1 {} p)"
  proof (cases "page_wanted b j")
    case True
    then show ?thesis using claim_step [OF Suc.prems(1) r] jw by (simp add: s1r_def)
  next
    case False
    then show ?thesis using Suc.prems(1) jw by (simp add: s1r_def)
  qed
  then obtain s1 where s1: "s1r = Some s1" "mm_inv s1 {} {}"
    "\<forall>p. is_free s1 p \<longleftrightarrow> is_free s p \<or> p = unat j \<and> unat j \<in> wanted_pages b"
    "\<forall>p. reserved s {} p \<longrightarrow> p \<noteq> unat j \<longrightarrow> reserved s1 {} p" by blast
  have j1: "unat (j + 1) = unat j + 1" using Suc.prems(2) by (simp add: unat_word_ariths)
  have nw: "unat (j + 1) + n < 4294967296" using Suc.prems(2) j1 by simp
  have "\<forall>p. unat (j + 1) \<le> p \<and> p < unat (j + 1) + n \<longrightarrow> reserved s1 {} p"
    using s1(4) Suc.prems(3) j1 by simp
  from Suc.IH [OF s1(2) nw this, unfolded j1] obtain s' where s': "claim_entry b (j + 1) n s1 = Some s'" "mm_inv s' {} {}"
    "\<forall>p. is_free s' p \<longleftrightarrow> is_free s1 p \<or> unat j + 1 \<le> p \<and> p < unat j + 1 + n \<and> p \<in> wanted_pages b"
    "\<forall>p. reserved s1 {} p \<longrightarrow> \<not> (unat j + 1 \<le> p \<and> p < unat j + 1 + n) \<longrightarrow> reserved s' {} p" by (elim exE conjE)
  have "claim_entry b j (Suc n) s = Some s'" using s1(1) s'(1) by (simp add: s1r_def)
  moreover have "is_free s' p \<longleftrightarrow> is_free s p \<or> unat j \<le> p \<and> p < unat j + Suc n \<and> p \<in> wanted_pages b" for p
    using s'(3) [rule_format, of p] s1(3) [rule_format, of p] by (cases "p = unat j") auto
  moreover have "reserved s' {} p" if "reserved s {} p" "\<not> (unat j \<le> p \<and> p < unat j + Suc n)" for p
    using s'(4) [rule_format, of p] s1(4) [rule_format, of p] that by (cases "p = unat j") auto
  ultimately show ?case using s'(2) by (intro exI [of _ s'] conjI allI impI)
qed

fun disjoint_entries :: "mmap_entry list \<Rightarrow> bool" where
  "disjoint_entries [] = True"
| "disjoint_entries (e # es) = ((\<forall>e'\<in>set es. entry_pages e \<inter> entry_pages e' = {}) \<and> disjoint_entries es)"

lemma claim_entries_ok:
  "mm_inv s {} {} \<Longrightarrow> disjoint_entries es \<Longrightarrow> (\<forall>e\<in>set es. \<forall>p\<in>entry_pages e. reserved s {} p) \<Longrightarrow>
     \<exists>s'. claim_entries b es s = Some s' \<and> mm_inv s' {} {}
       \<and> (\<forall>p. is_free s' p \<longleftrightarrow> is_free s p \<or> p \<in> \<Union> (entry_pages ` set es) \<inter> wanted_pages b)"
proof (induction es arbitrary: s)
  case (Cons e es)
  define r where "r = (if entry_usable e then claim_entry b (entry_start e) (unat (entry_end e) - unat (entry_start e)) s else Some s)"
  have "\<exists>s1. r = Some s1 \<and> mm_inv s1 {} {} \<and> (\<forall>p. is_free s1 p \<longleftrightarrow> is_free s p \<or> p \<in> entry_pages e \<inter> wanted_pages b)
      \<and> (\<forall>p. reserved s {} p \<longrightarrow> p \<notin> entry_pages e \<longrightarrow> reserved s1 {} p)"
  proof (cases "entry_usable e")
    case True
    let ?n = "unat (entry_end e) - unat (entry_start e)"
    have ep: "p \<in> entry_pages e \<longleftrightarrow> unat (entry_start e) \<le> p \<and> p < unat (entry_start e) + ?n" for p
      using True by (auto simp: entry_pages_def)
    have "unat (entry_start e) + ?n < 4294967296" using entry_end_le [of e] unat_lt_32 [of "entry_start e"] by linarith
    from claim_entry_ok [OF Cons.prems(1) this, of b] Cons.prems(3) ep show ?thesis using True by (simp add: r_def)
  next
    case False
    then show ?thesis using Cons.prems(1) by (auto simp: r_def entry_pages_def)
  qed
  then obtain s1 where s1: "r = Some s1" "mm_inv s1 {} {}"
    "\<forall>p. is_free s1 p \<longleftrightarrow> is_free s p \<or> p \<in> entry_pages e \<inter> wanted_pages b"
    "\<forall>p. reserved s {} p \<longrightarrow> p \<notin> entry_pages e \<longrightarrow> reserved s1 {} p" by blast
  have de: "disjoint_entries es" using Cons.prems(2) by simp
  have rs: "\<forall>e'\<in>set es. \<forall>p\<in>entry_pages e'. reserved s1 {} p"
  proof (intro ballI)
    fix e' p assume a: "e' \<in> set es" "p \<in> entry_pages e'"
    have "p \<notin> entry_pages e" using Cons.prems(2) a by auto
    then show "reserved s1 {} p" using s1(4) Cons.prems(3) a by simp
  qed
  obtain s' where s': "claim_entries b es s1 = Some s'" "mm_inv s' {} {}"
    "\<forall>p. is_free s' p \<longleftrightarrow> is_free s1 p \<or> p \<in> \<Union> (entry_pages ` set es) \<inter> wanted_pages b"
    using Cons.IH [OF s1(2) de rs] by blast
  have "claim_entries b (e # es) s = Some s'" using s1(1) s'(1) by (simp add: r_def)
  moreover have "is_free s' p \<longleftrightarrow> is_free s p \<or> p \<in> \<Union> (entry_pages ` set (e # es)) \<inter> wanted_pages b" for p
    using s'(3) s1(3) by auto
  ultimately show ?case using s'(2) by blast
qed auto


section \<open>Finding room for the page array\<close>

definition region_page :: "boot \<Rightarrow> nat \<Rightarrow> bool" where
  "region_page b p = (\<not> is_kernel_page b (of_nat p) \<and> \<not> is_module_page b (of_nat p))"

lemma region_scan_step:
  "region_scan b start (Suc n) reg_len reg_start num =
     (if num \<le> (if region_page b (unat start) then reg_len + 1 else 0)
      then Some ((if reg_len = 0 then start else reg_start) * PAGE_SIZE)
      else region_scan b (start + 1) n (if region_page b (unat start) then reg_len + 1 else 0)
        (if reg_len = 0 then start else reg_start) num)"
proof -
  have "(if is_kernel_page b start \<or> is_module_page b start then 0 else reg_len + 1) =
      (if region_page b (unat start) then reg_len + 1 else 0)" by (simp add: region_page_def)
  then show ?thesis by (simp only: region_scan.simps Let_def)
qed

lemma region_scan_sound:
  assumes "region_scan b start n reg_len reg_start num = Some a" and "unat start + n < 4294967296"
    and "reg_len < num" and "reg_len \<noteq> 0 \<longrightarrow> unat reg_start + unat reg_len = unat start"
    and "reg_len \<noteq> 0 \<longrightarrow> (\<forall>p. unat reg_start \<le> p \<and> p < unat start \<longrightarrow> region_page b p)"
  shows "\<exists>rs. a = of_nat rs * PAGE_SIZE \<and> unat start - unat reg_len \<le> rs \<and> rs + unat num \<le> unat start + n
    \<and> (\<forall>p. rs \<le> p \<and> p < rs + unat num \<longrightarrow> region_page b p)"
  using assms
proof (induction n arbitrary: start reg_len reg_start)
  case (Suc n)
  define rs where "rs = (if reg_len = 0 then start else reg_start)"
  define ok where "ok = region_page b (unat start)"
  define rl where "rl = (if ok then reg_len + 1 else 0)"
  have r: "(if num \<le> rl then Some (rs * PAGE_SIZE) else region_scan b (start + 1) n rl rs num) = Some a"
    using Suc.prems(1) unfolding region_scan_step rs_def rl_def ok_def .
  have s1: "unat (start + 1) = unat start + 1" using Suc.prems(2) by (simp add: unat_word_ariths)
  have l1: "unat (reg_len + 1) = unat reg_len + 1"
    using Suc.prems(3) unat_lt_32 [of num] by (simp add: unat_word_ariths word_less_nat_alt)
  have rsl: "unat rs + unat reg_len = unat start" using Suc.prems(4) by (auto simp: rs_def)
  have okp: "region_page b p" if "ok" "unat rs \<le> p" "p < unat start + 1" for p
  proof (cases "p = unat start")
    case False
    then have "reg_len \<noteq> 0" using that rs_def by auto
    then show ?thesis using that False Suc.prems(5) by (simp add: rs_def)
  qed (use that ok_def in simp)
  show ?case
  proof (cases "num \<le> rl")
    case True
    have k: ok
    proof (rule ccontr)
      assume "\<not> ok"
      then have "num \<le> 0" using True by (simp add: rl_def)
      then show False using Suc.prems(3) by simp
    qed
    then have e: "unat num = unat reg_len + 1" using True Suc.prems(3) l1 by (simp add: rl_def word_le_nat_alt word_less_nat_alt)
    have "a = of_nat (unat rs) * PAGE_SIZE" using r True by simp
    moreover have "unat start - unat reg_len \<le> unat rs" "unat rs + unat num = unat start + 1" using rsl e by linarith+
    ultimately show ?thesis using okp [OF k] by (intro exI [of _ "unat rs"] conjI allI impI) simp_all
  next
    case False
    have i: "\<exists>q. a = of_nat q * PAGE_SIZE \<and> unat (start + 1) - unat rl \<le> q \<and> q + unat num \<le> unat (start + 1) + n
      \<and> (\<forall>p. q \<le> p \<and> p < q + unat num \<longrightarrow> region_page b p)"
    proof (rule Suc.IH)
      show "region_scan b (start + 1) n rl rs num = Some a" using r False by simp
      show "rl < num" using False by simp
      show "unat (start + 1) + n < 4294967296" using Suc.prems(2) s1 by simp
      show "rl \<noteq> 0 \<longrightarrow> unat rs + unat rl = unat (start + 1)" using rsl l1 s1 by (simp add: rl_def)
      show "rl \<noteq> 0 \<longrightarrow> (\<forall>p. unat rs \<le> p \<and> p < unat (start + 1) \<longrightarrow> region_page b p)" using okp s1 by (simp add: rl_def)
    qed
    then obtain q where q: "a = of_nat q * PAGE_SIZE" "unat (start + 1) - unat rl \<le> q" "q + unat num \<le> unat (start + 1) + n"
      "\<forall>p. q \<le> p \<and> p < q + unat num \<longrightarrow> region_page b p" by blast
    have "unat start - unat reg_len \<le> q"
    proof (cases ok)
      case True
      then show ?thesis using q(2) s1 l1 by (simp add: rl_def)
    next
      case False
      then show ?thesis using q(2) s1 by (simp add: rl_def)
    qed
    moreover have "q + unat num \<le> unat start + Suc n" using q(3) s1 by simp
    ultimately show ?thesis using q(1,4) by (intro exI [of _ q] conjI)
  qed
qed simp

lemma region_scan_complete:
  assumes "region_scan b start n reg_len reg_start num = None" and "unat start + n < 4294967296"
    and "reg_len < num" and "unat start - unat reg_len \<le> rs" and "rs + unat num \<le> unat start + n"
  shows "\<exists>p. rs \<le> p \<and> p < rs + unat num \<and> \<not> region_page b p"
  using assms
proof (induction n arbitrary: start reg_len reg_start)
  case 0
  then show ?case by (auto simp: word_less_nat_alt)
next
  case (Suc n)
  define ok where "ok = region_page b (unat start)"
  define rl where "rl = (if ok then reg_len + 1 else 0)"
  have s1: "unat (start + 1) = unat start + 1" using Suc.prems(2) by (simp add: unat_word_ariths)
  have l1: "unat (reg_len + 1) = unat reg_len + 1"
    using Suc.prems(3) unat_lt_32 [of num] by (simp add: unat_word_ariths word_less_nat_alt)
  have z: "(if num \<le> rl then Some ((if reg_len = 0 then start else reg_start) * PAGE_SIZE)
      else region_scan b (start + 1) n rl (if reg_len = 0 then start else reg_start) num) = None"
    using Suc.prems(1) unfolding region_scan_step rl_def ok_def .
  then have lt: "rl < num" by (cases "num \<le> rl") auto
  have r: "region_scan b (start + 1) n rl (if reg_len = 0 then start else reg_start) num = None"
    using z unfolding if_not_P [OF lt [unfolded not_le [symmetric]]] .
  have nw: "unat (start + 1) + n < 4294967296" "rs + unat num \<le> unat (start + 1) + n" using Suc.prems s1 by simp_all
  show ?case
  proof (cases "ok \<or> unat start < rs")
    case True
    then have "unat (start + 1) - unat rl \<le> rs" using Suc.prems(4) s1 l1 by (auto simp: rl_def)
    from Suc.IH [OF r nw(1) lt this nw(2)] show ?thesis .
  next
    case False
    then have "rs \<le> unat start" "unat start < rs + unat num" using Suc.prems(3,4) by (simp_all add: word_less_nat_alt)
    then show ?thesis using False by (intro exI [of _ "unat start"]) (simp add: ok_def)
  qed
qed

lemma find_region_in_sound:
  assumes "find_region_in b es num = a" and "a \<noteq> 0" and "num \<noteq> 0"
  shows "\<exists>e\<in>set es. \<exists>rs. a = of_nat rs * PAGE_SIZE \<and> {rs..<rs + unat num} \<subseteq> entry_pages e
    \<and> (\<forall>p. rs \<le> p \<and> p < rs + unat num \<longrightarrow> region_page b p)"
  using assms
proof (induction es)
  case (Cons e es)
  let ?n = "unat (entry_end e) - unat (entry_start e)"
  show ?case
  proof (cases "entry_usable e \<and> \<not> entry_end e - ucast (entry_start e) < ucast num
      \<and> region_scan b (entry_start e) ?n 0 0 num \<noteq> None")
    case True
    then have sc: "region_scan b (entry_start e) ?n 0 0 num = Some a" using Cons.prems(1) by auto
    have nw: "unat (entry_start e) + ?n < 4294967296" using entry_end_le [of e] unat_lt_32 [of "entry_start e"] by linarith
    have lt: "(0::u32) < num" using Cons.prems(3) by (simp add: word_gt_0)
    obtain rs where rs: "a = of_nat rs * PAGE_SIZE" "unat (entry_start e) \<le> rs" "rs + unat num \<le> unat (entry_start e) + ?n"
      "\<forall>p. rs \<le> p \<and> p < rs + unat num \<longrightarrow> region_page b p"
      using region_scan_sound [OF sc nw lt] by auto
    have "0 < unat num" using Cons.prems(3) by (simp add: unat_gt_0)
    then have "{rs..<rs + unat num} \<subseteq> entry_pages e" using rs(2,3) True by (auto simp: entry_pages_def)
    then show ?thesis using rs(1,4) by auto
  next
    case False
    then have "find_region_in b es num = a" using Cons.prems(1) by (auto split: if_splits option.splits)
    then show ?thesis using Cons.IH Cons.prems(2,3) by auto
  qed
qed simp

lemma find_region_in_complete:
  assumes "find_region_in b es num = 0" and "num \<noteq> 0" and "e \<in> set es" and "{rs..<rs + unat num} \<subseteq> entry_pages e"
    and "\<forall>p. rs \<le> p \<and> p < rs + unat num \<longrightarrow> region_page b p"
  shows "\<exists>e\<in>set es. {0..<unat num} \<subseteq> entry_pages e \<and> (\<forall>p<unat num. region_page b p)"
  using assms
proof (induction es)
  case (Cons x es)
  let ?n = "unat (entry_end x) - unat (entry_start x)"
  have n0: "0 < unat num" using Cons.prems(2) by (simp add: unat_gt_0)
  have nw: "unat (entry_start x) + ?n < 4294967296" using entry_end_le [of x] unat_lt_32 [of "entry_start x"] by linarith
  have lt: "(0::u32) < num" using Cons.prems(2) by (simp add: word_gt_0)
  show ?case
  proof (cases "entry_usable x \<and> \<not> entry_end x - ucast (entry_start x) < ucast num
      \<and> region_scan b (entry_start x) ?n 0 0 num \<noteq> None")
    case True
    then have sc: "region_scan b (entry_start x) ?n 0 0 num = Some 0" using Cons.prems(1) by auto
    obtain q where q: "0 = of_nat q * PAGE_SIZE" "unat (entry_start x) \<le> q" "q + unat num \<le> unat (entry_start x) + ?n"
      "\<forall>p. q \<le> p \<and> p < q + unat num \<longrightarrow> region_page b p"
      using region_scan_sound [OF sc nw lt] by auto
    have sub: "{q..<q + unat num} \<subseteq> entry_pages x" using q(2,3) n0 True by (auto simp: entry_pages_def)
    have "q \<in> {q..<q + unat num}" using n0 by simp
    then have "q < NUM_PAGES" using sub entry_pages_less by blast
    then have "q = 0" using page_to_phys_zero [of q] q(1) by (simp add: page_to_phys_def)
    then show ?thesis using sub q(4) by auto
  next
    case False
    then have z: "find_region_in b es num = 0" using Cons.prems(1) by (auto split: if_splits option.splits)
    show ?thesis
    proof (cases "e = x")
      case True
      have us: "entry_usable x" using Cons.prems(4) n0 True by (auto simp: entry_pages_def split: if_splits)
      then have "{rs..<rs + unat num} \<subseteq> {unat (entry_start x)..<unat (entry_end x)}"
        using Cons.prems(4) True by (simp add: entry_pages_def)
      then have rs: "unat (entry_start x) \<le> rs" "rs + unat num \<le> unat (entry_end x)" using n0 by simp_all
      have us64: "unat (ucast (entry_start x) :: u64) = unat (entry_start x)" "unat (ucast num :: u64) = unat num"
        by (simp_all add: unat_ucast_up)
      have "unat (entry_end x - ucast (entry_start x)) = unat (entry_end x) - unat (entry_start x)"
        using rs us64 by (subst unat_diff_le) simp_all
      then have "\<not> entry_end x - ucast (entry_start x) < ucast num" using rs us64 by (simp add: word_less_nat_alt)
      then have "region_scan b (entry_start x) ?n 0 0 num = None" using False us by blast
      from region_scan_complete [OF this nw lt, of rs] rs Cons.prems(5) show ?thesis by fastforce
    next
      case False
      then show ?thesis using Cons.IH [OF z] Cons.prems by auto
    qed
  qed
qed simp

section \<open>The kernel map after start-up\<close>

lemma kernel_identity:
  assumes slots: "\<forall>j<n. kslot k j = kentry (PAGE_SIZE * of_nat j)" and n: "n \<le> KERNEL_PAGES"
    and x: "unat x < n * 4096"
  shows "virt_to_phys k (VIRTUAL_BASE + x) = Some x"
proof -
  define j where "j = unat x div 4096"
  have j: "j < n" using x by (simp add: j_def div_less_iff_less_mult)
  have off: "unat (of_nat (unat x mod 4096) :: u32) = unat x mod 4096"
    by (rule unat_of_nat_less) (auto intro: less_trans [OF mod_less_divisor])
  have xs: "x = PAGE_SIZE * of_nat j + of_nat (unat x mod 4096)" using byte_split [of "unat x"] by (simp add: j_def)
  then have xp: "x = page_to_phys j + of_nat (unat x mod 4096)" by (simp add: page_to_phys_def mult.commute)
  have a: "VIRTUAL_BASE + x = kvirt j + of_nat (unat x mod 4096)"
    using xs by (metis (no_types, lifting) add.assoc kvirt_def mult.commute)
  have np: "j < NUM_PAGES" using j n by (simp add: KERNEL_PAGES_def NUM_PAGES_def NUM_ENTRIES_def)
  have "unat (pte_physaddr (kslot k j)) = j"
    using slots j kentry_physaddr [OF np] by (simp add: page_to_phys_def mult.commute)
  from kslot_translate [OF _ this np, of "of_nat (unat x mod 4096)"] j n show ?thesis
    unfolding a off using xp by simp
qed

lemma set_kernel_entries_ok:
  "VIRTUAL_BASE \<le> a \<Longrightarrow> unat a + (unat i + n) * 4096 \<le> 4294967296 \<Longrightarrow>
     \<exists>m'. set_kernel_entries a base i n m = Some m'"
proof (induction n arbitrary: i m)
  case (Suc n)
  have v: "unat a + unat i * 4096 < 4294967296" using Suc.prems(2) by (simp add: algebra_simps)
  then have "unat (a + i * PAGE_SIZE) = unat a + unat i * 4096" by (simp add: unat_word_ariths PAGE_SIZE_def)
  then have "\<not> a + i * PAGE_SIZE < VIRTUAL_BASE" using Suc.prems(1) by (simp add: word_less_nat_alt word_le_nat_alt)
  moreover have "unat (i + 1) = unat i + 1" using Suc.prems(2) by (simp add: unat_word_ariths)
  ultimately show ?case using Suc.IH [of "i + 1"] Suc.prems by (simp add: kvirt_to_phys_def Let_def)
qed simp

text \<open>A mapping made by \<^verbatim>\<open>map_pages\<close>: its pointer translates back, and earlier mappings stay.\<close>

lemma kentry_translate:
  assumes "j < KERNEL_PAGES" and "kslot k j = kentry phys"
  shows "virt_to_phys k (kvirt j + get_pageoff phys) = Some phys"
proof -
  let ?q = "unat phys div 4096"
  have q: "?q < NUM_PAGES" using unat_lt_32 [of phys] by (simp add: NUM_PAGES_def NUM_ENTRIES_def div_less_iff_less_mult)
  have o: "unat (get_pageoff phys) < 4096" by (simp add: unat_pageoff)
  have "unat (pte_physaddr (kslot k j)) = ?q" using q
    by (simp add: assms(2) kentry_def unat_ucast unat_drop_bit NUM_PAGES_def NUM_ENTRIES_def)
  from kslot_translate [OF assms(1) this q o] page_to_phys_unat [OF q o] show ?thesis
    by (simp add: word_unat_eq_iff unat_pageoff)
qed

lemma map_pages_step:
  assumes "unat (kernel_next_page k) + unat n \<le> KERNEL_PAGES"
  shows "\<exists>k'. map_pages phys n k = Some (k', kvirt (unat (kernel_next_page k)) + get_pageoff phys)
    \<and> unat (kernel_next_page k') = unat (kernel_next_page k) + unat n
    \<and> (\<forall>j<unat (kernel_next_page k). kslot k' j = kslot k j) \<and> (n \<noteq> 0 \<longrightarrow> kslot k' (unat (kernel_next_page k)) = kentry phys)"
proof -
  obtain k' where k': "map_pages_loop phys 0 (unat n) k = Some k'" "unat (kernel_next_page k') = unat (kernel_next_page k) + unat n"
    "\<forall>j<KERNEL_PAGES. kslot k' j = (if unat (kernel_next_page k) \<le> j \<and> j < unat (kernel_next_page k) + unat n
          then kentry (phys + PAGE_SIZE * (0 + of_nat (j - unat (kernel_next_page k)))) else kslot k j)"
    using map_pages_loop_ok [OF assms, of phys 0] by blast
  have "get_next_virt phys k = kvirt (unat (kernel_next_page k)) + get_pageoff phys"
    by (simp add: get_next_virt_def kvirt_def)
  moreover have "kslot k' (unat (kernel_next_page k)) = kentry phys" if "n \<noteq> 0"
  proof -
    have "0 < unat n" using that by (simp add: unat_gt_0)
    then show ?thesis using assms k'(3) by simp
  qed
  ultimately show ?thesis using k' assms by (intro exI [of _ k']) (simp add: map_pages_def)
qed

definition debug_pages :: "early \<Rightarrow> nat" where
  "debug_pages e = (if strtabsz e \<noteq> 0 \<and> symtabsz e \<noteq> 0
     then unat (DIV_UP (strtabsz e) PAGE_SIZE) + unat (DIV_UP (symtabsz e) PAGE_SIZE) else 0)"

definition remapped :: "kmap \<Rightarrow> early \<Rightarrow> early \<Rightarrow> bool" where
  "remapped k e e' = (virt_to_phys k (bios_bda_ptr e') = Some BIOS_BDA \<and> virt_to_phys k (vram_ptr e') = Some BIOS_VRAM
     \<and> (strtabsz e \<noteq> 0 \<and> symtabsz e \<noteq> 0 \<longrightarrow>
          virt_to_phys k (strtab e') = Some (strtab e) \<and> virt_to_phys k (symtab e') = Some (symtab e)))"

lemma DIV_UP_nonzero:
  assumes "x \<noteq> 0"
  shows "DIV_UP x PAGE_SIZE \<noteq> 0"
proof -
  have "0 < unat x" using assms by (simp add: unat_gt_0)
  then have "1 \<le> (unat x + 4095) div 4096" using div_le_mono [of 4096 "unat x + 4095" 4096] by simp
  moreover have "unat (DIV_UP x PAGE_SIZE) = (unat x + 4095) div 4096" by (subst DIV_UP_eq) (simp_all add: PAGE_SIZE_def)
  ultimately show ?thesis by (metis not_one_le_zero unsigned_0)
qed

lemma remaps_ok:
  assumes "unat (kernel_next_page k) + 2 + debug_pages e \<le> KERNEL_PAGES"
  shows "\<exists>k1 e1 k2 e2 k3 e3. bios_early_remap k e = Some (k1, e1) \<and> console_early_remap k1 e1 = Some (k2, e2)
    \<and> debug_remap k2 e2 = Some (k3, e3) \<and> remapped k3 e e3 \<and> (\<forall>j<unat (kernel_next_page k). kslot k3 j = kslot k j)"
proof -
  let ?n = "unat (kernel_next_page k)"
  obtain k1 where k1: "map_pages BIOS_BDA 1 k = Some (k1, kvirt ?n + get_pageoff BIOS_BDA)" "unat (kernel_next_page k1) = ?n + 1"
    "\<forall>j<?n. kslot k1 j = kslot k j" "kslot k1 ?n = kentry BIOS_BDA" using map_pages_step [of k 1 BIOS_BDA] assms by auto
  obtain k2 where k2: "map_pages BIOS_VRAM 1 k1 = Some (k2, kvirt (?n + 1) + get_pageoff BIOS_VRAM)" "unat (kernel_next_page k2) = ?n + 2"
    "\<forall>j<?n + 1. kslot k2 j = kslot k1 j" "kslot k2 (?n + 1) = kentry BIOS_VRAM"
    using map_pages_step [of k1 1 BIOS_VRAM] assms k1(2) by auto
  let ?e2 = "e\<lparr>bios_bda_ptr := kvirt ?n + get_pageoff BIOS_BDA, vram_ptr := kvirt (?n + 1) + get_pageoff BIOS_VRAM\<rparr>"
  have e: "bios_early_remap k e = Some (k1, e\<lparr>bios_bda_ptr := kvirt ?n + get_pageoff BIOS_BDA\<rparr>)"
    "console_early_remap k1 (e\<lparr>bios_bda_ptr := kvirt ?n + get_pageoff BIOS_BDA\<rparr>) = Some (k2, ?e2)"
    using k1(1) k2(1) by (simp_all add: bios_early_remap_def console_early_remap_def vram_early_remap_def map_page_def)
  have b: "?n < KERNEL_PAGES" "?n + 1 < KERNEL_PAGES" using assms by simp_all
  have keep: "virt_to_phys k3 (kvirt ?n + get_pageoff BIOS_BDA) = Some BIOS_BDA
      \<and> virt_to_phys k3 (kvirt (?n + 1) + get_pageoff BIOS_VRAM) = Some BIOS_VRAM \<and> (\<forall>j<?n. kslot k3 j = kslot k j)"
    if "\<forall>j<?n + 2. kslot k3 j = kslot k2 j" for k3
    using that k1(3,4) k2(3,4) kentry_translate [OF b(1), of k3 BIOS_BDA] kentry_translate [OF b(2), of k3 BIOS_VRAM] by auto
  show ?thesis
  proof (cases "strtabsz e \<noteq> 0 \<and> symtabsz e \<noteq> 0")
    case False
    then have "debug_remap k2 ?e2 = Some (k2, ?e2)" by (auto simp: debug_remap_def)
    moreover have "remapped k2 e ?e2" using False keep [of k2] by (auto simp: remapped_def)
    ultimately show ?thesis using e keep [of k2] by blast
  next
    case True
    let ?s = "DIV_UP (strtabsz e) PAGE_SIZE" and ?y = "DIV_UP (symtabsz e) PAGE_SIZE"
    have nz: "?s \<noteq> 0" "?y \<noteq> 0" using True DIV_UP_nonzero by blast+
    have d: "?n + 2 + unat ?s + unat ?y \<le> KERNEL_PAGES" using assms True by (simp add: debug_pages_def)
    obtain k3 where k3: "map_pages (strtab e) ?s k2 = Some (k3, kvirt (?n + 2) + get_pageoff (strtab e))"
      "unat (kernel_next_page k3) = ?n + 2 + unat ?s" "\<forall>j<?n + 2. kslot k3 j = kslot k2 j" "kslot k3 (?n + 2) = kentry (strtab e)"
      using map_pages_step [of k2 ?s "strtab e"] d k2(2) nz(1) by auto
    obtain k4 where k4: "map_pages (symtab e) ?y k3 = Some (k4, kvirt (?n + 2 + unat ?s) + get_pageoff (symtab e))"
      "\<forall>j<?n + 2 + unat ?s. kslot k4 j = kslot k3 j" "kslot k4 (?n + 2 + unat ?s) = kentry (symtab e)"
      using map_pages_step [of k3 ?y "symtab e"] d k3(2) nz(2) by auto
    have pos: "0 < unat ?s" "0 < unat ?y" using nz by (simp_all add: unat_gt_0)
    let ?e3 = "?e2\<lparr>strtab := kvirt (?n + 2) + get_pageoff (strtab e), symtab := kvirt (?n + 2 + unat ?s) + get_pageoff (symtab e)\<rparr>"
    have "debug_remap k2 ?e2 = Some (k4, ?e3)" using True k3(1) k4(1) by (simp add: debug_remap_def)
    moreover have "virt_to_phys k4 (kvirt (?n + 2) + get_pageoff (strtab e)) = Some (strtab e)"
      by (rule kentry_translate) (use d k3(4) k4(2) pos in auto)
    moreover have "virt_to_phys k4 (kvirt (?n + 2 + unat ?s) + get_pageoff (symtab e)) = Some (symtab e)"
      by (rule kentry_translate) (use d k4(3) pos in auto)
    ultimately show ?thesis using e keep [of k4] k3(3) k4(2) by (auto simp: remapped_def)
  qed
qed

lemma mmu_init_ok:
  assumes n: "unat (DIV_UP kend PAGE_SIZE) + unat MALLOC_NUM_PAGES + 2 + debug_pages e \<le> KERNEL_PAGES"
    and kp: "VIRTUAL_BASE \<le> kptab_addr" "unat kptab_addr + 1048576 \<le> 4294967296" and di: "VIRTUAL_BASE \<le> init_dir"
  shows "\<exists>k' m' pages e'. mmu_init kptab_addr init_dir kend mstart e k m = Some (k', m', pages, e')
    \<and> (\<forall>x. x < kend \<longrightarrow> virt_to_phys k' (VIRTUAL_BASE + x) = Some x) \<and> remapped k' e e'"
proof -
  let ?n = "unat (DIV_UP kend PAGE_SIZE)" and ?k0 = "k\<lparr>kernel_next_page := 0\<rparr>"
  obtain k1 where k1: "map_pages_loop 0 0 ?n ?k0 = Some k1" "unat (kernel_next_page k1) = ?n"
    "\<forall>j<KERNEL_PAGES. kslot k1 j = (if j < ?n then kentry (PAGE_SIZE * of_nat j) else kslot ?k0 j)"
    using map_pages_loop_ok [of ?k0 ?n 0 0] n by auto
  obtain k2 where k2: "map_pages_loop mstart 0 (unat MALLOC_NUM_PAGES) k1 = Some k2"
    "unat (kernel_next_page k2) = ?n + unat MALLOC_NUM_PAGES" "\<forall>j<KERNEL_PAGES. j < ?n \<longrightarrow> kslot k2 j = kslot k1 j"
    using map_pages_loop_ok [of k1 "unat MALLOC_NUM_PAGES" mstart 0] n k1(2) by auto
  obtain m' where m': "build_page_dir kptab_addr (init_dir - VIRTUAL_BASE) m = Some m'"
    using set_kernel_entries_ok [OF kp(1), of 0 "unat KERNEL_NUM_TABLES"] kp(2)
    by (auto simp: build_page_dir_def KERNEL_NUM_TABLES_def)
  have "unat (kernel_next_page k2) + 2 + debug_pages e \<le> KERNEL_PAGES" using n k2(2) by simp
  from remaps_ok [OF this] obtain k3 e3 k4 e4 k5 e5 where r: "bios_early_remap k2 e = Some (k3, e3)" "console_early_remap k3 e3 = Some (k4, e4)"
    "debug_remap k4 e4 = Some (k5, e5)" "remapped k5 e e5" "\<forall>j<unat (kernel_next_page k2). kslot k5 j = kslot k2 j" by blast
  have "kvirt_to_phys init_dir = Some (init_dir - VIRTUAL_BASE)" using di by (simp add: kvirt_to_phys_def leD)
  then have "mmu_init kptab_addr init_dir kend mstart e k m = Some (k5, m', get_next_virt mstart k1, e5)"
    using k1(1) k2(1) m' r by (simp add: mmu_init_def map_pages_def)
  moreover have "virt_to_phys k5 (VIRTUAL_BASE + x) = Some x" if "x < kend" for x
  proof (rule kernel_identity)
    show "\<forall>j<?n. kslot k5 j = kentry (PAGE_SIZE * of_nat j)" using k1(3) k2(2,3) r(5) n by auto
    show "?n \<le> KERNEL_PAGES" using n by simp
    have "?n = (unat kend + 4095) div 4096" by (subst DIV_UP_eq) (simp_all add: PAGE_SIZE_def)
    then show "unat x < ?n * 4096" using that by (simp add: word_less_nat_alt)
  qed
  ultimately show ?thesis using r(4) by blast
qed

section \<open>The memory map byte by byte\<close>

text \<open>
  What the boot loader reports, independently of the rounding in the code: a region of available
  memory is a range of byte addresses.
\<close>

definition reports :: "mmap_entry \<Rightarrow> nat \<Rightarrow> bool" where
  "reports e x = (me_type e = MULTIBOOT_MEMORY_AVAILABLE \<and> unat (me_addr e) \<le> x \<and> x < unat (me_addr e) + unat (me_len e))"

definition below_4g :: "mmap_entry \<Rightarrow> bool" where
  "below_4g e = (me_type e = MULTIBOOT_MEMORY_AVAILABLE \<longrightarrow> unat (me_addr e) + unat (me_len e) \<le> 0xFFFFF000)"

fun separate :: "mmap_entry list \<Rightarrow> bool" where
  "separate [] = True"
| "separate (e # es) = ((\<forall>e'\<in>set es. \<forall>x. \<not> (reports e x \<and> reports e' x)) \<and> separate es)"

lemma page_boundary: "(a + 4095) div 4096 \<le> p \<longleftrightarrow> a \<le> p * (4096 :: nat)"
  using div_less_iff_less_mult [of 4096 "a + 4095" "Suc p"] by auto

lemma entry_pages_bytes:
  assumes "below_4g e"
  shows "p \<in> entry_pages e \<longleftrightarrow> reports e (p * 4096)"
proof (cases "me_type e = MULTIBOOT_MEMORY_AVAILABLE")
  case True
  let ?a = "unat (me_addr e)" and ?l = "unat (me_len e)"
  have b: "?a + ?l \<le> 0xFFFFF000" using assms True by (simp add: below_4g_def)
  have dm: "unat (DIV_UP x PAGE_SIZE) = (unat x + 4095) div 4096" for x by (subst DIV_UP_eq) (simp_all add: PAGE_SIZE_def)
  have "unat (me_addr e + me_len e) = ?a + ?l" using b by (intro unat_add_no_wrap) simp
  then have u: "unat (ucast (me_addr e) :: u32) = ?a" "unat (ucast (me_addr e + me_len e) :: u32) = ?a + ?l"
    using b by (simp_all add: unat_ucast take_bit_nat_eq_self)
  have s: "unat (entry_start e) = (?a + 4095) div 4096" by (simp add: entry_start_def dm u)
  have l: "(?a + ?l + 4095) div 4096 \<le> 1048575" using b by (simp add: page_boundary)
  have f: "unat (entry_end e) = (?a + ?l + 4095) div 4096"
    using l by (simp add: entry_end_def Let_def unat_ucast_up dm u ADDRESS_SPACE_SIZE_def word_less_nat_alt)
  have "entry_usable e" using True b by (simp add: entry_usable_def ADDRESS_SPACE_SIZE_def word_le_nat_alt)
  then show ?thesis using True page_boundary [of ?a p] page_boundary [of "?a + ?l" p]
    by (auto simp: entry_pages_def reports_def s f not_le [symmetric])
qed (simp add: entry_pages_def entry_usable_def reports_def)

lemma separate_disjoint: "separate es \<Longrightarrow> \<forall>e\<in>set es. below_4g e \<Longrightarrow> disjoint_entries es"
  by (induction es) (auto simp: entry_pages_bytes)

section \<open>Properties\<close>

definition boot_state :: "u32 \<Rightarrow> u32 \<Rightarrow> module list \<Rightarrow> mmap_entry list \<Rightarrow> boot" where
  "boot_state kstart kend mods entries = module_init mods \<lparr>kernel_start = kstart, kernel_end = kend,
     malloc_start = 0, malloc_end = 0, mmap = entries, modules = []\<rparr>"

lemma MALLOC_NUM_PAGES_val: "MALLOC_NUM_PAGES = 5120"
  by (simp add: MALLOC_NUM_PAGES_def DIV_UP_def sizeof_page_def NUM_ENTRIES_def PAGE_SIZE_def)


definition small_mmap :: "mmap_entry list" where
  "small_mmap = [\<lparr>me_addr = 0, me_len = 0x9FC00, me_type = 1\<rparr>, \<lparr>me_addr = 0x9FC00, me_len = 0x400, me_type = 2\<rparr>,
     \<lparr>me_addr = 0x100000, me_len = 0x7EE0000, me_type = 1\<rparr>]"

definition small_early :: early where
  "small_early = \<lparr>bios_bda_ptr = 0x400, vram_ptr = 0xB8000, strtab = 0x2E0000, strtabsz = 0x8000, symtab = 0x2F0000, symtabsz = 0x1000\<rparr>"

lemma small_mmap_pages:
  "entry_pages (small_mmap ! 0) = {0..<160}" "entry_pages (small_mmap ! 1) = {}" "entry_pages (small_mmap ! 2) = {256..<32736}"
  by (simp_all add: small_mmap_def entry_pages_def entry_usable_def entry_start_def entry_end_def DIV_UP_def Let_def
      PAGE_SIZE_def ADDRESS_SPACE_SIZE_def MULTIBOOT_MEMORY_AVAILABLE_def)

lemma small_mmap_ok:
  "separate small_mmap" "\<forall>d\<in>set small_mmap. below_4g d" "length small_mmap \<le> MMAP_BUFF_SIZE"
  by (auto simp: small_mmap_def reports_def below_4g_def MULTIBOOT_MEMORY_AVAILABLE_def MMAP_BUFF_SIZE_def)

lemma small_region: "find_region (boot_state 0x100000 0x300000 [] small_mmap) MALLOC_NUM_PAGES \<noteq> 0"
proof
  let ?b = "boot_state 0x100000 0x300000 [] small_mmap"
  assume "find_region ?b MALLOC_NUM_PAGES = 0"
  then have z: "find_region_in ?b small_mmap 5120 = 0" by (simp add: find_region_def boot_state_def module_init_def MALLOC_NUM_PAGES_val)
  have e: "small_mmap ! 2 \<in> set small_mmap" by (simp add: small_mmap_def)
  have ok: "\<forall>p. 1024 \<le> p \<and> p < 1024 + unat (5120::u32) \<longrightarrow> region_page ?b p"
  proof (intro allI impI)
    fix p :: nat assume p: "1024 \<le> p \<and> p < 1024 + unat (5120::u32)"
    then have "unat (of_nat p :: u32) = p" by (intro unat_of_nat_less) simp
    then show "region_page ?b p" using p
      by (simp add: region_page_def is_kernel_page_def is_module_page_def page_is_between_addr_def DIV_DOWN_def
        boot_state_def module_init_def PAGE_SIZE_def word_le_nat_alt)
  qed
  from find_region_in_complete [OF z _ e _ ok] obtain x where "x \<in> set small_mmap" "{0..<5120} \<subseteq> entry_pages x"
    using small_mmap_pages(3) by auto
  moreover have "set small_mmap = {small_mmap ! 0, small_mmap ! 1, small_mmap ! 2}" by (auto simp: small_mmap_def)
  ultimately show False using small_mmap_pages by auto
qed


text \<open>
  C32. A memory region that reaches beyond 4 GiB is lost: \<^verbatim>\<open>DIV_UP\<close> keeps only the low 32 bits of
  its end, so when these are not above the start no page of the region is made available,
  although the code goes on to clamp the end to the address space.
\<close>
theorem region_over_4g_lost:
  assumes "unat (me_addr e) < 4294967296" and "unat (me_addr e) + unat (me_len e) < 2 ^ 64"
    and "(unat (me_addr e) + unat (me_len e)) mod 4294967296 \<le> unat (me_addr e)"
  shows "entry_pages e = {}"
proof -
  have "unat (me_addr e + me_len e) = unat (me_addr e) + unat (me_len e)"
    using assms(2) by (intro unat_add_no_wrap) simp
  then have l: "unat (ucast (me_addr e + me_len e) :: u32) \<le> unat (ucast (me_addr e) :: u32)"
    using assms(1,3) by (simp add: unat_ucast)
  have dm: "unat (DIV_UP x PAGE_SIZE) = (unat x + 4095) div 4096" for x by (subst DIV_UP_eq) (simp_all add: PAGE_SIZE_def)
  have "unat (ucast (DIV_UP (ucast (me_addr e + me_len e)) PAGE_SIZE) :: u64) \<le> unat (entry_start e)"
    using l by (simp add: entry_start_def unat_ucast_up dm div_le_mono)
  then have "unat (entry_end e) \<le> unat (entry_start e)"
    by (simp add: entry_end_def Let_def word_less_nat_alt)
  then show ?thesis by (simp add: entry_pages_def)
qed

theorem region_over_4g_lost_witness:
  "entry_pages \<lparr>me_addr = 0x40000000, me_len = 0x100000000, me_type = 1\<rparr> = {}"
  by (rule region_over_4g_lost) simp_all

text \<open>A module inside a single page makes the number of pages given back wrap around.\<close>

lemma module_in_one_page_wraps:
  assumes "mod_start md div PAGE_SIZE = mod_end md div PAGE_SIZE" and "get_pageoff (mod_start md) \<noteq> 0"
  shows "DIV_DOWN (mod_end md) PAGE_SIZE - DIV_UP (mod_start md) PAGE_SIZE = - 1"
proof -
  let ?s = "unat (mod_start md)"
  have o: "?s mod 4096 \<noteq> 0" using assms(2) unat_pageoff [of "mod_start md"] by (metis unat_eq_zero)
  define d r where "d = ?s div 4096" and "r = ?s mod 4096"
  have q: "?s = 4096 * d + r" "0 < r" "r < 4096" using o by (simp_all add: d_def r_def)
  have "(?s + 4095) div 4096 = d + 1" unfolding q(1) by (rule div_nat_eqI) (use q(2,3) in simp_all)
  then have "(?s + 4095) div 4096 = ?s div 4096 + 1" by (simp add: d_def)
  moreover have "unat (DIV_UP (mod_start md) PAGE_SIZE) = (?s + 4095) div 4096" by (subst DIV_UP_eq) (simp_all add: PAGE_SIZE_def)
  moreover have "?s div 4096 < 1048576" using unat_lt_32 [of "mod_start md"] by (simp add: div_less_iff_less_mult)
  ultimately have "DIV_UP (mod_start md) PAGE_SIZE = mod_start md div PAGE_SIZE + 1"
    by (simp add: word_unat_eq_iff unat_word_ariths unat_div PAGE_SIZE_def)
  then show ?thesis using assms(1) by (simp add: DIV_DOWN_def)
qed

end
