(* ===== verification/String_Lib.thy ===== *)
theory String_Lib
  imports Slab_Cache
begin

text \<open>
  The string and memory routines of \<^verbatim>\<open>lib/string.c\<close> over a flat byte memory, the one the kernel
  sees through its address map. Characters are bytes; where C compares or subtracts a plain
  \<^verbatim>\<open>char\<close> it is signed, as on the target. A loop that runs until a terminator is found is a
  partial function; it returns on memory that holds a string.
\<close>

section \<open>The code\<close>

definition isdigit :: "int \<Rightarrow> bool" where
  "isdigit c = (48 \<le> c \<and> c \<le> 57)"

definition charset :: "u8 list" where
  "charset = map of_nat ([48..<58] @ [97..<123])"

text \<open>
  \<^verbatim>\<open>itoa\<close> computes with 32-bit signed integers. The digits come out least significant first;
  \<^term>\<open>None\<close> is a division by zero, a digit outside the character set, or no result because the
  value does not shrink.
\<close>

definition c_mod :: "int \<Rightarrow> int \<Rightarrow> int" where
  "c_mod v b = v mod abs b"

definition c_div :: "int \<Rightarrow> int \<Rightarrow> int" where
  "c_div v b = sgn b * (v div abs b)"

partial_function (option) itoa_loop :: "int \<Rightarrow> int \<Rightarrow> u8 list \<Rightarrow> u8 list option" where
  "itoa_loop v base scratch =
     (if 0 < v
      then if base = 0 \<or> 36 \<le> c_mod v base then None
           else itoa_loop (c_div v base) base (charset ! nat (c_mod v base) # scratch)
      else Some scratch)"

definition itoa_bytes :: "u32 \<Rightarrow> int \<Rightarrow> u8 list option" where
  "itoa_bytes val base =
     (let neg = sint val < 0;
          sign = (if neg then [45] else []);
          v = (if neg then - val else val)
      in if v = 0 then Some (sign @ [48, 0])
         else do { ds \<leftarrow> itoa_loop (sint v) base []; Some (sign @ ds @ [0]) })"

definition itoa :: "u32 \<Rightarrow> u32 \<Rightarrow> int \<Rightarrow> byte_mem \<Rightarrow> (byte_mem \<times> u32) option" where
  "itoa val buff base m = do { bs \<leftarrow> itoa_bytes val base; Some (mem_write m buff bs, buff) }"

partial_function (option) atoi_loop :: "byte_mem \<Rightarrow> u32 \<Rightarrow> u32 \<Rightarrow> u32 option" where
  "atoi_loop m str i =
     (if m str = 0 then Some i
      else if sint (m str) < 48 \<or> 57 < sint (m str) then Some i
      else atoi_loop m (str + 1) (i * 10 + (ucast (m str) - 48)))"

definition atoi :: "byte_mem \<Rightarrow> u32 \<Rightarrow> u32 option" where
  "atoi m str0 =
     (let factor = (if m str0 = 45 then - 1 else 1);
          str1 = (if m str0 = 45 then str0 + 1 else str0);
          str2 = (if m str1 = 43 then str1 + 1 else str1)
      in do { i \<leftarrow> atoi_loop m str2 0; Some (i * factor) })"

partial_function (option) strlen_loop :: "byte_mem \<Rightarrow> u32 \<Rightarrow> u32 \<Rightarrow> u32 option" where
  "strlen_loop m str len = (if m str = 0 then Some len else strlen_loop m (str + 1) (len + 1))"

definition strlen :: "byte_mem \<Rightarrow> u32 \<Rightarrow> u32 option" where
  "strlen m str = strlen_loop m str 0"

text \<open>The pointer is advanced before the comparison.\<close>

partial_function (option) strchr :: "byte_mem \<Rightarrow> u32 \<Rightarrow> int \<Rightarrow> u32 option" where
  "strchr m str c =
     (if m str = 0 then Some 0
      else if sint (m (str + 1)) = c then Some (str + 1) else strchr m (str + 1) c)"

partial_function (option) strcmp :: "byte_mem \<Rightarrow> u32 \<Rightarrow> u32 \<Rightarrow> int option" where
  "strcmp m a b =
     (if m a = 0 \<and> m b = 0 then Some 0
      else if m a \<noteq> m b then Some (sint (m a) - sint (m b)) else strcmp m (a + 1) (b + 1))"

partial_function (option) strcpy_loop :: "u32 \<Rightarrow> u32 \<Rightarrow> byte_mem \<Rightarrow> byte_mem option" where
  "strcpy_loop dest src m =
     (if m src = 0 then Some (m(dest := m src)) else strcpy_loop (dest + 1) (src + 1) (m(dest := m src)))"

definition strcpy :: "u32 \<Rightarrow> u32 \<Rightarrow> byte_mem \<Rightarrow> (byte_mem \<times> u32) option" where
  "strcpy dest src m = do { m' \<leftarrow> strcpy_loop dest src m; Some (m', dest) }"

fun memset_loop :: "u32 \<Rightarrow> u8 \<Rightarrow> nat \<Rightarrow> nat \<Rightarrow> byte_mem \<Rightarrow> byte_mem" where
  "memset_loop p c i 0 m = m"
| "memset_loop p c i (Suc n) m = memset_loop p c (i + 1) n (m(p + of_nat i := c))"

definition memset :: "u32 \<Rightarrow> u32 \<Rightarrow> u32 \<Rightarrow> byte_mem \<Rightarrow> byte_mem" where
  "memset ptr c bytes m = memset_loop ptr (ucast c) 0 (unat bytes) m"

fun copy_up :: "u32 \<Rightarrow> u32 \<Rightarrow> nat \<Rightarrow> nat \<Rightarrow> byte_mem \<Rightarrow> byte_mem" where
  "copy_up d s i 0 m = m"
| "copy_up d s i (Suc n) m = copy_up d s (i + 1) n (m(d + of_nat i := m (s + of_nat i)))"

fun copy_down :: "u32 \<Rightarrow> u32 \<Rightarrow> nat \<Rightarrow> byte_mem \<Rightarrow> byte_mem" where
  "copy_down d s 0 m = m"
| "copy_down d s (Suc i) m = copy_down d s i (m(d + of_nat i := m (s + of_nat i)))"

definition memcpy :: "u32 \<Rightarrow> u32 \<Rightarrow> u32 \<Rightarrow> byte_mem \<Rightarrow> byte_mem" where
  "memcpy dest source bytes m = copy_up dest source 0 (unat bytes) m"

definition memmove :: "u32 \<Rightarrow> u32 \<Rightarrow> u32 \<Rightarrow> byte_mem \<Rightarrow> byte_mem" where
  "memmove dest source bytes m =
     (if dest < source then copy_up dest source 0 (unat bytes) m else copy_down dest source (unat bytes) m)"

fun memcmp_loop :: "byte_mem \<Rightarrow> u32 \<Rightarrow> u32 \<Rightarrow> nat \<Rightarrow> nat \<Rightarrow> int" where
  "memcmp_loop m a b i 0 = 0"
| "memcmp_loop m a b i (Suc n) =
     (if m (a + of_nat i) \<noteq> m (b + of_nat i) then sint (m (a + of_nat i)) - sint (m (b + of_nat i))
      else memcmp_loop m a b (i + 1) n)"

definition memcmp :: "byte_mem \<Rightarrow> u32 \<Rightarrow> u32 \<Rightarrow> u32 \<Rightarrow> int" where
  "memcmp m a b bytes = memcmp_loop m a b 0 (unat bytes)"

fun memchr_loop :: "byte_mem \<Rightarrow> u32 \<Rightarrow> u8 \<Rightarrow> nat \<Rightarrow> u32" where
  "memchr_loop m p c 0 = 0"
| "memchr_loop m p c (Suc n) = (if m p = c then p else memchr_loop m (p + 1) c n)"

definition memchr :: "byte_mem \<Rightarrow> u32 \<Rightarrow> u32 \<Rightarrow> u32 \<Rightarrow> u32" where
  "memchr m ptr val bytes = memchr_loop m ptr (ucast val) (unat bytes)"

text \<open>The routines that allocate thread the heap and the memory its blocks lie in.\<close>

definition strdup :: "u32 \<Rightarrow> heap \<Rightarrow> byte_mem \<Rightarrow> (heap \<times> byte_mem \<times> u32) option" where
  "strdup orig h m = do {
     n \<leftarrow> strlen m orig;
     (h1, p) \<leftarrow> kmalloc (n + 1) h;
     (m1, _) \<leftarrow> strcpy p orig m;
     Some (h1, m1, p) }"

definition alloc_strtab :: "u32 \<Rightarrow> heap \<Rightarrow> byte_mem \<Rightarrow> (heap \<times> byte_mem \<times> u32) option" where
  "alloc_strtab len h m = do {
     (h1, tab) \<leftarrow> kmalloc (4 * (len + 1)) h;
     Some (h1, write32 m (tab + 4 * len) 0, tab) }"

partial_function (option) strtab_len_loop :: "byte_mem \<Rightarrow> u32 \<Rightarrow> u32 \<Rightarrow> u32 option" where
  "strtab_len_loop m tab len = (if read32 m tab = 0 then Some len else strtab_len_loop m (tab + 4) (len + 1))"

definition strtab_len :: "byte_mem \<Rightarrow> u32 \<Rightarrow> u32 option" where
  "strtab_len m tab = (if tab = 0 then Some 0 else strtab_len_loop m tab 0)"

fun copy_strtab_loop :: "u32 \<Rightarrow> u32 \<Rightarrow> u32 \<Rightarrow> nat \<Rightarrow> heap \<Rightarrow> byte_mem \<Rightarrow> (heap \<times> byte_mem) option" where
  "copy_strtab_loop raw copy i 0 h m = Some (h, m)"
| "copy_strtab_loop raw copy i (Suc n) h m = do {
     (h1, m1, s) \<leftarrow> strdup (read32 m (raw + 4 * i)) h m;
     copy_strtab_loop raw copy (i + 1) n h1 (write32 m1 (copy + 4 * i) s) }"

definition copy_strtab :: "u32 \<Rightarrow> heap \<Rightarrow> byte_mem \<Rightarrow> (heap \<times> byte_mem \<times> u32) option" where
  "copy_strtab raw h m =
     (if raw = 0 then Some (h, m, 0)
      else do {
        len \<leftarrow> strtab_len m raw;
        (h1, m1, copy) \<leftarrow> alloc_strtab len h m;
        (h2, m2) \<leftarrow> copy_strtab_loop raw copy 0 (unat len) h1 m1;
        Some (h2, write32 m2 (copy + 4 * len) 0, copy) })"

section \<open>Strings in memory\<close>

fun holds_str :: "byte_mem \<Rightarrow> u32 \<Rightarrow> u8 list \<Rightarrow> bool" where
  "holds_str m a [] = (m a = 0)"
| "holds_str m a (b # bs) = (m a = b \<and> b \<noteq> 0 \<and> holds_str m (a + 1) bs)"

lemma strlen_loop_ok: "holds_str m a s \<Longrightarrow> strlen_loop m a n = Some (n + of_nat (length s))"
proof (induction s arbitrary: a n)
  case Nil then show ?case by (simp add: strlen_loop.simps)
next
  case (Cons b s)
  then show ?case by (subst strlen_loop.simps) (simp add: algebra_simps)
qed

lemma sint_inj: "sint (a :: u8) = sint b \<longleftrightarrow> a = b"
  by (auto intro: signed_word_eqI)

lemma sint_zero: "sint (a :: u8) = 0 \<longleftrightarrow> a = 0" "0 = sint (a :: u8) \<longleftrightarrow> a = 0"
  using sint_inj [of a 0] by auto

lemma strcmp_ok:
  "holds_str m a s \<Longrightarrow> holds_str m b t \<Longrightarrow> \<exists>r. strcmp m a b = Some r \<and> (r = 0 \<longleftrightarrow> s = t)"
proof (induction s arbitrary: a b t)
  case Nil
  then show ?case by (subst strcmp.simps) (cases t; auto simp: sint_inj sint_zero)
next
  case (Cons c s)
  show ?case
  proof (cases t)
    case Nil
    then show ?thesis using Cons.prems by (subst strcmp.simps) (auto simp: sint_inj sint_zero)
  next
    case (Cons d t')
    then show ?thesis using Cons.IH [of "a + 1" "b + 1" t'] Cons.prems by (subst strcmp.simps) (auto simp: sint_inj sint_zero)
  qed
qed

lemma strchr_absent:
  "holds_str m a (b # s) \<Longrightarrow> c \<notin> sint ` set s \<Longrightarrow> c \<noteq> 0 \<Longrightarrow> strchr m a c = Some 0"
proof (induction s arbitrary: a b)
  case Nil
  then show ?case by (subst strchr.simps, simp, subst strchr.simps, simp)
next
  case (Cons d s)
  from Cons.prems have "holds_str m (a + 1) (d # s)" by simp
  from Cons.IH [OF this] Cons.prems have "strchr m (a + 1) c = Some 0" by simp
  then show ?case using Cons.prems by (subst strchr.simps) auto
qed

lemma strchr_present:
  "holds_str m a (b # s) \<Longrightarrow> c \<in> sint ` set s \<Longrightarrow>
     \<exists>i<length s. strchr m a c = Some (a + of_nat (Suc i)) \<and> sint (s ! i) = c \<and> (\<forall>j<i. sint (s ! j) \<noteq> c)"
proof (induction s arbitrary: a b)
  case (Cons d s)
  show ?case
  proof (cases "sint d = c")
    case True
    then show ?thesis using Cons.prems by (subst strchr.simps) (intro exI [of _ 0], simp)
  next
    case False
    have h: "holds_str m (a + 1) (d # s)" using Cons.prems by simp
    obtain i where i: "i < length s" "strchr m (a + 1) c = Some (a + 1 + of_nat (Suc i))" "sint (s ! i) = c"
      "\<forall>j<i. sint (s ! j) \<noteq> c" using Cons.IH [OF h] Cons.prems(2) False by auto
    have "strchr m a c = strchr m (a + 1) c" using Cons.prems(1) False by (subst strchr.simps) simp
    moreover have "\<forall>j<Suc i. sint ((d # s) ! j) \<noteq> c" using i(4) False by (auto simp: less_Suc_eq_0_disj)
    ultimately show ?thesis using i by (intro exI [of _ "Suc i"]) (simp add: algebra_simps)
  qed
qed simp

lemma holds_str_cong: "(\<And>i. i \<le> length s \<Longrightarrow> m' (a + of_nat i) = m (a + of_nat i)) \<Longrightarrow> holds_str m' a s = holds_str m a s"
proof (induction s arbitrary: a)
  case (Cons b s)
  have "holds_str m' (a + 1) s = holds_str m (a + 1) s"
  proof (rule Cons.IH)
    fix i assume "i \<le> length s"
    then show "m' (a + 1 + of_nat i) = m (a + 1 + of_nat i)" using Cons.prems [of "Suc i"] by (simp add: algebra_simps)
  qed
  then show ?case using Cons.prems [of 0] by simp
qed simp

lemma strcpy_loop_ok:
  "holds_str m src s \<Longrightarrow> (\<forall>i\<le>length s. \<forall>j\<le>length s. dest + of_nat i \<noteq> src + of_nat j) \<Longrightarrow>
     strcpy_loop dest src m = Some (mem_write m dest (s @ [0]))"
proof (induction s arbitrary: dest src m)
  case Nil
  then show ?case by (subst strcpy_loop.simps) simp
next
  case (Cons b s)
  let ?m = "m(dest := b)"
  have "holds_str ?m (src + 1) s = holds_str m (src + 1) s"
  proof (rule holds_str_cong)
    fix i assume "i \<le> length s"
    then have "dest + of_nat 0 \<noteq> src + of_nat (Suc i)" using Cons.prems(2) by (metis Suc_le_mono le0 length_Cons)
    then show "?m (src + 1 + of_nat i) = m (src + 1 + of_nat i)" by (simp add: algebra_simps)
  qed
  then have h: "holds_str ?m (src + 1) s" using Cons.prems(1) by simp
  have "\<forall>i\<le>length s. \<forall>j\<le>length s. (dest + 1) + of_nat i \<noteq> (src + 1) + of_nat j"
  proof (intro allI impI)
    fix i j assume "i \<le> length s" "j \<le> length s"
    then have "dest + of_nat (Suc i) \<noteq> src + of_nat (Suc j)" using Cons.prems(2) by (metis Suc_le_mono length_Cons)
    then show "(dest + 1) + of_nat i \<noteq> (src + 1) + of_nat j" by (simp add: algebra_simps)
  qed
  from Cons.IH [OF h this] show ?case using Cons.prems(1) by (subst strcpy_loop.simps) (simp del: fun_upd_apply)
qed

lemma mem_write_elsewhere:
  "(\<And>i. i < length bs \<Longrightarrow> x \<noteq> a + of_nat i) \<Longrightarrow> mem_write m a bs x = m x"
proof (induction bs arbitrary: m a)
  case (Cons b bs)
  have "mem_write (m(a := b)) (a + 1) bs x = (m(a := b)) x"
  proof (rule Cons.IH)
    fix i assume "i < length bs"
    then show "x \<noteq> a + 1 + of_nat i" using Cons.prems [of "Suc i"] by (simp add: algebra_simps)
  qed
  then show ?case using Cons.prems [of 0] by simp
qed simp

lemma mem_write_holds:
  "0 \<notin> set s \<Longrightarrow> length s < 2 ^ 32 \<Longrightarrow> holds_str (mem_write m a (s @ [0])) a s"
proof (induction s arbitrary: m a)
  case (Cons b s)
  have "mem_write (m(a := b)) (a + 1) (s @ [0]) a = (m(a := b)) a"
  proof (rule mem_write_elsewhere)
    fix i assume "i < length (s @ [0])"
    then have "unat (of_nat (Suc i) :: u32) = Suc i \<or> Suc i = 2 ^ 32" using Cons.prems(2)
      by (cases "Suc i < 2 ^ 32") (auto simp: unat_of_nat take_bit_nat_eq_self simp del: of_nat_Suc)
    moreover have "Suc i < 2 ^ 32" using \<open>i < length (s @ [0])\<close> Cons.prems(2) by simp
    ultimately have "(of_nat (Suc i) :: u32) \<noteq> 0" by (metis Zero_not_Suc nless_le unat_0)
    then show "a \<noteq> a + 1 + of_nat i" by (simp add: algebra_simps)
  qed
  moreover have "holds_str (mem_write (m(a := b)) (a + 1) (s @ [0])) (a + 1) s" using Cons.prems by (intro Cons.IH) simp_all
  ultimately show ?case using Cons.prems by simp
qed simp

section \<open>Copies between overlapping ranges\<close>

lemma in_range_iff:
  fixes x d :: u32
  assumes "n \<le> 2 ^ 32"
  shows "(\<exists>i<n. x = d + of_nat i) \<longleftrightarrow> unat (x - d) < n"
proof
  assume "\<exists>i<n. x = d + of_nat i"
  then obtain i where i: "i < n" "x - d = of_nat i" by auto
  then show "unat (x - d) < n" using assms by (simp add: unat_of_nat take_bit_nat_eq_self)
next
  assume "unat (x - d) < n"
  then show "\<exists>i<n. x = d + of_nat i" by (intro exI [of _ "unat (x - d)"]) simp
qed

lemma copy_up_ok:
  "(\<forall>i j. k \<le> i \<and> i < j \<and> j < k + n \<longrightarrow> d + of_nat i \<noteq> s + of_nat j) \<Longrightarrow>
     copy_up d s k n m = (\<lambda>x. if \<exists>i. k \<le> i \<and> i < k + n \<and> x = d + of_nat i then m (s + (x - d)) else m x)"
proof (induction n arbitrary: k m)
  case 0
  have "\<not> (\<exists>i\<ge>k. i < k \<and> x = d + of_nat i)" for x by auto
  then show ?case by (simp only: copy_up.simps add_0_right if_False simp_thms)
next
  case (Suc n)
  let ?m = "m(d + of_nat k := m (s + of_nat k))"
  have "copy_up d s (k + 1) n ?m =
      (\<lambda>x. if \<exists>i. k + 1 \<le> i \<and> i < k + 1 + n \<and> x = d + of_nat i then ?m (s + (x - d)) else ?m x)"
    by (rule Suc.IH) (use Suc.prems in auto)
  moreover have "(if \<exists>i. k + 1 \<le> i \<and> i < k + 1 + n \<and> x = d + of_nat i then ?m (s + (x - d)) else ?m x) =
      (if \<exists>i. k \<le> i \<and> i < k + Suc n \<and> x = d + of_nat i then m (s + (x - d)) else m x)" for x
  proof (cases "\<exists>i. k + 1 \<le> i \<and> i < k + 1 + n \<and> x = d + of_nat i")
    case True
    then obtain i where i: "k + 1 \<le> i" "i < k + 1 + n" "x = d + of_nat i" by blast
    then have "d + of_nat k \<noteq> s + of_nat i" using Suc.prems by auto
    then have "?m (s + (x - d)) = m (s + (x - d))" using i(3) by auto
    moreover have "\<exists>i. k \<le> i \<and> i < k + Suc n \<and> x = d + of_nat i" using i by (intro exI [of _ i]) auto
    ultimately show ?thesis using True by simp
  next
    case False
    show ?thesis
    proof (cases "x = d + of_nat k")
      case True
      then have "\<exists>i. k \<le> i \<and> i < k + Suc n \<and> x = d + of_nat i" by auto
      then show ?thesis using True False by simp
    next
      case ne: False
      have "\<not> (\<exists>i. k \<le> i \<and> i < k + Suc n \<and> x = d + of_nat i)"
      proof
        assume "\<exists>i. k \<le> i \<and> i < k + Suc n \<and> x = d + of_nat i"
        then obtain i where "k \<le> i" "i < k + Suc n" "x = d + of_nat i" by blast
        then show False using False ne by (cases "i = k") auto
      qed
      then show ?thesis using False ne by (simp only: if_False fun_upd_apply)
    qed
  qed
  ultimately show ?case by (simp del: fun_upd_apply)
qed

lemma copy_down_ok:
  "(\<forall>i j. j < i \<and> i < n \<longrightarrow> d + of_nat i \<noteq> s + of_nat j) \<Longrightarrow>
     copy_down d s n m = (\<lambda>x. if \<exists>i<n. x = d + of_nat i then m (s + (x - d)) else m x)"
proof (induction n arbitrary: m)
  case (Suc n)
  let ?m = "m(d + of_nat n := m (s + of_nat n))"
  have "copy_down d s n ?m = (\<lambda>x. if \<exists>i<n. x = d + of_nat i then ?m (s + (x - d)) else ?m x)"
    by (rule Suc.IH) (use Suc.prems in auto)
  moreover have "(if \<exists>i<n. x = d + of_nat i then ?m (s + (x - d)) else ?m x) =
      (if \<exists>i<Suc n. x = d + of_nat i then m (s + (x - d)) else m x)" for x
  proof (cases "\<exists>i<n. x = d + of_nat i")
    case True
    then obtain i where i: "i < n" "x = d + of_nat i" by blast
    then have "d + of_nat n \<noteq> s + of_nat i" using Suc.prems by auto
    then have "?m (s + (x - d)) = m (s + (x - d))" using i(2) by auto
    moreover have "\<exists>i<Suc n. x = d + of_nat i" using i by (intro exI [of _ i]) auto
    ultimately show ?thesis using True by simp
  next
    case False
    show ?thesis using False by (cases "x = d + of_nat n") (auto simp: less_Suc_eq)
  qed
  ultimately show ?case by (simp del: fun_upd_apply)
qed simp

lemma no_wrap_shift:
  fixes d s :: u32
  assumes "unat d + n \<le> 2 ^ 32" "unat s + n \<le> 2 ^ 32" "i < n" "j < n"
  shows "d + of_nat i = s + of_nat j \<longleftrightarrow> unat d + i = unat s + j"
proof -
  have "unat (d + of_nat i) = unat d + i" "unat (s + of_nat j) = unat s + j"
    using assms by (simp_all add: unat_word_ariths unat_of_nat take_bit_nat_eq_self)
  then show ?thesis by (metis word_unat_eq_iff)
qed

lemma memmove_ok:
  assumes d: "unat dest + unat n \<le> 2 ^ 32" and s: "unat src + unat n \<le> 2 ^ 32"
  shows "memmove dest src n m = (\<lambda>x. if unat (x - dest) < unat n then m (src + (x - dest)) else m x)"
proof (cases "dest < src")
  case True
  then have "copy_up dest src 0 (unat n) m =
      (\<lambda>x. if \<exists>i. 0 \<le> i \<and> i < 0 + unat n \<and> x = dest + of_nat i then m (src + (x - dest)) else m x)"
    by (intro copy_up_ok) (auto simp: no_wrap_shift [OF d s] word_less_nat_alt)
  then show ?thesis using True in_range_iff [of "unat n"] unat_lt_32 [of n] by (simp add: memmove_def)
next
  case False
  then have "copy_down dest src (unat n) m = (\<lambda>x. if \<exists>i<unat n. x = dest + of_nat i then m (src + (x - dest)) else m x)"
    by (intro copy_down_ok) (auto simp: no_wrap_shift [OF d s] word_less_nat_alt)
  then show ?thesis using False in_range_iff [of "unat n"] unat_lt_32 [of n] by (simp add: memmove_def)
qed


section \<open>Numbers\<close>

definition digit_val :: "u8 \<Rightarrow> nat" where
  "digit_val c = (if unat c < 58 then unat c - 48 else unat c - 87)"

definition digits_val :: "nat \<Rightarrow> u8 list \<Rightarrow> nat" where
  "digits_val b ds = foldl (\<lambda>a d. a * b + digit_val d) 0 ds"

lemma foldl_digits: "foldl (\<lambda>a d. a * b + digit_val d) i ds = i * b ^ length ds + digits_val b ds"
proof (induction ds rule: rev_induct)
  case (snoc d ds)
  then show ?case by (simp add: digits_val_def algebra_simps)
qed (simp add: digits_val_def)

lemma charset_nth:
  assumes "k < 36"
  shows "charset ! k = of_nat (if k < 10 then 48 + k else 87 + k)"
proof -
  have "\<forall>k\<in>set [0..<36]. charset ! k = of_nat (if k < 10 then 48 + k else 87 + k)" by code_simp
  then show ?thesis using assms by simp
qed

lemma charset_digit:
  assumes "k < 36"
  shows "digit_val (charset ! k) = k" and "k < 10 \<Longrightarrow> unat (charset ! k) = 48 + k" and "charset ! k \<noteq> 0"
proof -
  have u: "unat (charset ! k) = (if k < 10 then 48 + k else 87 + k)"
    using assms by (simp add: charset_nth unat_of_nat take_bit_nat_eq_self)
  then show "digit_val (charset ! k) = k" by (simp add: digit_val_def)
  show "k < 10 \<Longrightarrow> unat (charset ! k) = 48 + k" using u by simp
  show "charset ! k \<noteq> 0" using u by (metis unat_0 add_is_0 zero_neq_numeral)
qed

text \<open>The digits a positive value is written with, most significant first.\<close>

lemma itoa_loop_ok:
  assumes b: "2 \<le> b" "b \<le> 36"
  shows "\<exists>ds. itoa_loop (int v) (int b) acc = Some (ds @ acc) \<and> digits_val b ds = v
    \<and> (\<forall>d\<in>set ds. \<exists>k<b. d = charset ! k) \<and> length ds \<le> v"
proof (induction v arbitrary: acc rule: less_induct)
  case (less v)
  show ?case
  proof (cases "v = 0")
    case True
    then show ?thesis by (subst itoa_loop.simps) (simp add: digits_val_def)
  next
    case False
    have k: "v mod b < b" "v mod b < 36" using b mod_less_divisor [of b v] by linarith+
    have lt: "v div b < v" using False b by simp
    have m: "c_mod (int v) (int b) = int (v mod b)" "c_div (int v) (int b) = int (v div b)"
      using b by (simp_all add: c_mod_def c_div_def zmod_int zdiv_int)
    obtain ds where ds: "itoa_loop (int (v div b)) (int b) (charset ! (v mod b) # acc) = Some (ds @ charset ! (v mod b) # acc)"
      "digits_val b ds = v div b" "\<forall>d\<in>set ds. \<exists>k<b. d = charset ! k" "length ds \<le> v div b" using less [OF lt] by blast
    have "itoa_loop (int v) (int b) acc = Some ((ds @ [charset ! (v mod b)]) @ acc)"
      using False ds(1) k b m by (subst itoa_loop.simps) simp
    moreover have "digits_val b (ds @ [charset ! (v mod b)]) = v"
      using ds(2) charset_digit(1) [OF k(2)] by (simp add: digits_val_def)
    moreover have "\<forall>d\<in>set (ds @ [charset ! (v mod b)]). \<exists>k<b. d = charset ! k" using ds(3) k(1) by auto
    moreover have "length (ds @ [charset ! (v mod b)]) \<le> v" using ds(4) lt by simp
    ultimately show ?thesis by blast
  qed
qed

lemma atoi_loop_ok:
  "holds_str m a ds \<Longrightarrow> (\<forall>d\<in>set ds. \<exists>k<10. d = charset ! k) \<Longrightarrow>
     atoi_loop m a (of_nat i) = Some (of_nat (foldl (\<lambda>a d. a * 10 + digit_val d) i ds))"
proof (induction ds arbitrary: a i)
  case Nil
  then show ?case by (subst atoi_loop.simps) simp
next
  case (Cons d ds)
  then obtain k where k: "k < 10" "d = charset ! k" by auto
  have ud: "unat d = 48 + k" using charset_digit(2) [of k] k by simp
  have dv: "digit_val d = k" using charset_digit(1) [of k] k by simp
  have d: "d = of_nat (48 + k)" using ud by (rule unat_eq_of_nat)
  have "int (48 + k) < 2 ^ 7" using k(1) by simp
  then have sd: "sint d = 48 + int k" unfolding d
    by (simp add: sint_uint uint_nat unat_of_nat take_bit_nat_eq_self signed_take_bit_int_eq_self del: of_nat_add)
  have "(ucast d - 48 :: u32) = of_nat k"
    using ud k(1) by (simp add: word_unat_eq_iff unat_sub word_le_nat_alt unat_ucast_up unat_of_nat)
  then have e: "(of_nat i * 10 + (ucast d - 48) :: u32) = of_nat (i * 10 + digit_val d)" using dv by simp
  have "atoi_loop m a (of_nat i) = atoi_loop m (a + 1) (of_nat i * 10 + (ucast d - 48))"
    using Cons.prems(1) sd k(1) by (subst atoi_loop.simps) simp
  then show ?case using Cons.IH [of "a + 1" "i * 10 + digit_val d"] Cons.prems unfolding e by simp
qed


lemma itoa_bytes_ok:
  assumes "val \<noteq> 0x80000000"
  shows "\<exists>s. itoa_bytes val 10 = Some (s @ [0]) \<and> 0 \<notin> set s \<and> length s < 2 ^ 32
    \<and> (\<forall>m a. holds_str m a s \<longrightarrow> atoi m a = Some val)"
proof -
  define neg where "neg = (sint val < 0)"
  define sg where "sg = (if neg then [45 :: u8] else [])"
  define v where "v = (if neg then - val else val)"
  define n where "n = nat (sint v)"
  have r: "- (2 ^ 31) \<le> sint val" "sint val < 2 ^ 31" using sint_range_size [of val] by (simp_all add: word_size)
  have "sint val \<noteq> - (2 ^ 31)"
  proof
    assume "sint val = - (2 ^ 31)"
    then have "sint val = sint (0x80000000 :: u32)" by simp
    then show False using assms signed_word_eqI by blast
  qed
  then have sv: "sint v = \<bar>sint val\<bar>"
    using r unfolding v_def neg_def by (simp add: sint_word_ariths(4) signed_take_bit_int_eq_self)
  have "sint val < 2 ^ 31 \<and> - (2 ^ 31) < sint val" using r \<open>sint val \<noteq> - (2 ^ 31)\<close> by linarith
  then have vn: "v = of_nat n" "n < 2 ^ 31" using sv unfolding n_def
    by (metis abs_ge_zero of_int_of_nat_eq int_nat_eq word_of_int_eq_iff of_int_sint scast_id, simp add: nat_less_iff abs_less_iff)
  have val: "val = v * (if neg then - 1 else 1)" by (simp add: v_def)
  obtain ds where ds: "itoa_bytes val 10 = Some ((sg @ ds) @ [0])" "digits_val 10 ds = n" "ds \<noteq> []"
      "\<forall>d\<in>set ds. \<exists>k<10. d = charset ! k" "length ds < 2 ^ 31"
  proof (cases "v = 0")
    case True
    have "n = 0" "\<exists>k<10. 48 = charset ! k" using True by (simp_all add: n_def) (rule exI [of _ 0], simp add: charset_nth)
    then show ?thesis using that [of "[48]"] True
      by (simp add: itoa_bytes_def v_def sg_def neg_def Let_def digits_val_def digit_val_def split: if_splits)
  next
    case False
    have "int n = sint v" using sv by (simp add: n_def)
    moreover from itoa_loop_ok [of 10 n "[]"] obtain ds where "itoa_loop (int n) 10 [] = Some ds" "digits_val 10 ds = n"
      "\<forall>d\<in>set ds. \<exists>k<10. d = charset ! k" "length ds \<le> n" by auto
    moreover have "n \<noteq> 0" using False vn by (cases "n = 0") simp_all
    then have "ds \<noteq> []" if "digits_val 10 ds = n" for ds using that by (auto simp: digits_val_def)
    ultimately show ?thesis using that [of ds] False vn(2)
      by (simp add: itoa_bytes_def v_def sg_def neg_def Let_def)
  qed
  have "atoi m a = Some val" if h: "holds_str m a (sg @ ds)" for m a
  proof -
    define a1 where "a1 = (if neg then a + 1 else a)"
    have h1: "holds_str m a1 ds" using h by (simp add: a1_def sg_def split: if_splits)
    obtain k d ds' where k: "k < 10" "ds = d # ds'" "d = charset ! k" using ds(3,4) by (cases ds) auto
    then have "m a1 = charset ! k" "unat (charset ! k) = 48 + k" using h1 charset_digit(2) by auto
    then have n: "m a1 \<noteq> 45" "m a1 \<noteq> 43" by (auto simp: word_unat_eq_iff)
    have m: "m a = 45 \<longleftrightarrow> neg" using h n(1) by (cases neg) (simp_all add: sg_def a1_def)
    have "atoi_loop m a1 (of_nat 0) = Some (of_nat n)" using atoi_loop_ok [OF h1 ds(4), of 0] ds(2) by (simp add: digits_val_def)
    then show ?thesis using n val vn(1) unfolding atoi_def m Let_def by (simp add: a1_def [symmetric])
  qed
  moreover have "0 \<notin> set ds" using ds(4) charset_digit(3) by fastforce
  moreover have "length (sg @ ds) < 2 ^ 32" "0 \<notin> set sg" using ds(5) by (auto simp: sg_def)
  ultimately show ?thesis using ds(1) by (intro exI [of _ "sg @ ds"]) auto
qed

text \<open>
  C30. \<^verbatim>\<open>atoi\<close> reads back what \<^verbatim>\<open>itoa\<close> writes in base ten: for every 32-bit value but the smallest
  one both return, and the number read from the buffer is the number written.
\<close>

theorem itoa_atoi_roundtrip:
  assumes "val \<noteq> 0x80000000"
  shows "\<exists>m'. itoa val buff 10 m = Some (m', buff) \<and> atoi m' buff = Some val"
proof -
  obtain s where s: "itoa_bytes val 10 = Some (s @ [0])" "0 \<notin> set s" "length s < 2 ^ 32"
    "\<forall>m a. holds_str m a s \<longrightarrow> atoi m a = Some val" using itoa_bytes_ok [OF assms] by blast
  have "holds_str (mem_write m buff (s @ [0])) buff s" by (rule mem_write_holds [OF s(2,3)])
  then show ?thesis using s(1,4) by (simp add: itoa_def)
qed

theorem itoa_atoi_roundtrip_witness:
  "\<exists>m'. itoa 0xFFFFFF38 0x1000 10 (\<lambda>_. 0) = Some (m', 0x1000) \<and> atoi m' 0x1000 = Some 0xFFFFFF38"
  using itoa_atoi_roundtrip [of "0xFFFFFF38" "0x1000" "\<lambda>_. 0"] by simp

text \<open>The smallest value has no positive counterpart: only the sign is written.\<close>

lemma itoa_int_min: "itoa_bytes 0x80000000 base = Some [45, 0]"
  by (simp add: itoa_bytes_def itoa_loop.simps)

text \<open>
  C31. \<^verbatim>\<open>memmove\<close> copies correctly however the two areas overlap: afterwards the destination holds
  what the source held before, and no byte outside the destination has changed.
\<close>

theorem memmove_correct:
  assumes "unat dest + unat n \<le> 2 ^ 32" and "unat src + unat n \<le> 2 ^ 32"
  shows "(\<forall>i<unat n. memmove dest src n m (dest + of_nat i) = m (src + of_nat i))
    \<and> (\<forall>x. (\<forall>i<unat n. x \<noteq> dest + of_nat i) \<longrightarrow> memmove dest src n m x = m x)"
proof (intro conjI allI impI)
  fix i assume "i < unat n"
  moreover have "unat n < 2 ^ 32" using unsigned_less [of n] by simp
  ultimately have "unat (of_nat i :: u32) = i" by (intro unat_of_nat_less) simp
  then show "memmove dest src n m (dest + of_nat i) = m (src + of_nat i)"
    using \<open>i < unat n\<close> by (simp add: memmove_ok [OF assms])
next
  fix x assume a: "\<forall>i<unat n. x \<noteq> dest + of_nat i"
  have "\<not> unat (x - dest) < unat n" using a [rule_format, of "unat (x - dest)"] by auto
  then show "memmove dest src n m x = m x" by (simp add: memmove_ok [OF assms])
qed

theorem memmove_correct_witness:
  "\<exists>m. m 0x100A = 7 \<and> memmove 0x100B 0x100A 4 m 0x100B = 7 \<and> memmove 0x1009 0x100A 4 m 0x1009 = 7"
  using memmove_correct [of "0x100B" 4 "0x100A" "\<lambda>_. 7"] memmove_correct [of "0x1009" 4 "0x100A" "\<lambda>_. 7"]
  by (intro exI [of _ "\<lambda>_. 7"]) (auto dest: spec [of _ "0::nat"])

section \<open>Copies on the heap\<close>

lemma kheap_block_end:
  assumes "kheap_spec C L h B" and "b \<in> B"
  shows "unat (fst b) + snd b \<le> 2 ^ 32"
proof -
  obtain K t where K: "kheap_inv h C L K" and t: "t \<in> ktags h C K" "b = kblock h t" using assms by (auto simp: kheap_spec_def)
  note hi = kheap_invD(1) [OF K]
  show ?thesis
  proof (cases t)
    case (Small c a i)
    then have c: "c \<in> C" "(a, i) \<in> live_objs h c" using t by (auto simp: ktags_def)
    then have "a \<in> set (cpages (h_cache h c))" by (simp add: live_objs_def)
    then have al: "unat a mod 4096 = 0" by (rule cp_backed_aligned [OF heap_invD(3) [OF hi c(1)]])
    have p: "0 < snd b" using block_nonempty [OF K t(1)] t(2) by simp
    then have "unat (fst b) + snd b - 1 \<in> block_bytes (kblock h (Small c a i))" using t(2) Small by (simp add: block_bytes_def)
    from small_bytes(4) [OF hi c this] show ?thesis using aligned_top [OF al] p by simp
  next
    case (Large p n)
    then have "large_ok (h_vm h) p n" using t kheap_invD(3) [OF K] by (auto simp: ktags_def)
    then obtain j where j: "0 < n" "j + n \<le> KERNEL_PAGES" "\<forall>d<n. page_to_virt (h_vm h) (p + d) = kvirt (j + d)"
      by (auto simp: large_ok_def)
    have "page_to_virt (h_vm h) p = kvirt j" using j(1,3) by (metis add_0_right)
    then show ?thesis using Large t(2) j(1,2) kvirt_unat [of j 0] by (simp add: KERNEL_PAGES_def)
  qed
qed

lemma block_offset:
  fixes q :: u32
  assumes "unat q + len \<le> 2 ^ 32" and "i < len"
  shows "unat (q + of_nat i) = unat q + i" and "unat (q + of_nat i) \<in> block_bytes (q, len)"
proof -
  have "unat (of_nat i :: u32) = i" using assms by (intro unat_of_nat_less) simp
  then show "unat (q + of_nat i) = unat q + i" using assms by (simp add: unat_word_ariths)
  then show "unat (q + of_nat i) \<in> block_bytes (q, len)" using assms(2) by (simp add: block_bytes_def)
qed

lemma kmalloc_returns:
  assumes "kheap_spec C L h B"
  shows "kmalloc sz h \<noteq> None \<longleftrightarrow> heap_room sz h"
proof -
  obtain K where "kheap_inv h C L K" using assms by (auto simp: kheap_spec_def)
  then show ?thesis
    using kmalloc_small_returns [of h C L K sz] kmalloc_large_returns [of h C L K sz] by (cases "sz \<le> KALLOC_CACHE_MAX") auto
qed

text \<open>
  C8. \<^verbatim>\<open>strdup\<close> of a string that lies in a live heap block returns whenever the heap has room, and
  gives a block of its own that holds the same string; the memory outside the new block, and so every
  live block, keeps its contents.
\<close>

theorem strdup_fresh_copy:
  assumes inv: "kheap_spec C L h B" and b: "b \<in> B" and s: "holds_str m p s" and ls: "length s < 2 ^ 32 - 1"
    and p: "\<forall>i\<le>length s. unat (p + of_nat i) \<in> block_bytes b" and room: "heap_room (of_nat (length s) + 1) h"
  shows "\<exists>h' m' q len. strdup p h m = Some (h', m', q) \<and> holds_str m' q s
    \<and> (q, len) \<notin> B \<and> kheap_spec C L h' (insert (q, len) B)
    \<and> (\<forall>x. unat x \<notin> block_bytes (q, len) \<longrightarrow> m' x = m x) \<and> (\<forall>c\<in>B. block_bytes (q, len) \<inter> block_bytes c = {})"
proof -
  obtain h' q where k: "kmalloc (of_nat (length s) + 1) h = Some (h', q)"
    using kmalloc_returns [OF inv, of "of_nat (length s) + 1"] room by auto
  obtain len where l: "unat (of_nat (length s) + 1 :: u32) \<le> len" "(q, len) \<notin> B" "kheap_spec C L h' (insert (q, len) B)"
    using kheap.alloc_ok [OF inv k] by blast
  have "unat (of_nat (length s + 1) :: u32) = length s + 1" using ls by (intro unat_of_nat_less) simp
  then have len: "length s < len" using l(1) by (simp add: add.commute)
  have dj: "block_bytes (q, len) \<inter> block_bytes c = {}" if "c \<in> B" for c
    using kheap.disjoint [OF l(3), of "(q, len)" c] that l(2) by auto
  have "unat q + len \<le> 2 ^ 32" using kheap_block_end [OF l(3), of "(q, len)"] by simp
  note q = block_offset [OF this]
  have "\<forall>i\<le>length s. \<forall>j\<le>length s. q + of_nat i \<noteq> p + of_nat j"
  proof (intro allI impI notI)
    fix i j assume ij: "i \<le> length s" "j \<le> length s" "q + of_nat i = p + of_nat j"
    have "unat (q + of_nat i) \<in> block_bytes (q, len)" by (rule q(2)) (use ij len in simp)
    then show False using dj [OF b] p ij by auto
  qed
  from strcpy_loop_ok [OF s this] have c: "strcpy_loop q p m = Some (mem_write m q (s @ [0]))" .
  have "0 \<notin> set s" using s by (induction s arbitrary: p) auto
  then have "holds_str (mem_write m q (s @ [0])) q s" using ls by (intro mem_write_holds) auto
  moreover have "mem_write m q (s @ [0]) x = m x" if "unat x \<notin> block_bytes (q, len)" for x
    using that q(2) len by (intro mem_write_elsewhere) auto
  moreover have "strdup p h m = Some (h', mem_write m q (s @ [0]), q)"
    using strlen_loop_ok [OF s, of 0] k c by (simp add: strdup_def strlen_def strcpy_def)
  ultimately show ?thesis using l(2,3) dj by (intro exI [of _ h'] exI [of _ "mem_write m q (s @ [0])"] exI [of _ q] exI [of _ len]) simp
qed

theorem strdup_fresh_copy_witness:
  "\<exists>h h' m' q. kmalloc 2 small_heap = Some (h, 0xC0000568)
    \<and> strdup 0xC0000568 h (\<lambda>x. if x = 0xC0000568 then 65 else 0) = Some (h', m', q) \<and> holds_str m' q [65] \<and> q \<noteq> 0xC0000568"
proof -
  have e: "map_option (\<lambda>(h, p). (p, c_partial (h_cache h (kalloc_cache h 0)))) (kmalloc 2 small_heap) = Some (0xC0000568, [0xC0000000])"
    by code_simp
  then obtain h where h: "kmalloc 2 small_heap = Some (h, 0xC0000568)" "c_partial (h_cache h (kalloc_cache h 0)) = [0xC0000000]" by auto
  obtain len where l: "2 \<le> len" "kheap_spec (set [3, 4, 5, 6, 7, 8, 9, 10, 11]) {} h {(0xC0000568, len)}"
    using kheap.alloc_ok [OF small_heap_spec h(1)] by auto
  have i: "kalloc_cache_index 2 = Some 0"
    by (simp add: kalloc_cache_index_def kalloc_index_loop.simps KALLOC_CACHE_SHIFT_MIN_def KALLOC_CACHE_SHIFT_MAX_def)
  have r: "heap_room (of_nat (length [65 :: u8]) + 1) h"
    using h(2) i by (simp add: heap_room_def Let_def KALLOC_CACHE_MAX_def KALLOC_CACHE_SHIFT_MAX_def)
  have p: "\<forall>i\<le>length [65 :: u8]. unat (0xC0000568 + of_nat i :: u32) \<in> block_bytes (0xC0000568, len)"
    using l(1) by (auto simp: block_bytes_def le_Suc_eq)
  have "holds_str (\<lambda>x. if x = 0xC0000568 then 65 else 0) 0xC0000568 [65]" by simp
  from strdup_fresh_copy [OF l(2) singletonI this _ p r] obtain h' m' q len' where
    d: "strdup 0xC0000568 h (\<lambda>x. if x = 0xC0000568 then 65 else 0) = Some (h', m', q)" "holds_str m' q [65]"
      "kheap_spec (set [3, 4, 5, 6, 7, 8, 9, 10, 11]) {} h' {(q, len'), (0xC0000568, len)}"
      "\<forall>c\<in>{(0xC0000568, len)}. block_bytes (q, len') \<inter> block_bytes c = {}" by auto
  have "0 < len'" using kheap.nonempty [OF d(3), of "(q, len')"] by simp
  then have "q \<noteq> 0xC0000568" using d(4) l(1) by (auto simp: block_bytes_def)
  then show ?thesis using h(1) d(1,2) by blast
qed

text \<open>
  C37. On a non-empty string and for a character other than the terminator \<^verbatim>\<open>strchr\<close> returns the first
  occurrence behind the first character, or a null pointer if there is none: the first character is
  tested for the end of the string but never compared, so a match there is missed.
\<close>
theorem strchr_skips_first:
  assumes "holds_str m a (b # s)" and "c \<noteq> 0"
  shows "strchr m a (sint c) \<noteq> None
    \<and> (c \<notin> set s \<longrightarrow> strchr m a (sint c) = Some 0)
    \<and> (\<forall>i<length s. s ! i = c \<and> (\<forall>j<i. s ! j \<noteq> c) \<longrightarrow> strchr m a (sint c) = Some (a + of_nat (i + 1)))"
proof -
  have c0: "sint c \<noteq> 0" using assms(2) by (simp add: sint_zero)
  have m: "sint c \<in> sint ` set s \<longleftrightarrow> c \<in> set s" by (auto simp: sint_inj)
  show ?thesis
  proof (cases "c \<in> set s")
    case True
    then obtain k where k: "k < length s" "strchr m a (sint c) = Some (a + of_nat (Suc k))" "s ! k = c" "\<forall>j<k. s ! j \<noteq> c"
      using strchr_present [OF assms(1), of "sint c"] m by (auto simp: sint_inj)
    have "i = k" if "s ! i = c" "\<forall>j<i. s ! j \<noteq> c" for i using that k(3,4) by (metis linorder_neqE_nat)
    then show ?thesis using k(2) True by auto
  next
    case False
    then show ?thesis using strchr_absent [OF assms(1), of "sint c"] c0 m by auto
  qed
qed

text \<open>The strings \<open>AB\<close> and \<open>ABA\<close>, searched for an \<open>A\<close>.\<close>

theorem strchr_skips_first_witness:
  "strchr (\<lambda>x. if x = 0x1000 then 65 else if x = 0x1001 then 66 else 0) 0x1000 (sint (65 :: u8)) = Some 0
   \<and> strchr (\<lambda>x. if x = 0x1000 then 65 else if x = 0x1001 then 66 else if x = 0x1002 then 65 else 0) 0x1000 (sint (65 :: u8)) = Some 0x1002"
proof -
  let ?m = "\<lambda>x :: u32. if x = 0x1000 then 65 else if x = 0x1001 then 66 else 0 :: u8"
  let ?n = "\<lambda>x :: u32. if x = 0x1000 then 65 else if x = 0x1001 then 66 else if x = 0x1002 then 65 else 0 :: u8"
  have "holds_str ?m 0x1000 [65, 66]" "holds_str ?n 0x1000 [65, 66, 65]" by simp_all
  from strchr_skips_first [OF this(1), of 65] strchr_skips_first [OF this(2), of 65] show ?thesis
    by (auto dest: spec [of _ 1])
qed

end
