(* ===== verification/Ticket_Lock.thy ===== *)
theory Ticket_Lock
  imports KOS_Prelude
begin

text \<open>
  Atomic operations (\<^verbatim>\<open>arch/atomic.c\<close>, \<^verbatim>\<open>arch/atomic_ops.h\<close>) and ticket spinlocks
  (\<^verbatim>\<open>arch/spinlock.c\<close>, \<^verbatim>\<open>inc/arch/spinlock.h\<close>, \<^verbatim>\<open>inc/sync/spinlock.h\<close>,
  \<^verbatim>\<open>inc/arch/interrupt.h\<close>). The processors run one atomic access at a time in any order: each
  function of the source is cut at its accesses to the lock word and the pieces are interleaved by
  a step relation. The theory shows mutual exclusion, that no check fires, first-come
  first-served order and, under fair scheduling, that every waiting processor gets the lock.
\<close>

section \<open>Atomic operations\<close>

text \<open>Each locked instruction is one function from the old contents to the new contents and the result.\<close>

definition xchg_op_add :: "'a::len word \<Rightarrow> 'a word \<Rightarrow> 'a word \<times> 'a word" where
  "xchg_op_add m arg = (m + arg, m)"

definition cmpxchg :: "'a::len word \<Rightarrow> 'a word \<Rightarrow> 'a word \<Rightarrow> 'a word \<times> 'a word" where
  "cmpxchg m old new = (if m = old then new else m, m)"

definition add_op :: "'a::len word \<Rightarrow> 'a word \<Rightarrow> 'a word" where
  "add_op m inc = m + inc"

definition atomic_read :: "u32 \<Rightarrow> u32" where
  "atomic_read a = a"

definition atomic_set :: "u32 \<Rightarrow> u32 \<Rightarrow> u32" where
  "atomic_set a v = v"

definition atomic_inc :: "u32 \<Rightarrow> u32" where
  "atomic_inc a = a + 1"

definition atomic_inc_and_test :: "u32 \<Rightarrow> u32 \<times> bool" where
  "atomic_inc_and_test a = (a + 1, a + 1 = 0)"

definition atomic_dec :: "u32 \<Rightarrow> u32" where
  "atomic_dec a = a - 1"

definition atomic_dec_and_test :: "u32 \<Rightarrow> u32 \<times> bool" where
  "atomic_dec_and_test a = (a - 1, a - 1 = 0)"

definition atomic_xchg :: "u32 \<Rightarrow> u32 \<Rightarrow> u32 \<times> u32" where
  "atomic_xchg a v = (v, a)"

definition atomic_add :: "u32 \<Rightarrow> u32 \<Rightarrow> u32" where
  "atomic_add a v = a + v"

definition atomic_add_and_return :: "u32 \<Rightarrow> u32 \<Rightarrow> u32 \<times> u32" where
  "atomic_add_and_return a v = (let (a', old) = xchg_op_add a v in (a', v + old))"

definition atomic_sub :: "u32 \<Rightarrow> u32 \<Rightarrow> u32" where
  "atomic_sub a v = a - v"

section \<open>Locks and processors\<close>

text \<open>
  The lock word holds the ticket pair, the head in its low half. \<^verbatim>\<open>holder\<close> is a debugging aid:
  the number of the processor that has the lock, or 0xFFFF.
\<close>

record spinlock =
  raw :: u32
  holder :: u32

definition ticket_head :: "u32 \<Rightarrow> u16" where
  "ticket_head r = ucast r"

definition ticket_tail :: "u32 \<Rightarrow> u16" where
  "ticket_tail r = ucast (drop_bit 16 r)"

definition mk_tickets :: "u16 \<Rightarrow> u16 \<Rightarrow> u32" where
  "mk_tickets head tail = (push_bit 16 (ucast tail) OR ucast head)"

definition SPINLOCK_UNLOCKED :: spinlock where
  "SPINLOCK_UNLOCKED = \<lparr>raw = mk_tickets 0 0, holder = 0xFFFF\<rparr>"

definition SPINLOCK_LOCKED :: spinlock where
  "SPINLOCK_LOCKED = \<lparr>raw = mk_tickets 0 1, holder = 0xFFFF\<rparr>"

text \<open>
  Where a processor is inside the lock routines. In \<^verbatim>\<open>_spin_trylock\<close> it remembers the word it has
  read; in \<^verbatim>\<open>_spin_lock\<close> the ticket it spins for; \<open>Lock_Out\<close> is the label \<^verbatim>\<open>lock_out\<close> and the
  same code at the end of \<^verbatim>\<open>_spin_trylock\<close>; \<open>Unlocking\<close> is the point before the head is advanced.
\<close>

datatype pc = Outside | Try_Cmpxchg nat u32 | Spinning nat u16 | Lock_Out nat | Unlocking nat

record cpu =
  pc :: pc
  eflags_if :: bool
  locks_held :: u32
  lock_list :: "nat list"

record locks =
  lock :: "nat \<Rightarrow> spinlock"
  cpus :: "nat \<Rightarrow> cpu"
  percpu_up :: bool

definition set_lock :: "nat \<Rightarrow> spinlock \<Rightarrow> locks \<Rightarrow> locks" where
  "set_lock l k s = s\<lparr>lock := (lock s)(l := k)\<rparr>"

definition upd_cpu :: "nat \<Rightarrow> (cpu \<Rightarrow> cpu) \<Rightarrow> locks \<Rightarrow> locks" where
  "upd_cpu c f s = s\<lparr>cpus := (cpus s)(c := f (cpus s c))\<rparr>"

definition are_interrupts_enabled :: "nat \<Rightarrow> locks \<Rightarrow> bool" where
  "are_interrupts_enabled c s = eflags_if (cpus s c)"

definition check_irqs_disabled :: "nat \<Rightarrow> locks \<Rightarrow> unit option" where
  "check_irqs_disabled c s = bug_on (are_interrupts_enabled c s)"

definition irqdisable :: "nat \<Rightarrow> locks \<Rightarrow> locks" where
  "irqdisable c = upd_cpu c (eflags_if_update (\<lambda>_. False))"

definition irqenable :: "nat \<Rightarrow> locks \<Rightarrow> locks" where
  "irqenable c = upd_cpu c (eflags_if_update (\<lambda>_. True))"

definition irqsave :: "nat \<Rightarrow> locks \<Rightarrow> locks \<times> bool" where
  "irqsave c s = (irqdisable c s, are_interrupts_enabled c s)"

definition irqstore :: "nat \<Rightarrow> bool \<Rightarrow> locks \<Rightarrow> locks" where
  "irqstore c flags s = (if flags then irqenable c s else irqdisable c s)"

section \<open>The lock routines, cut at their atomic accesses\<close>

definition trylock_read :: "nat \<Rightarrow> nat \<Rightarrow> locks \<Rightarrow> locks option" where
  "trylock_read c l s = do {
     check_irqs_disabled c s;
     let old = raw (lock s l);
     Some (if ticket_head old \<noteq> ticket_tail old then s
           else upd_cpu c (pc_update (\<lambda>_. Try_Cmpxchg l old)) s) }"

definition trylock_cmpxchg :: "nat \<Rightarrow> nat \<Rightarrow> u32 \<Rightarrow> locks \<Rightarrow> locks" where
  "trylock_cmpxchg c l old s =
     (let k = lock s l; (r, res) = cmpxchg (raw k) old (old + push_bit 16 1)
      in upd_cpu c (pc_update (\<lambda>_. if res = old then Lock_Out l else Outside))
           (set_lock l (k\<lparr>raw := r\<rparr>) s))"

definition spin_lock_enter :: "nat \<Rightarrow> nat \<Rightarrow> locks \<Rightarrow> locks option" where
  "spin_lock_enter c l s = do {
     check_irqs_disabled c s;
     let k = lock s l;
     let (r, local) = xchg_op_add (raw k) (mk_tickets 0 1);
     Some (upd_cpu c (pc_update (\<lambda>_. if ticket_head local = ticket_tail local then Lock_Out l
                                      else Spinning l (ticket_tail local)))
            (set_lock l (k\<lparr>raw := r\<rparr>) s)) }"

definition spin_lock_poll :: "nat \<Rightarrow> nat \<Rightarrow> u16 \<Rightarrow> locks \<Rightarrow> locks" where
  "spin_lock_poll c l tail s =
     (if ticket_head (raw (lock s l)) = tail then upd_cpu c (pc_update (\<lambda>_. Lock_Out l)) s else s)"

definition lock_out :: "nat \<Rightarrow> nat \<Rightarrow> locks \<Rightarrow> locks option" where
  "lock_out c l s =
     (if percpu_up s
      then do {
        bug_on (holder (lock s l) \<noteq> 0xFFFF);
        check_irqs_disabled c s;
        Some (upd_cpu c (\<lambda>p. p\<lparr>pc := Outside, lock_list := l # lock_list p, locks_held := locks_held p + 1\<rparr>)
               (set_lock l ((lock s l)\<lparr>holder := of_nat c\<rparr>) s)) }
      else Some (upd_cpu c (pc_update (\<lambda>_. Outside)) s))"

definition spin_unlock_begin :: "nat \<Rightarrow> nat \<Rightarrow> locks \<Rightarrow> locks option" where
  "spin_unlock_begin c l s = do {
     check_irqs_disabled c s;
     if percpu_up s
     then do {
       bug_on (holder (lock s l) = 0xFFFF);
       Some (upd_cpu c (\<lambda>p. p\<lparr>pc := Unlocking l, lock_list := remove1 l (lock_list p), locks_held := locks_held p - 1\<rparr>)
              (set_lock l ((lock s l)\<lparr>holder := 0xFFFF\<rparr>) s)) }
     else Some (upd_cpu c (pc_update (\<lambda>_. Unlocking l)) s) }"

definition spin_unlock_end :: "nat \<Rightarrow> nat \<Rightarrow> locks \<Rightarrow> locks" where
  "spin_unlock_end c l s =
     (let k = lock s l; r = raw k
      in upd_cpu c (pc_update (\<lambda>_. Outside))
           (set_lock l (k\<lparr>raw := mk_tickets (add_op (ticket_head r) 1) (ticket_tail r)\<rparr>) s))"

text \<open>
  The processors \<open>c < N\<close> in any order. A client locks no lock it already has, unlocks only locks it
  has, and enables interrupts only when it has none. \<^term>\<open>None\<close> is a panic.
\<close>

inductive lock_step :: "nat \<Rightarrow> locks \<Rightarrow> locks option \<Rightarrow> bool" for N where
  step_irqdisable: "c < N \<Longrightarrow> pc (cpus s c) = Outside \<Longrightarrow> lock_step N s (Some (irqdisable c s))"
| step_irqenable: "c < N \<Longrightarrow> pc (cpus s c) = Outside \<Longrightarrow> lock_list (cpus s c) = [] \<Longrightarrow> lock_step N s (Some (irqenable c s))"
| step_enter: "c < N \<Longrightarrow> pc (cpus s c) = Outside \<Longrightarrow> \<not> eflags_if (cpus s c) \<Longrightarrow> l \<notin> set (lock_list (cpus s c)) \<Longrightarrow>
    lock_step N s (spin_lock_enter c l s)"
| step_poll: "c < N \<Longrightarrow> pc (cpus s c) = Spinning l t \<Longrightarrow> lock_step N s (Some (spin_lock_poll c l t s))"
| step_try: "c < N \<Longrightarrow> pc (cpus s c) = Outside \<Longrightarrow> \<not> eflags_if (cpus s c) \<Longrightarrow> lock_step N s (trylock_read c l s)"
| step_cmpxchg: "c < N \<Longrightarrow> pc (cpus s c) = Try_Cmpxchg l old \<Longrightarrow> lock_step N s (Some (trylock_cmpxchg c l old s))"
| step_out: "c < N \<Longrightarrow> pc (cpus s c) = Lock_Out l \<Longrightarrow> lock_step N s (lock_out c l s)"
| step_unlock: "c < N \<Longrightarrow> pc (cpus s c) = Outside \<Longrightarrow> l \<in> set (lock_list (cpus s c)) \<Longrightarrow>
    lock_step N s (spin_unlock_begin c l s)"
| step_release: "c < N \<Longrightarrow> pc (cpus s c) = Unlocking l \<Longrightarrow> lock_step N s (Some (spin_unlock_end c l s))"

definition locks_init :: locks where
  "locks_init = \<lparr>lock = (\<lambda>_. SPINLOCK_UNLOCKED),
     cpus = (\<lambda>_. \<lparr>pc = Outside, eflags_if = False, locks_held = 0, lock_list = []\<rparr>), percpu_up = True\<rparr>"

inductive lock_reach :: "nat \<Rightarrow> locks \<Rightarrow> bool" for N where
  reach_init: "lock_reach N locks_init"
| reach_step: "lock_reach N s \<Longrightarrow> lock_step N s (Some s') \<Longrightarrow> lock_reach N s'"

section \<open>Ticket arithmetic\<close>

lemma ticket_mk [simp]: "ticket_head (mk_tickets h t) = h" "ticket_tail (mk_tickets h t) = t"
  unfolding ticket_head_def ticket_tail_def mk_tickets_def
  by (rule bit_word_eqI, simp add: bit_simps, rule bit_word_eqI, auto simp: bit_simps not_le dest: bit_imp_le_length)

lemma unat_head: "unat (ticket_head r) = unat r mod 65536"
  by (simp add: ticket_head_def unat_ucast)

lemma unat_tail: "unat (ticket_tail r) = unat r div 65536"
proof -
  have "unat r div 65536 < 65536" using unat_lt_32 [of r] by (simp add: div_less_iff_less_mult)
  then show ?thesis by (simp add: ticket_tail_def unat_ucast unat_drop_bit)
qed

text \<open>Adding to the upper half cannot disturb the head, and the tail wraps by itself.\<close>

lemma tickets_add:
  shows "ticket_head (r + mk_tickets 0 1) = ticket_head r"
    and "ticket_tail (r + mk_tickets 0 1) = ticket_tail r + 1"
    and "mk_tickets 0 1 = push_bit 16 1"
proof -
  have m: "mk_tickets 0 1 = 65536" by (simp add: mk_tickets_def)
  then show "mk_tickets 0 1 = push_bit 16 1" by simp
  have u: "unat (r + 65536) = (unat r + 65536) mod 4294967296" by (simp add: unat_word_ariths)
  have "(unat r + 65536) mod 4294967296 mod 65536 = unat r mod 65536" by (subst mod_mod_cancel) simp_all
  then show "ticket_head (r + mk_tickets 0 1) = ticket_head r"
    unfolding m by (simp add: word_unat_eq_iff unat_head u)
  have "a mod (b * c) div b = a div b mod c" if "0 < b" for a b c :: nat using that by (simp add: mod_mult2_eq)
  from this [of 65536 "unat r + 65536" 65536]
  have "(unat r + 65536) mod 4294967296 div 65536 = (unat r + 65536) div 65536 mod 65536" by simp
  then show "ticket_tail (r + mk_tickets 0 1) = ticket_tail r + 1"
    unfolding m using div_add1_eq [of "unat r" 65536 65536] by (simp add: word_unat_eq_iff unat_tail u unat_word_ariths)
qed

section \<open>The queue behind a lock\<close>

datatype phase = Away | Waiting u16 | Taken | Held | Leaving

definition cpu_phase :: "nat \<Rightarrow> cpu \<Rightarrow> phase" where
  "cpu_phase l p =
     (if l \<in> set (lock_list p) then Held
      else case pc p of
        Spinning l' t \<Rightarrow> if l' = l then Waiting t else Away
      | Lock_Out l' \<Rightarrow> if l' = l then Taken else Away
      | Unlocking l' \<Rightarrow> if l' = l then Leaving else Away
      | _ \<Rightarrow> Away)"

definition phase :: "locks \<Rightarrow> nat \<Rightarrow> nat \<Rightarrow> phase" where
  "phase s l c = cpu_phase l (cpus s c)"

definition owns :: "phase \<Rightarrow> bool" where
  "owns p = (p = Taken \<or> p = Held \<or> p = Leaving)"

lemma owns_simps [simp]: "owns Taken" "owns Held" "owns Leaving" "\<not> owns Away" "\<not> owns (Waiting t)"
  by (simp_all add: owns_def)

text \<open>
  The processors that want a lock stand in a queue: the tickets handed out are those of the queue,
  in order, and only its first member can own the lock.
\<close>

definition queue_ok :: "nat \<Rightarrow> u32 \<Rightarrow> u32 \<Rightarrow> (nat \<Rightarrow> phase) \<Rightarrow> nat list \<Rightarrow> bool" where
  "queue_ok N r h ph q = (distinct q \<and> set q = {c. ph c \<noteq> Away} \<and> set q \<subseteq> {..<N}
     \<and> ticket_tail r = ticket_head r + of_nat (length q)
     \<and> (\<forall>k<length q. \<forall>t. ph (q ! k) = Waiting t \<longrightarrow> t = ticket_head r + of_nat k)
     \<and> (\<forall>k<length q. owns (ph (q ! k)) \<longrightarrow> k = 0)
     \<and> h = (if q \<noteq> [] \<and> ph (hd q) = Held then of_nat (hd q) else 0xFFFF))"

lemma queue_len:
  assumes "distinct q" and "set q \<subseteq> {..<N}"
  shows "length q \<le> N"
  using card_mono [OF _ assms(2)] distinct_card [OF assms(1)] by simp

lemma of_nat_u16_inj: "i < 65536 \<Longrightarrow> j < 65536 \<Longrightarrow> (of_nat i :: u16) = of_nat j \<longleftrightarrow> i = j"
  by (simp add: word_unat_eq_iff unat_of_nat)

lemma queue_ok_len: "queue_ok N r h ph q \<Longrightarrow> length q \<le> N"
  unfolding queue_ok_def by (elim conjE) (rule queue_len)

lemma queue_free:
  assumes "queue_ok N r h ph q" and "N < 65536"
  shows "ticket_head r = ticket_tail r \<longleftrightarrow> q = []"
proof -
  have "length q < 65536" using queue_ok_len [OF assms(1)] assms(2) by simp
  then have "(of_nat (length q) :: u16) = of_nat 0 \<longleftrightarrow> length q = 0" by (intro of_nat_u16_inj) simp_all
  then show ?thesis using assms(1) by (simp add: queue_ok_def)
qed

lemma queue_first:
  assumes "queue_ok N r h ph q" and "N < 65536" and "k < length q" and "ph (q ! k) = Waiting (ticket_head r)"
  shows "k = 0"
proof -
  have "k < 65536" using queue_ok_len [OF assms(1)] assms(2,3) by simp
  moreover have "ticket_head r = ticket_head r + of_nat k" using assms(1,3,4) unfolding queue_ok_def by blast
  then have "(of_nat k :: u16) = of_nat 0" by simp
  ultimately show ?thesis using of_nat_u16_inj [of k 0] by simp
qed

lemma queue_owner:
  assumes "queue_ok N r h ph q" and "owns (ph c)"
  shows "\<exists>q'. q = c # q'"
proof -
  have "c \<in> set q" using assms by (auto simp: queue_ok_def)
  then obtain k where k: "k < length q" "q ! k = c" by (auto simp: in_set_conv_nth)
  then have "k = 0" using assms unfolding queue_ok_def by blast
  then show ?thesis using k by (cases q) auto
qed

text \<open>How the queue changes when a processor joins it, moves on in it or leaves it.\<close>

lemma queue_join:
  assumes q: "queue_ok N r h ph q" and N: "N < 65536" and c: "c < N" "ph c = Away"
    and p: "p = (if ticket_head r = ticket_tail r then Taken else Waiting (ticket_tail r))"
  shows "queue_ok N (r + mk_tickets 0 1) h (ph(c := p)) (q @ [c])"
proof -
  have cq: "c \<notin> set q" using q c(2) by (auto simp: queue_ok_def)
  then have ne: "q ! k \<noteq> c" if "k < length q" for k using that by (auto simp: in_set_conv_nth)
  have hd: "hd (q @ [c]) = (if q = [] then c else hd q)" by simp
  have pA: "p \<noteq> Away" "p \<noteq> Held" using p by auto
  have pT: "owns p \<longleftrightarrow> q = []" "p = Waiting t \<longrightarrow> q \<noteq> [] \<and> t = ticket_tail r" for t using queue_free [OF q N] p by auto
  have hq: "q \<noteq> [] \<Longrightarrow> hd q \<noteq> c" using cq by auto
  show ?thesis
    unfolding queue_ok_def tickets_add(1,2)
  proof (intro conjI)
    show "\<forall>k<length (q @ [c]). \<forall>t. (ph(c := p)) ((q @ [c]) ! k) = Waiting t \<longrightarrow> t = ticket_head r + of_nat k"
      using q ne pT(2) by (auto simp: queue_ok_def nth_append less_Suc_eq)
    show "\<forall>k<length (q @ [c]). owns ((ph(c := p)) ((q @ [c]) ! k)) \<longrightarrow> k = 0"
      using q ne pT(1) by (auto simp: queue_ok_def nth_append less_Suc_eq)
    show "h = (if q @ [c] \<noteq> [] \<and> (ph(c := p)) (hd (q @ [c])) = Held then of_nat (hd (q @ [c])) else 0xFFFF)"
      using q hq pA by (cases q) (auto simp: queue_ok_def)
  qed (use q cq c(1) pA in \<open>auto simp: queue_ok_def\<close>)
qed

lemma queue_take:
  assumes q: "queue_ok N r h ph q" and N: "N < 65536" and c: "ph c = Waiting (ticket_head r)"
  shows "queue_ok N r h (ph(c := Taken)) q"
proof -
  have "c \<in> set q" using q c by (auto simp: queue_ok_def)
  then obtain k where k: "k < length q" "q ! k = c" by (auto simp: in_set_conv_nth)
  then have "k = 0" using queue_first [OF q N, of k] c by simp
  then obtain q' where q': "q = c # q'" using k by (cases q) auto
  then have ne: "q' ! k \<noteq> c" if "k < length q'" for k using that q by (auto simp: in_set_conv_nth queue_ok_def)
  show ?thesis unfolding queue_ok_def
  proof (intro conjI allI impI)
    fix k t assume "k < length q" "(ph(c := Taken)) (q ! k) = Waiting t"
    then show "t = ticket_head r + of_nat k" using q q' by (auto simp: queue_ok_def split: if_splits)
  next
    fix k assume k: "k < length q" "owns ((ph(c := Taken)) (q ! k))"
    show "k = 0"
    proof (cases k)
      case (Suc j)
      then have "owns (ph (q ! k))" using k ne q' by (auto split: if_splits)
      then show ?thesis using q k(1) unfolding queue_ok_def by blast
    qed
  qed (use q q' c in \<open>auto simp: queue_ok_def\<close>)
qed

lemma queue_owner_moves:
  assumes q: "queue_ok N r h ph (c # q')" and c: "owns (ph c)" and p: "owns p"
  shows "queue_ok N r (if p = Held then of_nat c else 0xFFFF) (ph(c := p)) (c # q')"
proof -
  have ne: "q' ! k \<noteq> c" if "k < length q'" for k using that q by (auto simp: in_set_conv_nth queue_ok_def)
  have upd: "(ph(c := p)) ((c # q') ! k) = (if k = 0 then p else ph ((c # q') ! k))" if "k < length (c # q')" for k
    using that ne by (cases k) auto
  have w: "p \<noteq> Waiting t" "p \<noteq> Away" "ph c \<noteq> Away" for t using p c by (auto simp: owns_def)
  show ?thesis unfolding queue_ok_def
  proof (intro conjI allI impI)
    fix k t assume k: "k < length (c # q')" "(ph(c := p)) ((c # q') ! k) = Waiting t"
    then have "ph ((c # q') ! k) = Waiting t" using upd w by (metis (full_types))
    then show "t = ticket_head r + of_nat k" using q k(1) unfolding queue_ok_def by blast
  next
    fix k assume k: "k < length (c # q')" "owns ((ph(c := p)) ((c # q') ! k))"
    then show "k = 0" using upd q unfolding queue_ok_def by metis
  next
    show "set (c # q') = {d. (ph(c := p)) d \<noteq> Away}" using q w by (auto simp: queue_ok_def)
  qed (use q in \<open>auto simp: queue_ok_def\<close>)
qed

lemma queue_leave:
  assumes q: "queue_ok N r h ph (c # q')" and c: "ph c = Leaving"
  shows "queue_ok N (mk_tickets (ticket_head r + 1) (ticket_tail r)) h (ph(c := Away)) q'"
proof -
  have ne: "q' ! k \<noteq> c" if "k < length q'" for k using that q by (auto simp: in_set_conv_nth queue_ok_def)
  have no: "\<not> owns (ph (q' ! k))" if "k < length q'" for k
    using that q unfolding queue_ok_def by (metis Suc_less_eq length_Cons nat.distinct(1) nth_Cons_Suc)
  have h0: "h = 0xFFFF" using q c by (auto simp: queue_ok_def)
  have hd: "ph (hd q') \<noteq> Held" if "q' \<noteq> []" using no [of 0] that by (auto simp: hd_conv_nth)
  show ?thesis unfolding queue_ok_def ticket_mk
  proof (intro conjI allI impI)
    fix k t assume k: "k < length q'" "(ph(c := Away)) (q' ! k) = Waiting t"
    then have "Suc k < length (c # q')" "ph ((c # q') ! Suc k) = Waiting t" using ne by auto
    then have "t = ticket_head r + of_nat (Suc k)" using q unfolding queue_ok_def by blast
    then show "t = ticket_head r + 1 + of_nat k" by simp
  next
    fix k assume "k < length q'" "owns ((ph(c := Away)) (q' ! k))"
    then show "k = 0" using no ne by auto
  next
    show "h = (if q' \<noteq> [] \<and> (ph(c := Away)) (hd q') = Held then of_nat (hd q') else 0xFFFF)"
      using h0 hd by (auto split: if_splits)
    show "set q' = {d. (ph(c := Away)) d \<noteq> Away}" using q by (auto simp: queue_ok_def)
  qed (use q in \<open>auto simp: queue_ok_def\<close>)
qed

section \<open>The invariant of the whole system\<close>

definition cpu_ok :: "cpu \<Rightarrow> bool" where
  "cpu_ok p = (distinct (lock_list p) \<and> locks_held p = of_nat (length (lock_list p))
     \<and> (\<forall>l. l \<in> set (lock_list p) \<longrightarrow> (\<forall>t. pc p \<noteq> Spinning l t) \<and> pc p \<noteq> Lock_Out l \<and> pc p \<noteq> Unlocking l)
     \<and> (\<forall>l r. pc p = Try_Cmpxchg l r \<longrightarrow> ticket_head r = ticket_tail r)
     \<and> (pc p \<noteq> Outside \<or> lock_list p \<noteq> [] \<longrightarrow> \<not> eflags_if p))"

definition locks_inv :: "nat \<Rightarrow> locks \<Rightarrow> bool" where
  "locks_inv N s = (percpu_up s \<and> (\<forall>c. cpu_ok (cpus s c))
     \<and> (\<forall>l. \<exists>q. queue_ok N (raw (lock s l)) (holder (lock s l)) (phase s l) q))"

lemma locks_invD:
  assumes "locks_inv N s"
  shows "percpu_up s" and "cpu_ok (cpus s c)" and "\<exists>q. queue_ok N (raw (lock s l)) (holder (lock s l)) (phase s l) q"
  using assms by (simp_all add: locks_inv_def)

lemma phase_upd [simp]:
  "phase (upd_cpu c f s) l = (phase s l)(c := cpu_phase l (f (cpus s c)))"
  "phase (set_lock l' k s) l = phase s l"
  by (auto simp: phase_def upd_cpu_def set_lock_def)

lemma upd_sel [simp]:
  "lock (upd_cpu c f s) = lock s" "percpu_up (upd_cpu c f s) = percpu_up s" "percpu_up (set_lock l k s) = percpu_up s"
  "cpus (set_lock l k s) = cpus s" "cpus (upd_cpu c f s) = (cpus s)(c := f (cpus s c))" "lock (set_lock l k s) = (lock s)(l := k)"
  by (simp_all add: upd_cpu_def set_lock_def)

lemma locks_inv_upd:
  assumes inv: "locks_inv N s" and c: "cpu_ok (f (cpus s c))"
    and other: "\<forall>l'. l' \<noteq> l \<longrightarrow> cpu_phase l' (f (cpus s c)) = cpu_phase l' (cpus s c)"
    and q: "queue_ok N (raw k) (holder k) ((phase s l)(c := cpu_phase l (f (cpus s c)))) q"
  shows "locks_inv N (upd_cpu c f (set_lock l k s))"
  unfolding locks_inv_def
proof (intro conjI allI)
  show "percpu_up (upd_cpu c f (set_lock l k s))" using locks_invD(1) [OF inv] by simp
  show "cpu_ok (cpus (upd_cpu c f (set_lock l k s)) d)" for d using locks_invD(2) [OF inv] c by simp
  fix m
  show "\<exists>q. queue_ok N (raw (lock (upd_cpu c f (set_lock l k s)) m)) (holder (lock (upd_cpu c f (set_lock l k s)) m))
          (phase (upd_cpu c f (set_lock l k s)) m) q"
  proof (cases "m = l")
    case True
    then show ?thesis using q by (intro exI [of _ q]) simp
  next
    case False
    then have "(phase s m)(c := cpu_phase m (f (cpus s c))) = phase s m" using other by (auto simp: phase_def)
    then show ?thesis using False locks_invD(3) [OF inv, of m] by simp
  qed
qed

lemma set_lock_same [simp]: "set_lock l (lock s l) s = s"
  by (simp add: set_lock_def)

lemma locks_inv_cpu:
  assumes inv: "locks_inv N s" and c: "cpu_ok (f (cpus s c))"
    and other: "\<forall>l'. cpu_phase l' (f (cpus s c)) = cpu_phase l' (cpus s c)"
  shows "locks_inv N (upd_cpu c f s)"
proof -
  obtain q where "queue_ok N (raw (lock s 0)) (holder (lock s 0)) (phase s 0) q" using locks_invD(3) [OF inv] by blast
  moreover have "phase s 0 = (phase s 0)(c := cpu_phase 0 (f (cpus s c)))" using other by (auto simp: phase_def)
  ultimately have "locks_inv N (upd_cpu c f (set_lock 0 (lock s 0) s))"
    by (intro locks_inv_upd [where f = f and c = c, OF inv c]) (use other in auto)
  then show ?thesis by simp
qed

text \<open>The routines one by one.\<close>

lemma enter_ok:
  assumes inv: "locks_inv N s" and N: "N < 65536" and c: "c < N" "pc (cpus s c) = Outside" "\<not> eflags_if (cpus s c)"
    and l: "l \<notin> set (lock_list (cpus s c))"
  shows "\<exists>s'. spin_lock_enter c l s = Some s' \<and> locks_inv N s'"
proof -
  obtain q where q: "queue_ok N (raw (lock s l)) (holder (lock s l)) (phase s l) q" using locks_invD(3) [OF inv] by blast
  have aw: "phase s l c = Away" using c l by (simp add: phase_def cpu_phase_def)
  note ok = locks_invD(2) [OF inv, of c]
  show ?thesis unfolding spin_lock_enter_def check_irqs_disabled_def are_interrupts_enabled_def xchg_op_add_def Let_def
    using c(3) queue_join [OF q N c(1) aw refl] l c(2) ok
    by (auto intro!: locks_inv_upd [OF inv] simp: cpu_ok_def cpu_phase_def split: if_splits)
qed

lemma poll_ok:
  assumes inv: "locks_inv N s" and N: "N < 65536" and c: "pc (cpus s c) = Spinning l t"
  shows "locks_inv N (spin_lock_poll c l t s)"
proof (cases "ticket_head (raw (lock s l)) = t")
  case True
  obtain q where q: "queue_ok N (raw (lock s l)) (holder (lock s l)) (phase s l) q" using locks_invD(3) [OF inv] by blast
  note ok = locks_invD(2) [OF inv, of c]
  have w: "phase s l c = Waiting (ticket_head (raw (lock s l)))" using c ok True by (auto simp: phase_def cpu_phase_def cpu_ok_def)
  have "locks_inv N (upd_cpu c (pc_update (\<lambda>_. Lock_Out l)) (set_lock l (lock s l) s))"
  proof (rule locks_inv_upd [OF inv])
    show "queue_ok N (raw (lock s l)) (holder (lock s l)) ((phase s l)(c := cpu_phase l (pc_update (\<lambda>_. Lock_Out l) (cpus s c)))) q"
      using queue_take [OF q N w] ok c by (auto simp: cpu_phase_def cpu_ok_def)
  qed (use ok c in \<open>auto simp: cpu_ok_def cpu_phase_def\<close>)
  then show ?thesis using True by (simp add: spin_lock_poll_def)
qed (simp add: spin_lock_poll_def inv)

lemma try_ok:
  assumes inv: "locks_inv N s" and c: "pc (cpus s c) = Outside" "\<not> eflags_if (cpus s c)"
  shows "\<exists>s'. trylock_read c l s = Some s' \<and> locks_inv N s'"
proof -
  note ok = locks_invD(2) [OF inv, of c]
  have "locks_inv N (upd_cpu c (pc_update (\<lambda>_. Try_Cmpxchg l r)) s)" if "ticket_head r = ticket_tail r" for r
    using that ok c by (intro locks_inv_cpu [OF inv]) (auto simp: cpu_ok_def cpu_phase_def)
  then show ?thesis using c inv by (auto simp: trylock_read_def check_irqs_disabled_def are_interrupts_enabled_def Let_def)
qed

lemma cmpxchg_ok:
  assumes inv: "locks_inv N s" and N: "N < 65536" and c: "c < N" "pc (cpus s c) = Try_Cmpxchg l old"
  shows "locks_inv N (trylock_cmpxchg c l old s)"
proof (cases "raw (lock s l) = old")
  case True
  obtain q where q: "queue_ok N (raw (lock s l)) (holder (lock s l)) (phase s l) q" using locks_invD(3) [OF inv] by blast
  note ok = locks_invD(2) [OF inv, of c]
  have h: "ticket_head (raw (lock s l)) = ticket_tail (raw (lock s l))" using ok c True by (auto simp: cpu_ok_def)
  then have "q = []" using queue_free [OF q N] by simp
  then have "phase s l c = Away" using q by (auto simp: queue_ok_def)
  note j = queue_join [OF q N c(1) this refl]
  have nl: "l \<notin> set (lock_list (cpus s c))" using \<open>phase s l c = Away\<close> by (auto simp: phase_def cpu_phase_def split: if_splits)
  have "locks_inv N (upd_cpu c (pc_update (\<lambda>_. Lock_Out l)) (set_lock l ((lock s l)\<lparr>raw := raw (lock s l) + mk_tickets 0 1\<rparr>) s))"
    by (rule locks_inv_upd [OF inv]) (use ok c nl j h in \<open>auto simp: cpu_ok_def cpu_phase_def\<close>)
  then show ?thesis using True by (simp add: trylock_cmpxchg_def cmpxchg_def tickets_add(3))
next
  case False
  note ok = locks_invD(2) [OF inv, of c]
  have "locks_inv N (upd_cpu c (pc_update (\<lambda>_. Outside)) s)"
    using ok c by (intro locks_inv_cpu [OF inv]) (auto simp: cpu_ok_def cpu_phase_def)
  then show ?thesis using False by (simp add: trylock_cmpxchg_def cmpxchg_def)
qed

lemma out_ok:
  assumes inv: "locks_inv N s" and N: "N < 65536" and c: "pc (cpus s c) = Lock_Out l"
  shows "\<exists>s'. lock_out c l s = Some s' \<and> locks_inv N s'"
proof -
  let ?f = "\<lambda>p. p\<lparr>pc := Outside, lock_list := l # lock_list p, locks_held := locks_held p + 1\<rparr>"
  obtain q where q: "queue_ok N (raw (lock s l)) (holder (lock s l)) (phase s l) q" using locks_invD(3) [OF inv] by blast
  note ok = locks_invD(2) [OF inv, of c]
  have t: "phase s l c = Taken" using ok c by (auto simp: phase_def cpu_phase_def cpu_ok_def)
  then obtain q' where q': "q = c # q'" using queue_owner [OF q, of c] by auto
  then have h: "holder (lock s l) = 0xFFFF" using q t by (simp add: queue_ok_def)
  have "queue_ok N (raw (lock s l)) (of_nat c) ((phase s l)(c := Held)) (c # q')"
    using queue_owner_moves [of N "raw (lock s l)" "holder (lock s l)" "phase s l" c q' Held] q q' t by simp
  then have "locks_inv N (upd_cpu c ?f (set_lock l ((lock s l)\<lparr>holder := of_nat c\<rparr>) s))"
    by (intro locks_inv_upd [OF inv]) (use ok c in \<open>auto simp: cpu_ok_def cpu_phase_def\<close>)
  moreover have "\<not> eflags_if (cpus s c)" using ok c by (simp add: cpu_ok_def)
  ultimately show ?thesis using h locks_invD(1) [OF inv]
    by (simp add: lock_out_def check_irqs_disabled_def are_interrupts_enabled_def)
qed

lemma unlock_ok:
  assumes inv: "locks_inv N s" and N: "N < 65536" and c: "pc (cpus s c) = Outside" "l \<in> set (lock_list (cpus s c))"
  shows "\<exists>s'. spin_unlock_begin c l s = Some s' \<and> locks_inv N s'"
proof -
  let ?f = "\<lambda>p. p\<lparr>pc := Unlocking l, lock_list := remove1 l (lock_list p), locks_held := locks_held p - 1\<rparr>"
  obtain q where q: "queue_ok N (raw (lock s l)) (holder (lock s l)) (phase s l) q" using locks_invD(3) [OF inv] by blast
  note ok = locks_invD(2) [OF inv, of c]
  have t: "phase s l c = Held" using c by (simp add: phase_def cpu_phase_def)
  then obtain q' where q': "q = c # q'" using queue_owner [OF q, of c] by auto
  then have h: "holder (lock s l) = of_nat c" "c < N" using q t by (auto simp: queue_ok_def)
  have nf: "(of_nat c :: u32) \<noteq> 0xFFFF" using h(2) N by (simp add: word_unat_eq_iff unat_of_nat)
  have "queue_ok N (raw (lock s l)) 0xFFFF ((phase s l)(c := Leaving)) (c # q')"
    using queue_owner_moves [of N "raw (lock s l)" "holder (lock s l)" "phase s l" c q' Leaving] q q' t by simp
  moreover have "length (lock_list (cpus s c)) > 0" using c(2) by auto
  ultimately have "locks_inv N (upd_cpu c ?f (set_lock l ((lock s l)\<lparr>holder := 0xFFFF\<rparr>) s))"
    using ok c by (intro locks_inv_upd [OF inv]) (auto simp: cpu_ok_def cpu_phase_def length_remove1 of_nat_diff Suc_le_eq)
  moreover have "\<not> eflags_if (cpus s c)" using ok c by (auto simp: cpu_ok_def)
  ultimately show ?thesis using h nf N locks_invD(1) [OF inv]
    by (simp add: spin_unlock_begin_def check_irqs_disabled_def are_interrupts_enabled_def)
qed

lemma release_ok:
  assumes inv: "locks_inv N s" and c: "pc (cpus s c) = Unlocking l"
  shows "locks_inv N (spin_unlock_end c l s)"
proof -
  obtain q where q: "queue_ok N (raw (lock s l)) (holder (lock s l)) (phase s l) q" using locks_invD(3) [OF inv] by blast
  note ok = locks_invD(2) [OF inv, of c]
  have t: "phase s l c = Leaving" using ok c by (auto simp: phase_def cpu_phase_def cpu_ok_def)
  then obtain q' where q': "q = c # q'" using queue_owner [OF q, of c] by auto
  show ?thesis unfolding spin_unlock_end_def Let_def add_op_def
    by (rule locks_inv_upd [OF inv])
      (use queue_leave [OF q [unfolded q'] t] ok c in \<open>auto simp: cpu_ok_def cpu_phase_def\<close>)
qed

lemma lock_step_ok:
  assumes "lock_step N s r" and "locks_inv N s" and "N < 65536"
  shows "\<exists>s'. r = Some s' \<and> locks_inv N s'"
  using assms(1)
proof cases
  case (step_irqdisable c)
  have "locks_inv N (irqdisable c s)" unfolding irqdisable_def
    by (rule locks_inv_cpu [OF assms(2)]) (use locks_invD(2) [OF assms(2), of c] step_irqdisable in \<open>auto simp: cpu_ok_def cpu_phase_def\<close>)
  then show ?thesis using step_irqdisable by simp
next
  case (step_irqenable c)
  have "locks_inv N (irqenable c s)" unfolding irqenable_def
    by (rule locks_inv_cpu [OF assms(2)]) (use locks_invD(2) [OF assms(2), of c] step_irqenable in \<open>auto simp: cpu_ok_def cpu_phase_def\<close>)
  then show ?thesis using step_irqenable by simp
next
  case step_enter then show ?thesis using enter_ok [OF assms(2,3)] by simp
next
  case step_poll then show ?thesis using poll_ok [OF assms(2,3)] by simp
next
  case step_try then show ?thesis using try_ok [OF assms(2)] by simp
next
  case step_cmpxchg then show ?thesis using cmpxchg_ok [OF assms(2,3)] by simp
next
  case step_out then show ?thesis using out_ok [OF assms(2,3)] by simp
next
  case step_unlock then show ?thesis using unlock_ok [OF assms(2,3)] by simp
next
  case step_release then show ?thesis using release_ok [OF assms(2)] by simp
qed

lemma locks_init_ok: "locks_inv N locks_init"
proof -
  have "phase locks_init l = (\<lambda>_. Away)" for l by (simp add: fun_eq_iff phase_def cpu_phase_def locks_init_def)
  moreover have "queue_ok N (mk_tickets 0 0) 0xFFFF (\<lambda>_. Away) []" by (simp add: queue_ok_def)
  ultimately have "queue_ok N (raw (lock locks_init l)) (holder (lock locks_init l)) (phase locks_init l) []" for l
    by (simp add: locks_init_def SPINLOCK_UNLOCKED_def)
  then show ?thesis unfolding locks_inv_def by (auto simp: cpu_ok_def locks_init_def)
qed

lemma lock_reach_inv: "lock_reach N s \<Longrightarrow> N < 65536 \<Longrightarrow> locks_inv N s"
proof (induction rule: lock_reach.induct)
  case reach_init
  show ?case by (rule locks_init_ok)
next
  case (reach_step s s')
  then show ?case using lock_step_ok [of N s "Some s'"] by auto
qed

section \<open>Mutual exclusion\<close>

text \<open>
  C9. Ticket locks exclude. However the processors (fewer than 65536) interleave their accesses,
  no check of the lock routines fires, a lock is in the list of at most one processor, and then the
  recorded holder is that processor; each processor's count of held locks is the length of its list.
\<close>

theorem spinlock_mutual_exclusion:
  assumes "lock_reach N s" and "N < 65536"
  shows "\<not> lock_step N s None
    \<and> (\<forall>l c d. l \<in> set (lock_list (cpus s c)) \<and> l \<in> set (lock_list (cpus s d)) \<longrightarrow> c = d)
    \<and> (\<forall>l c. l \<in> set (lock_list (cpus s c)) \<longrightarrow> holder (lock s l) = of_nat c)
    \<and> (\<forall>c. locks_held (cpus s c) = of_nat (length (lock_list (cpus s c))))"
proof (intro conjI allI impI)
  note inv = lock_reach_inv [OF assms]
  show "\<not> lock_step N s None" using lock_step_ok [OF _ inv assms(2)] by blast
  fix l c
  obtain q where q: "queue_ok N (raw (lock s l)) (holder (lock s l)) (phase s l) q" using locks_invD(3) [OF inv] by blast
  have own: "\<exists>q'. q = c # q'" "phase s l c = Held" if "l \<in> set (lock_list (cpus s c))" for c
    using queue_owner [OF q, of c] that by (simp_all add: phase_def cpu_phase_def)
  show "c = d" if "l \<in> set (lock_list (cpus s c)) \<and> l \<in> set (lock_list (cpus s d))" for d
    using own(1) [of c] own(1) [of d] that by auto
  show "holder (lock s l) = of_nat c" if "l \<in> set (lock_list (cpus s c))"
    using own [OF that] q by (auto simp: queue_ok_def)
  show "locks_held (cpus s c) = of_nat (length (lock_list (cpus s c)))"
    using locks_invD(2) [OF inv, of c] by (simp add: cpu_ok_def)
qed

text \<open>Two processors contend for lock 0; the second spins until the first has released it.\<close>

definition demo_cpu :: "pc \<Rightarrow> nat list \<Rightarrow> cpu" where
  "demo_cpu p ls = \<lparr>pc = p, eflags_if = False, locks_held = of_nat (length ls), lock_list = ls\<rparr>"

definition demo_state :: "u16 \<Rightarrow> u16 \<Rightarrow> u32 \<Rightarrow> cpu \<Rightarrow> cpu \<Rightarrow> locks" where
  "demo_state h t k a b = \<lparr>lock = (\<lambda>_. SPINLOCK_UNLOCKED)(0 := \<lparr>raw = mk_tickets h t, holder = k\<rparr>),
     cpus = (\<lambda>_. demo_cpu Outside [])(0 := a, 1 := b), percpu_up = True\<rparr>"

lemma demo_upd:
  "upd_cpu 0 f (demo_state h t k a b) = demo_state h t k (f a) b"
  "upd_cpu 1 f (demo_state h t k a b) = demo_state h t k a (f b)"
  "upd_cpu (Suc 0) f (demo_state h t k a b) = demo_state h t k a (f b)"
  "set_lock 0 \<lparr>raw = mk_tickets h' t', holder = k'\<rparr> (demo_state h t k a b) = demo_state h' t' k' a b"
  "lock (demo_state h t k a b) 0 = \<lparr>raw = mk_tickets h t, holder = k\<rparr>"
  "cpus (demo_state h t k a b) 0 = a" "cpus (demo_state h t k a b) 1 = b" "cpus (demo_state h t k a b) (Suc 0) = b"
  "percpu_up (demo_state h t k a b)"
  by (auto simp: demo_state_def upd_cpu_def set_lock_def fun_eq_iff)

lemma mk_tickets_add: "mk_tickets h t + mk_tickets 0 1 = mk_tickets h (t + 1)"
proof -
  have "mk_tickets (ticket_head r) (ticket_tail r) = r" for r
    unfolding ticket_head_def ticket_tail_def mk_tickets_def
    by (rule bit_word_eqI) (auto simp: bit_simps not_less le_less_trans)
  then show ?thesis by (metis tickets_add(1,2) ticket_mk)
qed

lemmas demo_eval = demo_upd mk_tickets_add spin_lock_enter_def lock_out_def spin_unlock_begin_def spin_unlock_end_def
  spin_lock_poll_def check_irqs_disabled_def are_interrupts_enabled_def xchg_op_add_def add_op_def demo_cpu_def Let_def

definition demo_run :: "nat \<Rightarrow> locks" where
  "demo_run i = [
     demo_state 0 0 0xFFFF (demo_cpu Outside []) (demo_cpu Outside []),
     demo_state 0 1 0xFFFF (demo_cpu (Lock_Out 0) []) (demo_cpu Outside []),
     demo_state 0 2 0xFFFF (demo_cpu (Lock_Out 0) []) (demo_cpu (Spinning 0 1) []),
     demo_state 0 2 0 (demo_cpu Outside [0]) (demo_cpu (Spinning 0 1) []),
     demo_state 0 2 0xFFFF (demo_cpu (Unlocking 0) []) (demo_cpu (Spinning 0 1) []),
     demo_state 1 2 0xFFFF (demo_cpu Outside []) (demo_cpu (Spinning 0 1) []),
     demo_state 1 2 0xFFFF (demo_cpu Outside []) (demo_cpu (Lock_Out 0) []),
     demo_state 1 2 1 (demo_cpu Outside []) (demo_cpu Outside [0]),
     demo_state 1 2 0xFFFF (demo_cpu Outside []) (demo_cpu (Unlocking 0) []),
     demo_state 2 2 0xFFFF (demo_cpu Outside []) (demo_cpu Outside [])] ! min i 9"

lemma demo_init: "demo_run 0 = locks_init"
  by (auto simp: demo_run_def demo_state_def demo_cpu_def locks_init_def SPINLOCK_UNLOCKED_def fun_eq_iff)

lemma demo_step: "lock_step 2 (demo_run i) (Some (demo_run (Suc i))) \<or> demo_run (Suc i) = demo_run i"
proof -
  let ?a = "demo_run i"
  consider "i = 0" | "i = 1" | "i = 2" | "i = 3" | "i = 4" | "i = 5" | "i = 6" | "i = 7" | "i = 8" | "9 \<le> i" by linarith
  then show ?thesis
  proof cases
    case 1
    then show ?thesis using step_enter [of 0 2 ?a 0] by (simp add: demo_run_def demo_eval)
  next
    case 2
    then show ?thesis using step_enter [of 1 2 ?a 0] by (simp add: demo_run_def demo_eval)
  next
    case 3
    then show ?thesis using step_out [of 0 2 ?a 0] by (simp add: demo_run_def demo_eval)
  next
    case 4
    then show ?thesis using step_unlock [of 0 2 ?a 0] by (simp add: demo_run_def demo_eval)
  next
    case 5
    then show ?thesis using step_release [of 0 2 ?a 0] by (simp add: demo_run_def demo_eval)
  next
    case 6
    then show ?thesis using step_poll [of 1 2 ?a 0 1] by (simp add: demo_run_def demo_eval)
  next
    case 7
    then show ?thesis using step_out [of 1 2 ?a 0] by (simp add: demo_run_def demo_eval)
  next
    case 8
    then show ?thesis using step_unlock [of 1 2 ?a 0] by (simp add: demo_run_def demo_eval)
  next
    case 9
    then show ?thesis using step_release [of 1 2 ?a 0] by (simp add: demo_run_def demo_eval)
  next
    case 10
    then show ?thesis by (simp add: demo_run_def)
  qed
qed

lemma demo_reach: "lock_reach 2 (demo_run i)"
proof (induction i)
  case 0 then show ?case using reach_init by (simp add: demo_init)
next
  case (Suc i) then show ?case using demo_step [of i] reach_step by auto
qed

lemma demo_rest: "9 \<le> i \<Longrightarrow> cpus (demo_run i) c = demo_cpu Outside []"
  by (simp add: demo_run_def demo_state_def)

theorem spinlock_mutual_exclusion_witness:
  "0 \<in> set (lock_list (cpus (demo_run 3) 0)) \<and> holder (lock (demo_run 3) 0) = of_nat 0 \<and> \<not> lock_step 2 (demo_run 3) None"
proof -
  have "0 \<in> set (lock_list (cpus (demo_run 3) 0))" by (simp add: demo_run_def demo_state_def demo_cpu_def)
  moreover have "(2::nat) < 65536" by simp
  ultimately show ?thesis using spinlock_mutual_exclusion [OF demo_reach [of 3]] by blast
qed

section \<open>Order and progress\<close>

text \<open>What one step does to the queue of a lock.\<close>

inductive lock_move :: "u32 \<Rightarrow> (nat \<Rightarrow> phase) \<Rightarrow> u32 \<Rightarrow> (nat \<Rightarrow> phase) \<Rightarrow> bool" where
  move_none: "ticket_head r' = ticket_head r \<Longrightarrow> lock_move r ph r' ph"
| move_join: "ticket_head r' = ticket_head r \<Longrightarrow> ph c = Away \<Longrightarrow> lock_move r ph r' (ph(c := p))"
| move_take: "ph c = Waiting (ticket_head r) \<Longrightarrow> lock_move r ph r (ph(c := Taken))"
| move_hold: "ph c = Taken \<Longrightarrow> lock_move r ph r (ph(c := Held))"
| move_drop: "ph c = Held \<Longrightarrow> lock_move r ph r (ph(c := Leaving))"
| move_leave: "ph c = Leaving \<Longrightarrow> ticket_head r' = ticket_head r + 1 \<Longrightarrow> lock_move r ph r' (ph(c := Away))"

definition moves :: "locks \<Rightarrow> locks \<Rightarrow> nat \<Rightarrow> bool" where
  "moves s s' l = lock_move (raw (lock s l)) (phase s l) (raw (lock s' l)) (phase s' l)"

lemma moves_refl: "moves s s l"
  by (simp add: moves_def move_none)

lemma moves_cpu:
  assumes "\<And>p. p = cpus s c \<Longrightarrow> cpu_phase l (f p) = cpu_phase l p"
  shows "moves s (upd_cpu c f s) l"
proof -
  have "(phase s l)(c := cpu_phase l (f (cpus s c))) = phase s l" using assms by (auto simp: phase_def)
  then show ?thesis by (simp add: moves_def move_none)
qed

lemma moves_upd:
  assumes "m \<noteq> l \<Longrightarrow> cpu_phase l (f (cpus s c)) = cpu_phase l (cpus s c)"
    and "m = l \<Longrightarrow> lock_move (raw (lock s l)) (phase s l) (raw k) ((phase s l)(c := cpu_phase l (f (cpus s c))))"
  shows "moves s (upd_cpu c f (set_lock m k s)) l"
proof (cases "m = l")
  case True
  then show ?thesis using assms(2) by (simp add: moves_def)
next
  case False
  then have "(phase s l)(c := cpu_phase l (f (cpus s c))) = phase s l" using assms(1) by (auto simp: phase_def)
  then show ?thesis using False by (simp add: moves_def move_none)
qed

lemma enter_moves:
  assumes "pc (cpus s c) = Outside" and "m \<notin> set (lock_list (cpus s c))" and "spin_lock_enter c m s = Some s'"
  shows "moves s s' l"
proof -
  let ?r = "raw (lock s m)"
  have s': "s' = upd_cpu c (pc_update (\<lambda>_. if ticket_head ?r = ticket_tail ?r then Lock_Out m else Spinning m (ticket_tail ?r)))
      (set_lock m ((lock s m)\<lparr>raw := ?r + mk_tickets 0 1\<rparr>) s)"
    using assms(3) by (simp add: spin_lock_enter_def check_irqs_disabled_def xchg_op_add_def Let_def split: if_splits)
  show ?thesis unfolding s'
  proof (rule moves_upd, goal_cases)
    case 1 then show ?case using assms(1) by (auto simp: cpu_phase_def)
  next
    case 2
    then have "phase s l c = Away" using assms(1,2) by (simp add: phase_def cpu_phase_def)
    then show ?case by (intro move_join) (simp_all add: 2 tickets_add(1))
  qed
qed

lemma poll_moves:
  assumes "cpu_ok (cpus s c)" and "pc (cpus s c) = Spinning m t"
  shows "moves s (spin_lock_poll c m t s) l"
proof (cases "ticket_head (raw (lock s m)) = t")
  case True
  have "moves s (upd_cpu c (pc_update (\<lambda>_. Lock_Out m)) (set_lock m (lock s m) s)) l"
    using move_take [of "phase s l" c "raw (lock s l)"] assms True
    by (intro moves_upd) (auto simp: cpu_phase_def cpu_ok_def phase_def)
  then show ?thesis using True by (simp add: spin_lock_poll_def)
qed (simp add: spin_lock_poll_def moves_refl)

lemma cmpxchg_moves:
  assumes "cpu_ok (cpus s c)" and "pc (cpus s c) = Try_Cmpxchg m old"
  shows "moves s (trylock_cmpxchg c m old s) l"
proof (cases "raw (lock s m) = old")
  case True
  have "moves s (upd_cpu c (pc_update (\<lambda>_. Lock_Out m)) (set_lock m ((lock s m)\<lparr>raw := raw (lock s m) + mk_tickets 0 1\<rparr>) s)) l"
  proof (rule moves_upd, goal_cases)
    case 1 then show ?case using assms(2) by (auto simp: cpu_phase_def)
  next
    case 2
    show ?case
    proof (cases "m \<in> set (lock_list (cpus s c))")
      case True
      then have "(phase s l)(c := cpu_phase l (pc_update (\<lambda>_. Lock_Out m) (cpus s c))) = phase s l"
        using 2 by (auto simp: phase_def cpu_phase_def)
      then show ?thesis using 2 move_none [of "raw (lock s l) + mk_tickets 0 1"] by (simp add: tickets_add(1))
    next
      case False
      then have "phase s l c = Away" using 2 assms(2) by (simp add: phase_def cpu_phase_def)
      then show ?thesis by (intro move_join) (simp_all add: 2 tickets_add(1))
    qed
  qed
  then show ?thesis using True by (simp add: trylock_cmpxchg_def cmpxchg_def tickets_add(3))
next
  case False
  have "moves s (upd_cpu c (pc_update (\<lambda>_. Outside)) s) l" by (rule moves_cpu) (simp add: cpu_phase_def assms(2))
  then show ?thesis using False by (simp add: trylock_cmpxchg_def cmpxchg_def)
qed

lemma out_moves:
  assumes "cpu_ok (cpus s c)" and "percpu_up s" and "pc (cpus s c) = Lock_Out m" and "lock_out c m s = Some s'"
  shows "moves s s' l"
proof -
  have s': "s' = upd_cpu c (\<lambda>p. p\<lparr>pc := Outside, lock_list := m # lock_list p, locks_held := locks_held p + 1\<rparr>)
      (set_lock m ((lock s m)\<lparr>holder := of_nat c\<rparr>) s)"
    using assms(2,4) by (simp add: lock_out_def check_irqs_disabled_def split: if_splits)
  have "phase s m c = Taken" using assms(1,3) by (auto simp: cpu_phase_def cpu_ok_def phase_def)
  then show ?thesis unfolding s' using move_hold [of "phase s l" c "raw (lock s l)"] assms(3)
    by (intro moves_upd) (auto simp: cpu_phase_def)
qed

lemma unlock_moves:
  assumes "cpu_ok (cpus s c)" and "percpu_up s" and "pc (cpus s c) = Outside" and "m \<in> set (lock_list (cpus s c))"
    and "spin_unlock_begin c m s = Some s'"
  shows "moves s s' l"
proof -
  have s': "s' = upd_cpu c (\<lambda>p. p\<lparr>pc := Unlocking m, lock_list := remove1 m (lock_list p), locks_held := locks_held p - 1\<rparr>)
      (set_lock m ((lock s m)\<lparr>holder := 0xFFFF\<rparr>) s)"
    using assms(2,5) by (simp add: spin_unlock_begin_def check_irqs_disabled_def split: if_splits)
  show ?thesis unfolding s' using move_drop [of "phase s l" c "raw (lock s l)"] assms(1,3,4)
    by (intro moves_upd) (auto simp: cpu_phase_def cpu_ok_def phase_def)
qed

lemma release_moves:
  assumes "cpu_ok (cpus s c)" and "pc (cpus s c) = Unlocking m"
  shows "moves s (spin_unlock_end c m s) l"
  unfolding spin_unlock_end_def Let_def add_op_def
  using move_leave [of "phase s l" c "mk_tickets (ticket_head (raw (lock s l)) + 1) (ticket_tail (raw (lock s l)))" "raw (lock s l)"] assms
  by (intro moves_upd) (auto simp: cpu_phase_def cpu_ok_def phase_def)

lemma lock_step_moves:
  assumes "lock_step N s (Some s')" and inv: "locks_inv N s"
  shows "moves s s' l"
  using assms(1)
proof cases
  case (step_irqdisable c)
  then show ?thesis unfolding step_irqdisable(1) irqdisable_def by (intro moves_cpu) (simp add: cpu_phase_def)
next
  case (step_irqenable c)
  then show ?thesis unfolding step_irqenable(1) irqenable_def by (intro moves_cpu) (simp add: cpu_phase_def)
next
  case step_enter then show ?thesis using enter_moves [of s] by simp
next
  case step_poll then show ?thesis using poll_moves [OF locks_invD(2) [OF inv]] by simp
next
  case (step_try c m)
  have "moves s (upd_cpu c (pc_update (\<lambda>_. Try_Cmpxchg m r)) s) l" for r
    by (rule moves_cpu) (use step_try in \<open>simp add: cpu_phase_def\<close>)
  then show ?thesis using step_try
    by (simp add: trylock_read_def check_irqs_disabled_def are_interrupts_enabled_def Let_def moves_refl split: if_splits)
next
  case step_cmpxchg then show ?thesis using cmpxchg_moves [OF locks_invD(2) [OF inv]] by simp
next
  case step_out then show ?thesis using out_moves [OF locks_invD(2,1) [OF inv]] by simp
next
  case step_unlock then show ?thesis using unlock_moves [OF locks_invD(2,1) [OF inv]] by simp
next
  case step_release then show ?thesis using release_moves [OF locks_invD(2) [OF inv]] by simp
qed

text \<open>An infinite run; a step may be one that leaves the lock system alone.\<close>

definition lock_run :: "nat \<Rightarrow> (nat \<Rightarrow> locks) \<Rightarrow> bool" where
  "lock_run N \<sigma> = (\<sigma> 0 = locks_init \<and> (\<forall>i. lock_step N (\<sigma> i) (Some (\<sigma> (Suc i))) \<or> \<sigma> (Suc i) = \<sigma> i))"

lemma lock_run_inv:
  assumes "lock_run N \<sigma>" and "N < 65536"
  shows "locks_inv N (\<sigma> i)"
proof (induction i)
  case 0 then show ?case using assms locks_init_ok by (simp add: lock_run_def)
next
  case (Suc i)
  have "lock_step N (\<sigma> i) (Some (\<sigma> (Suc i))) \<or> \<sigma> (Suc i) = \<sigma> i" using assms(1) unfolding lock_run_def by blast
  then show ?case using lock_step_ok [of N "\<sigma> i" "Some (\<sigma> (Suc i))"] Suc assms(2) by auto
qed

lemma lock_run_moves:
  assumes "lock_run N \<sigma>" and "N < 65536"
  shows "moves (\<sigma> i) (\<sigma> (Suc i)) l"
proof -
  have "lock_step N (\<sigma> i) (Some (\<sigma> (Suc i))) \<or> \<sigma> (Suc i) = \<sigma> i" using assms(1) unfolding lock_run_def by blast
  then show ?thesis using lock_step_moves [OF _ lock_run_inv [OF assms]] moves_refl by auto
qed

definition head_of :: "locks \<Rightarrow> nat \<Rightarrow> u16" where
  "head_of s l = ticket_head (raw (lock s l))"

text \<open>A waiting processor keeps its ticket until its turn has come.\<close>

lemma waiting_step:
  assumes "moves s s' l" and "phase s l c = Waiting t"
  shows "phase s' l c = Waiting t \<and> (head_of s' l = head_of s l \<or> head_of s' l = head_of s l + 1 \<and> (\<exists>x. phase s l x = Leaving))
    \<or> phase s' l c = Taken \<and> head_of s l = t"
  using assms(1) unfolding moves_def head_of_def
  by cases (use assms(2) in auto)

lemma owner_step:
  assumes "moves s s' l" and "owns (phase s l c)"
  shows "owns (phase s' l c) \<or> head_of s' l = head_of s l + 1"
  using assms(1) unfolding moves_def head_of_def
  by cases (use assms(2) in auto)

lemma owner_releases:
  assumes run: "lock_run N \<sigma>" "N < 65536" and o: "owns (phase (\<sigma> i) l c)" and "i \<le> j" and "\<not> owns (phase (\<sigma> j) l c)"
  shows "\<exists>k\<ge>i. owns (phase (\<sigma> k) l c) \<and> head_of (\<sigma> (Suc k)) l = head_of (\<sigma> k) l + 1"
  using assms(4,5)
proof (induction rule: dec_induct)
  case base then show ?case using o by simp
next
  case (step k)
  then show ?case using owner_step [OF lock_run_moves [OF run, of k l], of c] by auto
qed

text \<open>The number of processors in front of a waiting one.\<close>

definition ahead :: "locks \<Rightarrow> nat \<Rightarrow> u16 \<Rightarrow> nat" where
  "ahead s l t = unat (t - head_of s l)"

lemma ahead_step:
  assumes "head_of s l \<noteq> t" and "head_of s' l = head_of s l + 1"
  shows "ahead s' l t < ahead s l t"
proof -
  have "t - head_of s l \<noteq> 0" using assms(1) by simp
  then have "unat (t - head_of s l - 1) = unat (t - head_of s l) - 1" by (rule unat_minus_one)
  moreover have "0 < unat (t - head_of s l)" using assms(1) by (simp add: unat_gt_0)
  ultimately show ?thesis using assms(2) by (simp add: ahead_def algebra_simps)
qed

lemma turn_no_owner:
  assumes inv: "locks_inv N s" and N: "N < 65536" and w: "phase s l c = Waiting (head_of s l)"
  shows "\<not> owns (phase s l x)"
proof
  assume x: "owns (phase s l x)"
  obtain q where q: "queue_ok N (raw (lock s l)) (holder (lock s l)) (phase s l) q" using locks_invD(3) [OF inv] by blast
  have "c \<in> set q" using q w by (auto simp: queue_ok_def)
  then obtain k where k: "k < length q" "q ! k = c" by (auto simp: in_set_conv_nth)
  then have "k = 0" using queue_first [OF q N, of k] w by (simp add: head_of_def)
  then show False using queue_owner [OF q x] k w x by auto
qed

lemma front_of_queue:
  assumes inv: "locks_inv N s" and w: "phase s l c = Waiting t"
  shows "\<exists>x. owns (phase s l x) \<or> phase s l x = Waiting (head_of s l)"
proof -
  obtain q where q: "queue_ok N (raw (lock s l)) (holder (lock s l)) (phase s l) q" using locks_invD(3) [OF inv] by blast
  have "c \<in> set q" using q w by (auto simp: queue_ok_def)
  then have ne: "0 < length q" by auto
  then have "q ! 0 \<in> set q" by (rule nth_mem)
  then have "phase s l (q ! 0) \<noteq> Away" using q by (auto simp: queue_ok_def)
  moreover have "t = head_of s l" if "phase s l (q ! 0) = Waiting t" for t
  proof -
    have "t = ticket_head (raw (lock s l)) + of_nat 0" using q ne that unfolding queue_ok_def by blast
    then show ?thesis by (simp add: head_of_def)
  qed
  ultimately have "owns (phase s l (q ! 0)) \<or> phase s l (q ! 0) = Waiting (head_of s l)" by (cases "phase s l (q ! 0)") auto
  then show ?thesis by (rule exI)
qed

lemma ahead_zero: "ahead s l t = 0 \<longleftrightarrow> head_of s l = t"
  by (auto simp: ahead_def unat_eq_zero)

lemma waiting_run:
  assumes run: "lock_run N \<sigma>" "N < 65536" and w: "phase (\<sigma> i) l c = Waiting t" and "i \<le> j"
  shows "(\<exists>k\<ge>i. phase (\<sigma> k) l c = Taken) \<or> phase (\<sigma> j) l c = Waiting t \<and> ahead (\<sigma> j) l t \<le> ahead (\<sigma> i) l t"
  using assms(4)
proof (induction rule: dec_induct)
  case base then show ?case using w by simp
next
  case (step j)
  show ?case
  proof (cases "\<exists>k\<ge>i. phase (\<sigma> k) l c = Taken")
    case False
    then have j: "phase (\<sigma> j) l c = Waiting t" "ahead (\<sigma> j) l t \<le> ahead (\<sigma> i) l t" using step by auto
    have "phase (\<sigma> (Suc j)) l c \<noteq> Taken" using False step(1) by auto
    then have s: "phase (\<sigma> (Suc j)) l c = Waiting t"
      "head_of (\<sigma> (Suc j)) l = head_of (\<sigma> j) l \<or> head_of (\<sigma> (Suc j)) l = head_of (\<sigma> j) l + 1 \<and> (\<exists>x. phase (\<sigma> j) l x = Leaving)"
      using waiting_step [OF lock_run_moves [OF run, of j l] j(1)] by auto
    have "head_of (\<sigma> j) l \<noteq> t" if "phase (\<sigma> j) l x = Leaving" for x
      using turn_no_owner [OF lock_run_inv [OF run, of j] run(2), of l c x] j(1) that by auto
    then have "ahead (\<sigma> (Suc j)) l t \<le> ahead (\<sigma> j) l t"
      using s(2) ahead_step [of "\<sigma> j" l t "\<sigma> (Suc j)"] by (auto simp: ahead_def)
    then show ?thesis using s(1) j(2) by simp
  qed simp
qed

definition polls_again :: "(nat \<Rightarrow> locks) \<Rightarrow> bool" where
  "polls_again \<sigma> = (\<forall>i c l t. pc (cpus (\<sigma> i) c) = Spinning l t \<longrightarrow>
     (\<exists>j\<ge>i. pc (cpus (\<sigma> j) c) \<noteq> Spinning l t \<or> \<sigma> (Suc j) = spin_lock_poll c l t (\<sigma> j)))"

definition owners_release :: "(nat \<Rightarrow> locks) \<Rightarrow> bool" where
  "owners_release \<sigma> = (\<forall>i c l. owns (phase (\<sigma> i) l c) \<longrightarrow> (\<exists>j\<ge>i. \<not> owns (phase (\<sigma> j) l c)))"

lemma waiting_spins: "phase s l c = Waiting t \<longleftrightarrow> l \<notin> set (lock_list (cpus s c)) \<and> pc (cpus s c) = Spinning l t"
  by (auto simp: phase_def cpu_phase_def split: pc.splits if_splits)

lemma turn_taken:
  assumes run: "lock_run N \<sigma>" "N < 65536" and f: "polls_again \<sigma>" and w: "phase (\<sigma> i) l c = Waiting (head_of (\<sigma> i) l)"
  shows "\<exists>k\<ge>i. phase (\<sigma> k) l c = Taken"
proof (rule ccontr)
  assume no: "\<not> (\<exists>k\<ge>i. phase (\<sigma> k) l c = Taken)"
  define t where "t = head_of (\<sigma> i) l"
  have stay: "phase (\<sigma> j) l c = Waiting t" "head_of (\<sigma> j) l = t" if "i \<le> j" for j
    using waiting_run [OF run, of i l c t j] w that no ahead_zero [of "\<sigma> i" l t] ahead_zero [of "\<sigma> j" l t]
    by (auto simp: t_def)
  have "pc (cpus (\<sigma> i) c) = Spinning l t" using w by (simp add: waiting_spins t_def)
  then obtain j where j: "i \<le> j" "pc (cpus (\<sigma> j) c) \<noteq> Spinning l t \<or> \<sigma> (Suc j) = spin_lock_poll c l t (\<sigma> j)"
    using f unfolding polls_again_def by blast
  have p: "l \<notin> set (lock_list (cpus (\<sigma> j) c))" "pc (cpus (\<sigma> j) c) = Spinning l t" using stay(1) [OF j(1)] by (simp_all add: waiting_spins)
  then have "\<sigma> (Suc j) = spin_lock_poll c l t (\<sigma> j)" using j(2) by simp
  then have "phase (\<sigma> (Suc j)) l c = Taken"
    using stay(2) [OF j(1)] p by (simp add: spin_lock_poll_def head_of_def cpu_phase_def)
  then show False using no j(1) by auto
qed

lemma waiting_taken:
  assumes run: "lock_run N \<sigma>" "N < 65536" and f: "polls_again \<sigma>" "owners_release \<sigma>" and w: "phase (\<sigma> i) l c = Waiting t"
  shows "\<exists>k\<ge>i. phase (\<sigma> k) l c = Taken"
  using w
proof (induction "ahead (\<sigma> i) l t" arbitrary: i rule: less_induct)
  case less
  show ?case
  proof (rule ccontr)
    assume no: "\<not> (\<exists>k\<ge>i. phase (\<sigma> k) l c = Taken)"
    have st: "phase (\<sigma> j) l c = Waiting t" "ahead (\<sigma> j) l t = ahead (\<sigma> i) l t" if "i \<le> j" for j
    proof -
      show p: "phase (\<sigma> j) l c = Waiting t" using waiting_run [OF run less(2) that] no by auto
      have "\<not> ahead (\<sigma> j) l t < ahead (\<sigma> i) l t" using less(1) [OF _ p] no that by (meson le_trans)
      then show "ahead (\<sigma> j) l t = ahead (\<sigma> i) l t" using waiting_run [OF run less(2) that] no by auto
    qed
    obtain x j where x: "i \<le> j" "owns (phase (\<sigma> j) l x)"
      using front_of_queue [OF lock_run_inv [OF run] less(2)] turn_taken [OF run f(1)] by (metis order_refl owns_simps(1))
    then obtain j' where "j \<le> j'" "\<not> owns (phase (\<sigma> j') l x)" using f(2) unfolding owners_release_def by blast
    then obtain k where k: "j \<le> k" "owns (phase (\<sigma> k) l x)" "head_of (\<sigma> (Suc k)) l = head_of (\<sigma> k) l + 1"
      using owner_releases [OF run x(2)] by blast
    have ik: "i \<le> k" using x(1) k(1) by simp
    have "head_of (\<sigma> k) l \<noteq> t"
      using turn_no_owner [OF lock_run_inv [OF run, of k] run(2), of l c x] st(1) [OF ik] k(2) by auto
    from ahead_step [OF this k(3)] show False using st(2) [OF ik] st(2) [of "Suc k"] ik by simp
  qed
qed

text \<open>
  C10. No processor waits for ever. In every run in which a spinning processor keeps polling and a
  processor that owns a lock sooner or later releases it, each processor that spins for a lock
  sooner or later leaves the loop with the lock.
\<close>

theorem spinlock_no_starvation:
  assumes "lock_run N \<sigma>" and "N < 65536" and "polls_again \<sigma>" and "owners_release \<sigma>"
    and "pc (cpus (\<sigma> i) c) = Spinning l t"
  shows "\<exists>j\<ge>i. pc (cpus (\<sigma> j) c) = Lock_Out l"
proof -
  have "phase (\<sigma> i) l c = Waiting t"
    using assms(5) locks_invD(2) [OF lock_run_inv [OF assms(1,2), of i], of c] by (auto simp: waiting_spins cpu_ok_def)
  then obtain j where "i \<le> j" "phase (\<sigma> j) l c = Taken" using waiting_taken [OF assms(1-4)] by blast
  then show ?thesis by (intro exI [of _ j]) (auto simp: phase_def cpu_phase_def split: pc.splits if_splits)
qed

theorem spinlock_no_starvation_witness:
  "pc (cpus (demo_run 2) 1) = Spinning 0 1 \<and> (\<exists>j\<ge>2. pc (cpus (demo_run j) 1) = Lock_Out 0)"
proof -
  have r: "lock_run 2 demo_run" using demo_init demo_step by (simp add: lock_run_def)
  have e: "pc (cpus (demo_run (max i 9)) c) = Outside" "phase (demo_run (max i 9)) l c = Away" for i c l
    using demo_rest [of "max i 9" c] by (simp_all add: phase_def cpu_phase_def demo_cpu_def)
  have f: "polls_again demo_run" unfolding polls_again_def
    by (intro allI impI) (rule_tac x = "max i 9" in exI, simp add: e)
  have g: "owners_release demo_run" unfolding owners_release_def
    by (intro allI impI) (rule_tac x = "max i 9" in exI, simp add: e)
  have p: "pc (cpus (demo_run 2) 1) = Spinning 0 1" by (simp add: demo_run_def demo_state_def demo_cpu_def)
  have "(2::nat) < 65536" by simp
  from spinlock_no_starvation [OF r this f g p] p show ?thesis by blast
qed

end
