(* ===== verification/Ram_FS.thy ===== *)
theory Ram_FS
  imports Slab_Cache
begin

text \<open>
  The file contents of the RAM file system (\<^verbatim>\<open>fs/type/ramfs.c\<close>): a file is a list of chunks of
  1024 bytes, an open file remembers the chunk its offset lies in. Chunks are only ever appended, so a
  chunk is named by its position in the list. Bytes come from and go to lists; lengths and offsets are
  the 32-bit words of the source.
\<close>

section \<open>Chunks\<close>

definition CHUNK_SIZE :: u32 where "CHUNK_SIZE = 1024"

record chunk =
  c_used :: u32
  c_buff :: "u8 list"

text \<open>The file: its chunks and \<^verbatim>\<open>inode->size\<close>. The open file: \<^verbatim>\<open>file->private\<close> and \<^verbatim>\<open>file->offset\<close>.\<close>

record ramfile =
  r_chunks :: "chunk list"
  i_size :: u32

record ramhandle =
  f_private :: "nat option"
  f_offset :: u32

text \<open>
  \<^verbatim>\<open>list_next\<close> gives no chunk after the last one. \<^verbatim>\<open>list_is_last\<close> compares the chunk's list node
  with the list head itself, as the macro is written.
\<close>

datatype list_node = Head | Node nat

definition chunk_next :: "chunk list \<Rightarrow> nat \<Rightarrow> nat option" where
  "chunk_next cs i = (if i + 1 < length cs then Some (i + 1) else None)"

definition chunk_is_last :: "nat \<Rightarrow> bool" where
  "chunk_is_last i = (Node i = Head)"

text \<open>
  A new chunk takes an object of each of the two caches; its buffer holds what that memory held.
\<close>

definition chunk_alloc :: "u32 \<Rightarrow> u32 \<Rightarrow> byte_mem \<Rightarrow> chunk list \<Rightarrow> heap \<Rightarrow> (heap \<times> chunk list) option" where
  "chunk_alloc chunk_cache chunk_buff_cache m cs h = do {
     (h1, _) \<leftarrow> cache_alloc chunk_cache h;
     (h2, b) \<leftarrow> cache_alloc chunk_buff_cache h1;
     Some (h2, cs @ [\<lparr>c_used = 0, c_buff = map (\<lambda>i. m (b + of_nat i)) [0..<unat CHUNK_SIZE]\<rparr>]) }"

definition chunk_read :: "chunk \<Rightarrow> u32 \<Rightarrow> u32 \<Rightarrow> u8 list option" where
  "chunk_read c len off = do {
     bug_on (c_used c < off);
     let len = (if c_used c - off < len then c_used c - off else len);
     Some (take (unat len) (drop (unat off) (c_buff c))) }"

definition chunk_write :: "chunk \<Rightarrow> u32 \<Rightarrow> u8 list \<Rightarrow> u32 \<Rightarrow> u32 \<Rightarrow> (chunk \<times> u32 \<times> u32) option" where
  "chunk_write c record_size buff len off = do {
     bug_on (CHUNK_SIZE \<le> off);
     let len = (if CHUNK_SIZE - off < len then CHUNK_SIZE - off else len);
     let data = take (unat off) (c_buff c) @ take (unat len) buff @ drop (unat off + unat len) (c_buff c);
     let used = (if off + len < c_used c then c_used c else off + len);
     Some (\<lparr>c_used = used, c_buff = data\<rparr>, record_size + (used - c_used c), len) }"

section \<open>Files\<close>

function record_read_loop :: "chunk list \<Rightarrow> u32 \<Rightarrow> u32 \<Rightarrow> nat option \<Rightarrow> u32 \<Rightarrow> nat option \<Rightarrow> u8 list
    \<Rightarrow> (u8 list \<times> u32 \<times> nat option) option" where
  "record_read_loop cs len off None amt priv out = Some (out, amt, priv)"
| "record_read_loop cs len off (Some i) amt priv out =
     (if len - amt = 0 then Some (out, amt, priv)
      else do {
        bs \<leftarrow> chunk_read (cs ! i) (len - amt) ((off + amt) mod CHUNK_SIZE);
        let amt = amt + of_nat (length bs);
        let priv = (if len - amt = 0 \<or> chunk_is_last i
                    then (if (off + amt) mod CHUNK_SIZE \<noteq> 0 then Some i else chunk_next cs i) else priv);
        record_read_loop cs len off (chunk_next cs i) amt priv (out @ bs) })"
  by pat_completeness auto
termination
  by (relation "measure (\<lambda>(cs, len, off, c, amt, priv, out). case c of None \<Rightarrow> 0 | Some i \<Rightarrow> Suc (length cs - i))")
    (auto simp: chunk_next_def)

definition record_read :: "ramfile \<Rightarrow> ramhandle \<Rightarrow> u32 \<Rightarrow> u32 \<Rightarrow> (ramhandle \<times> u8 list) option" where
  "record_read r f len off =
     (case f_private f of None \<Rightarrow> Some (f, [])
      | Some i \<Rightarrow> do {
          (out, amt, priv) \<leftarrow> record_read_loop (r_chunks r) len off (Some i) 0 (f_private f) [];
          Some (\<lparr>f_private = priv, f_offset = f_offset f + amt\<rparr>, out) })"

text \<open>Every round writes at least one byte, since the offset in the chunk is below its size.\<close>

lemma chunk_write_len:
  assumes "chunk_write c rs buff len off = Some (c', rs', n)" and "len \<noteq> 0"
  shows "0 < unat n" and "unat n \<le> unat len"
proof -
  have o: "off < CHUNK_SIZE" and n: "n = (if CHUNK_SIZE - off < len then CHUNK_SIZE - off else len)"
    using assms(1) by (auto simp: chunk_write_def Let_def not_le split: if_splits)
  have "CHUNK_SIZE - off \<noteq> 0" using o by auto
  then show "0 < unat n" using n assms(2) by (simp add: unat_gt_0)
  show "unat n \<le> unat len" using n by (auto simp: word_less_nat_alt)
qed

function record_write_loop :: "u32 \<Rightarrow> u32 \<Rightarrow> byte_mem \<Rightarrow> u8 list \<Rightarrow> u32 \<Rightarrow> u32
    \<Rightarrow> heap \<Rightarrow> chunk list \<Rightarrow> u32 \<Rightarrow> nat option \<Rightarrow> u32 \<Rightarrow> nat option
    \<Rightarrow> (heap \<times> chunk list \<times> u32 \<times> u32 \<times> nat option) option" where
  "record_write_loop cc cbc m buff len off h cs sz c amt priv =
     (if len - amt = 0 then Some (h, cs, sz, amt, priv)
      else do {
        (h1, cs1, i) \<leftarrow> (case c of
            None \<Rightarrow> do { (h1, cs1) \<leftarrow> chunk_alloc cc cbc m cs h; Some (h1, cs1, length cs1 - 1) }
          | Some i \<Rightarrow> Some (h, cs, i));
        case chunk_write (cs1 ! i) sz (drop (unat amt) buff) (len - amt) ((off + amt) mod CHUNK_SIZE) of
          None \<Rightarrow> None
        | Some (ch, sz1, n) \<Rightarrow>
            let cs2 = cs1[i := ch]; amt1 = amt + n
            in if len - amt1 \<noteq> 0
               then record_write_loop cc cbc m buff len off h1 cs2 sz1 (chunk_next cs2 i) amt1 priv
               else Some (h1, cs2, sz1, amt1, if (off + amt1) mod CHUNK_SIZE \<noteq> 0 then Some i else chunk_next cs2 i) })"
  by pat_completeness auto
termination
proof (relation "measure (\<lambda>(cc, cbc, m, buff, len, off, h, cs, sz, c, amt, priv). unat (len - amt))", goal_cases)
  case 1 then show ?case by simp
next
  case prems: (2 cc cbc m buff len off h cs sz c amt priv x h1 y cs1 i p ch q sz1 n cs2 amt1)
  let ?d = "len - amt"
  have w: "chunk_write (cs1 ! i) sz (drop (unat amt) buff) ?d ((off + amt) mod CHUNK_SIZE) = Some (ch, sz1, n)"
    and d: "?d \<noteq> 0" and a: "amt1 = amt + n" using prems by simp_all
  have "0 < unat n" "unat n \<le> unat ?d" using chunk_write_len [OF w d] by simp_all
  then have "unat (?d - n) < unat ?d" using unat_diff_le [of n ?d] by simp
  moreover have "len - amt1 = ?d - n" unfolding a by (simp only: diff_diff_eq)
  ultimately show ?case by (simp only: in_measure split_conv)
qed

definition record_write :: "u32 \<Rightarrow> u32 \<Rightarrow> byte_mem \<Rightarrow> ramfile \<Rightarrow> ramhandle \<Rightarrow> u8 list \<Rightarrow> u32 \<Rightarrow> heap
    \<Rightarrow> (heap \<times> ramfile \<times> ramhandle \<times> u32) option" where
  "record_write cc cbc m r f buff off h = do {
     (h1, cs, sz, amt, priv) \<leftarrow>
       record_write_loop cc cbc m buff (of_nat (length buff)) off h (r_chunks r) (i_size r) (f_private f) 0 (f_private f);
     Some (h1, \<lparr>r_chunks = cs, i_size = sz\<rparr>, \<lparr>f_private = priv, f_offset = f_offset f + amt\<rparr>, amt) }"

definition record_create :: ramfile where
  "record_create = \<lparr>r_chunks = [], i_size = 0\<rparr>"

text \<open>\<open>is_dir\<close> is the directory flag of the inode.\<close>

definition ramfs_file_open :: "bool \<Rightarrow> ramfile \<Rightarrow> ramhandle \<Rightarrow> ramhandle" where
  "ramfs_file_open is_dir r f =
     (if \<not> is_dir then f\<lparr>f_private := (if r_chunks r = [] then None else Some 0)\<rparr> else f)"

definition ramfs_file_read :: "ramfile \<Rightarrow> ramhandle \<Rightarrow> u32 \<Rightarrow> (ramhandle \<times> u8 list) option" where
  "ramfs_file_read r f bytes = record_read r f bytes (f_offset f)"

definition ramfs_file_write :: "u32 \<Rightarrow> u32 \<Rightarrow> byte_mem \<Rightarrow> ramfile \<Rightarrow> ramhandle \<Rightarrow> u8 list \<Rightarrow> heap
    \<Rightarrow> (heap \<times> ramfile \<times> ramhandle \<times> u32) option" where
  "ramfs_file_write cc cbc m r f buff h = record_write cc cbc m r f buff (f_offset f) h"

fun seek_loop :: "chunk list \<Rightarrow> nat \<Rightarrow> u32 \<Rightarrow> u32 \<Rightarrow> ramhandle \<Rightarrow> (ramhandle \<times> u32) option" where
  "seek_loop [] i pos offset f = None"
| "seek_loop (c # cs) i pos offset f =
     (if offset - pos < CHUNK_SIZE
      then do { bug_on (c_used c < offset - pos); Some (\<lparr>f_private = Some i, f_offset = offset\<rparr>, offset) }
      else seek_loop cs (i + 1) (pos + CHUNK_SIZE) offset f)"

definition ramfs_file_seek :: "ramfile \<Rightarrow> ramhandle \<Rightarrow> u32 \<Rightarrow> nat \<Rightarrow> (ramhandle \<times> u32) option" where
  "ramfs_file_seek r f offset whence = do { bug_on (whence \<noteq> 0); seek_loop (r_chunks r) 0 0 offset f }"

section \<open>The contents of a file\<close>

definition chunk_data :: "chunk \<Rightarrow> u8 list" where
  "chunk_data c = take (unat (c_used c)) (c_buff c)"

definition content :: "chunk list \<Rightarrow> u8 list" where
  "content cs = concat (map chunk_data cs)"

definition chunk_ok :: "chunk \<Rightarrow> bool" where
  "chunk_ok c = (length (c_buff c) = 1024 \<and> unat (c_used c) \<le> 1024)"

definition chunks_ok :: "chunk list \<Rightarrow> bool" where
  "chunks_ok cs = ((\<forall>c\<in>set cs. chunk_ok c \<and> c_used c \<noteq> 0) \<and> (\<forall>c\<in>set (butlast cs). unat (c_used c) = 1024))"

text \<open>The chunk an offset lies in.\<close>

definition chunk_at :: "nat \<Rightarrow> nat \<Rightarrow> nat option" where
  "chunk_at n p = (if p div 1024 < n then Some (p div 1024) else None)"

definition overwrite :: "'a list \<Rightarrow> nat \<Rightarrow> 'a list \<Rightarrow> 'a list" where
  "overwrite xs p bs = take p xs @ bs @ drop (p + length bs) xs"

lemma overwrite_append:
  "p \<le> length xs \<Longrightarrow> overwrite (overwrite xs p as) (p + length as) bs = overwrite xs p (as @ bs)"
  by (simp add: overwrite_def ac_simps)

lemma length_overwrite: "p \<le> length xs \<Longrightarrow> length (overwrite xs p bs) = max (length xs) (p + length bs)"
  by (simp add: overwrite_def)

lemma overwrite_Nil [simp]: "overwrite xs p [] = xs"
  by (simp add: overwrite_def)

lemma length_chunk_data: "chunk_ok c \<Longrightarrow> length (chunk_data c) = unat (c_used c)"
  by (simp add: chunk_data_def chunk_ok_def)

text \<open>All chunks before the last are full, so a chunk's bytes start at a multiple of the chunk size.\<close>

lemma full_prefix:
  assumes "\<forall>c\<in>set cs. chunk_ok c \<and> unat (c_used c) = 1024"
  shows "length (content cs) = 1024 * length cs"
  using assms by (induction cs) (simp_all add: content_def length_chunk_data)

lemma content_split:
  assumes ok: "\<forall>c\<in>set cs. chunk_ok c" and full: "\<forall>c\<in>set (butlast cs). unat (c_used c) = 1024" and i: "i < length cs"
  shows "content cs = content (take i cs) @ chunk_data (cs ! i) @ content (drop (Suc i) cs)"
    and "length (content (take i cs)) = 1024 * i"
    and "Suc i < length cs \<Longrightarrow> unat (c_used (cs ! i)) = 1024"
proof -
  show "content cs = content (take i cs) @ chunk_data (cs ! i) @ content (drop (Suc i) cs)"
    by (subst id_take_nth_drop [OF i]) (simp add: content_def)
  have t: "set (take i cs) \<subseteq> set (butlast cs)"
  proof
    fix x assume "x \<in> set (take i cs)"
    then obtain j where "j < i" "cs ! j = x" using i by (auto simp: in_set_conv_nth)
    then have "butlast cs ! j = x" "j < length (butlast cs)" using i by (auto simp: nth_butlast)
    then show "x \<in> set (butlast cs)" by (auto simp: in_set_conv_nth)
  qed
  then have "\<forall>c\<in>set (take i cs). chunk_ok c \<and> unat (c_used c) = 1024"
    using full ok by (meson in_set_takeD subsetD)
  from full_prefix [OF this] show "length (content (take i cs)) = 1024 * i" using i by simp
  assume "Suc i < length cs"
  then have "cs ! i \<in> set (butlast cs)" by (auto simp: in_set_conv_nth nth_butlast intro!: exI [of _ i])
  then show "unat (c_used (cs ! i)) = 1024" using full by blast
qed

lemma chunks_okD:
  assumes "chunks_ok cs"
  shows "\<forall>c\<in>set cs. chunk_ok c" and "\<forall>c\<in>set (butlast cs). unat (c_used c) = 1024" and "c \<in> set cs \<Longrightarrow> c_used c \<noteq> 0"
  using assms by (auto simp: chunks_ok_def)

lemma content_bound:
  assumes ok: "chunks_ok cs" and i: "i < length cs"
  shows "length (content cs) = 1024 * i + unat (c_used (cs ! i)) + length (content (drop (Suc i) cs))"
    and "Suc i = length cs \<Longrightarrow> length (content cs) = 1024 * i + unat (c_used (cs ! i))"
proof -
  note sp = content_split [OF chunks_okD(1,2) [OF ok] i]
  show a: "length (content cs) = 1024 * i + unat (c_used (cs ! i)) + length (content (drop (Suc i) cs))"
    using arg_cong [OF sp(1), of length] sp(2) chunks_okD(1) [OF ok] i by (simp add: length_chunk_data)
  assume "Suc i = length cs"
  then show "length (content cs) = 1024 * i + unat (c_used (cs ! i))" using a by (simp add: content_def)
qed

text \<open>A position inside the file lies in an existing chunk, unless it is the end of a full last chunk.\<close>

lemma chunk_at_in:
  assumes ok: "chunks_ok cs" and p: "p \<le> length (content cs)"
  shows "p div 1024 < length cs \<Longrightarrow> p mod 1024 \<le> unat (c_used (cs ! (p div 1024)))"
    and "\<not> p div 1024 < length cs \<Longrightarrow> p = 1024 * length cs \<and> p = length (content cs)"
proof -
  let ?i = "p div 1024"
  have sp: "p = 1024 * ?i + p mod 1024" "p mod 1024 < 1024" by simp_all
  assume i: "?i < length cs"
  show "p mod 1024 \<le> unat (c_used (cs ! ?i))"
  proof (cases "Suc ?i < length cs")
    case True
    then show ?thesis using content_split(3) [OF chunks_okD(1,2) [OF ok] i] sp(2) by simp
  next
    case False
    then have "length (content cs) = 1024 * ?i + unat (c_used (cs ! ?i))" using content_bound(2) [OF ok i] i by simp
    then show ?thesis using p sp(1) by linarith
  qed
next
  assume n: "\<not> p div 1024 < length cs"
  show "p = 1024 * length cs \<and> p = length (content cs)"
  proof (cases cs)
    case Nil
    then show ?thesis using p by (simp add: content_def)
  next
    case (Cons c cs')
    define l where "l = length cs - 1"
    have l: "l < length cs" "Suc l = length cs" using Cons by (simp_all add: l_def)
    have "unat (c_used (cs ! l)) \<le> 1024" using chunks_okD(1) [OF ok] l(1) by (simp add: chunk_ok_def)
    then have "length (content cs) \<le> 1024 * length cs" using content_bound(2) [OF ok l] l(2) by simp
    moreover have "1024 * length cs \<le> 1024 * (p div 1024)" using n by simp
    ultimately show ?thesis using p by (metis le_antisym le_trans times_div_less_eq_dividend)
  qed
qed

section \<open>Reading\<close>

declare record_read_loop.simps(2) [simp del] record_write_loop.simps [simp del]

lemma unat_CHUNK_SIZE: "unat CHUNK_SIZE = 1024"
  by (simp add: CHUNK_SIZE_def)

lemma chunk_offset:
  assumes "unat off + a < 2 ^ 32" and "unat amt = a"
  shows "unat ((off + amt) mod CHUNK_SIZE) = (unat off + a) mod 1024"
  using assms unat_add_no_wrap [of off amt] by (simp add: unat_mod_distrib unat_CHUNK_SIZE)

lemma chunk_read_ok:
  assumes "chunk_ok c" and "unat off \<le> unat (c_used c)"
  shows "chunk_read c len off = Some (take (unat len) (drop (unat off) (chunk_data c)))"
proof -
  have u: "unat (c_used c - off) = unat (c_used c) - unat off" using assms(2) by (rule unat_diff_le)
  have "min (unat (c_used c) - unat off) (unat len) = unat (if c_used c - off < len then c_used c - off else len)"
    using u by (auto simp: word_less_nat_alt)
  then show ?thesis using assms u
    by (simp add: chunk_read_def chunk_data_def Let_def word_less_nat_alt drop_take min_def not_less)
qed

lemma chunk_pos_end:
  assumes "i < length cs" and "0 < n" and "q + n \<le> 1024"
  shows "(if (1024 * i + q + n) mod 1024 \<noteq> 0 then Some i else chunk_next cs i) = chunk_at (length cs) (1024 * i + q + n)"
proof (cases "q + n = 1024")
  case True
  then have e: "1024 * i + q + n = 1024 * Suc i" by simp
  show ?thesis unfolding e chunk_next_def chunk_at_def by (simp del: mult_Suc_right)
next
  case False
  then have "(1024 * i + (q + n)) div 1024 = i" "(1024 * i + (q + n)) mod 1024 = q + n" using assms(3) by simp_all
  then show ?thesis using assms by (simp add: chunk_at_def add.assoc)
qed

lemma record_read_round:
  assumes ok: "chunks_ok cs" and sz: "length (content cs) < 2 ^ 31" "unat len < 2 ^ 31"
    and i: "i < length cs" and a: "unat amt = a" "a < unat len" and p: "unat off + a = 1024 * i + q" "q < 1024"
    and le: "unat off + a \<le> length (content cs)"
  defines "bs \<equiv> take (unat len - a) (drop q (chunk_data (cs ! i)))"
  shows "drop (1024 * i + q) (content cs) = drop q (chunk_data (cs ! i)) @ content (drop (Suc i) cs)"
    and "length bs = min (unat len - a) (unat (c_used (cs ! i)) - q)"
    and "q \<le> unat (c_used (cs ! i))" and "unat (c_used (cs ! i)) \<le> 1024" and "length (chunk_data (cs ! i)) = unat (c_used (cs ! i))"
    and "\<exists>amt'. unat amt' = a + length bs \<and> record_read_loop cs len off (Some i) amt priv out = record_read_loop cs len off (chunk_next cs i) amt'
      (if len - amt' = 0 then (if (off + amt') mod CHUNK_SIZE \<noteq> 0 then Some i else chunk_next cs i) else priv) (out @ bs)"
proof -
  let ?c = "cs ! i"
  have q: "(unat off + a) div 1024 = i" "(unat off + a) mod 1024 = q" using p by simp_all
  have o: "unat ((off + amt) mod CHUNK_SIZE) = q" unfolding q(2) [symmetric] by (rule chunk_offset [OF _ a(1)]) (use le sz(1) in simp)
  show qu: "q \<le> unat (c_used ?c)" using chunk_at_in(1) [OF ok le] i q by simp
  have la: "unat (len - amt) = unat len - a" using a by (subst unat_diff_le) simp_all
  have ne: "len - amt \<noteq> 0" using la a(2) by (metis unat_0 zero_less_diff less_numeral_extra(3))
  have ck: "chunk_ok ?c" using chunks_okD(1) [OF ok] i by auto
  then show "unat (c_used ?c) \<le> 1024" by (simp add: chunk_ok_def)
  show ld: "length (chunk_data ?c) = unat (c_used ?c)" by (rule length_chunk_data [OF ck])
  have cr: "chunk_read ?c (len - amt) ((off + amt) mod CHUNK_SIZE) = Some bs"
    using chunk_read_ok [of ?c "(off + amt) mod CHUNK_SIZE" "len - amt"] ck o qu la by (simp add: bs_def)
  note sp = content_split [OF chunks_okD(1,2) [OF ok] i]
  show "drop (1024 * i + q) (content cs) = drop q (chunk_data ?c) @ content (drop (Suc i) cs)"
    using arg_cong [OF sp(1), of "drop (1024 * i + q)"] sp(2) qu ld by simp
  show lb: "length bs = min (unat len - a) (unat (c_used ?c) - q)" using ld by (simp add: bs_def)
  define amt1 where "amt1 = amt + of_nat (length bs)"
  have "unat amt1 = a + length bs" using a lb sz(2) unat_add_no_wrap [of amt "of_nat (length bs)"]
    by (simp add: amt1_def unat_of_nat)
  moreover have "record_read_loop cs len off (Some i) amt priv out = record_read_loop cs len off (chunk_next cs i) amt1
      (if len - amt1 = 0 then (if (off + amt1) mod CHUNK_SIZE \<noteq> 0 then Some i else chunk_next cs i) else priv) (out @ bs)"
    unfolding record_read_loop.simps(2) if_not_P [OF ne] cr
    by (simp only: Option.bind.simps Let_def chunk_is_last_def amt1_def list_node.distinct simp_thms)
  ultimately show "\<exists>amt'. unat amt' = a + length bs \<and> record_read_loop cs len off (Some i) amt priv out = record_read_loop cs len off (chunk_next cs i) amt'
      (if len - amt' = 0 then (if (off + amt') mod CHUNK_SIZE \<noteq> 0 then Some i else chunk_next cs i) else priv) (out @ bs)" by blast
qed

text \<open>The loop reads on to the requested length or the end of the file; only a read that is served in
  full moves the remembered chunk.\<close>

lemma record_read_loop_ok:
  assumes ok: "chunks_ok cs" and sz: "length (content cs) < 2 ^ 31" "unat len < 2 ^ 31"
  shows "i < length cs \<Longrightarrow> unat amt = a \<Longrightarrow> a < unat len \<Longrightarrow> (unat off + a) div 1024 = i \<Longrightarrow> unat off + a \<le> length (content cs) \<Longrightarrow>
    \<exists>amt'. unat amt' = min (unat len) (length (content cs) - unat off)
      \<and> record_read_loop cs len off (Some i) amt priv out = Some (out @ take (unat len - a) (drop (unat off + a) (content cs)), amt',
          if unat off + unat len \<le> length (content cs) then chunk_at (length cs) (unat off + unat len) else priv)"
proof (induction "length cs - i" arbitrary: i amt a out priv rule: less_induct)
  case less
  let ?c = "cs ! i" and ?C = "content cs" and ?p = "unat off + a"
  define q where "q = ?p mod 1024"
  have pq: "?p = 1024 * i + q" "q < 1024" using less(5) by (auto simp: q_def)
  define bs where "bs = take (unat len - a) (drop q (chunk_data ?c))"
  note rd = record_read_round [OF ok sz less(2-4) pq less(6), folded bs_def]
  obtain amt1 where a1: "unat amt1 = a + length bs" and step: "record_read_loop cs len off (Some i) amt priv out =
      record_read_loop cs len off (chunk_next cs i) amt1
        (if len - amt1 = 0 then (if (off + amt1) mod CHUNK_SIZE \<noteq> 0 then Some i else chunk_next cs i) else priv) (out @ bs)"
    using rd(6) by blast
  have ne1: "len - amt1 = 0 \<longleftrightarrow> a + length bs = unat len" by (auto simp: word_unat_eq_iff [of len] a1)
  note dr = rd(1) [folded pq(1)] and lb = rd(2) and qu = rd(3) and u = rd(4) and ld = rd(5)
  show ?case
  proof (cases "a + length bs = unat len")
    case True
    have lbp: "0 < length bs" "length bs = unat len - a" using True less(4) by linarith+
    have le: "q + length bs \<le> unat (c_used ?c)" using lb lbp qu by simp
    have fin: "unat off + unat len = 1024 * i + q + length bs" using True pq(1) by simp
    have om: "unat ((off + amt1) mod CHUNK_SIZE) = (1024 * i + q + length bs) mod 1024"
      using chunk_offset [OF _ a1, of off] fin True le u less(6) pq(1) content_bound(1) [OF ok less(2)] sz(1) by simp
    then have pr: "(if (off + amt1) mod CHUNK_SIZE \<noteq> 0 then Some i else chunk_next cs i) = chunk_at (length cs) (unat off + unat len)"
      unfolding fin using chunk_pos_end [OF less(2) lbp(1), of q] le u by (simp add: word_unat_eq_iff)
    have "unat off + unat len \<le> length ?C" unfolding fin using content_bound(1) [OF ok less(2)] le by simp
    moreover have "take (unat len - a) (drop ?p ?C) = bs" unfolding dr using le lbp ld by (simp add: bs_def)
    moreover have "record_read_loop cs len off c amt1 pv o' = Some (o', amt1, pv)" for c pv o' using ne1 True by (cases c) (simp_all add: record_read_loop.simps(2))
    ultimately show ?thesis using step ne1 True a1 pr by (intro exI [of _ amt1]) simp
  next
    case False
    then have all: "length bs = unat (c_used ?c) - q" using lb less(4) by linarith
    then have all: "length bs = unat (c_used ?c) - q" "bs = drop q (chunk_data ?c)" using lb ld by (simp_all add: bs_def)
    have lt: "a + length bs < unat len" using False lb less(4) by simp
    show ?thesis
    proof (cases "Suc i < length cs")
      case Suc: True
      have full: "unat (c_used ?c) = 1024" by (rule content_split(3) [OF chunks_okD(1,2) [OF ok] less(2) Suc])
      have p1: "unat off + (a + length bs) = 1024 * Suc i" using full all(1) pq qu by simp
      have le: "unat off + (a + length bs) \<le> length ?C" using p1 content_bound(1) [OF ok less(2)] full by simp
      have d: "drop (unat off + (a + length bs)) ?C = content (drop (Suc i) cs)"
        using arg_cong [OF dr, of "drop (length bs)"] all by (simp add: ac_simps)
      have "take (unat len - a) (drop ?p ?C) = bs @ take (unat len - (a + length bs)) (drop (unat off + (a + length bs)) ?C)"
        unfolding d dr using all lt by simp
      moreover have "\<exists>amt'. unat amt' = min (unat len) (length ?C - unat off)
        \<and> record_read_loop cs len off (Some (Suc i)) amt1 priv (out @ bs) =
          Some ((out @ bs) @ take (unat len - (a + length bs)) (drop (unat off + (a + length bs)) ?C), amt',
            if unat off + unat len \<le> length ?C then chunk_at (length cs) (unat off + unat len) else priv)"
        by (rule less(1)) (use Suc a1 lt p1 le in simp_all)
      ultimately show ?thesis using step ne1 False Suc by (simp add: chunk_next_def)
    next
      case last: False
      then have e: "length ?C = 1024 * i + unat (c_used ?c)" "drop (Suc i) cs = []" using content_bound(2) [OF ok less(2)] less(2) by simp_all
      then have "take (unat len - a) (drop ?p ?C) = bs" unfolding dr using all lt by (simp add: content_def)
      moreover have "unat amt1 = min (unat len) (length ?C - unat off)" using e(1) all(1) pq qu a1 lt by simp
      moreover have "\<not> unat off + unat len \<le> length ?C" using e(1) all(1) pq qu lt by simp
      ultimately show ?thesis using step ne1 False last lt by (intro exI [of _ amt1]) (simp add: chunk_next_def)
    qed
  qed
qed

section \<open>Writing\<close>

lemma overwrite_mid:
  assumes "q \<le> length D" and "q + length bs \<le> length D \<or> B = []"
  shows "overwrite (A @ D @ B) (length A + q) bs = A @ overwrite D q bs @ B"
  using assms by (auto simp: overwrite_def add.assoc)

lemma chunk_write_ok:
  assumes c: "chunk_ok c" and q: "unat off \<le> unat (c_used c)" "unat off < 1024" and l: "unat len \<le> length buff" "len \<noteq> 0"
  defines "n \<equiv> min (1024 - unat off) (unat len)"
  shows "\<exists>c' w. chunk_write c rs buff len off = Some (c', rs + (c_used c' - c_used c), w) \<and> unat w = n \<and> 0 < n \<and> chunk_ok c'
    \<and> unat (c_used c') = max (unat (c_used c)) (unat off + n) \<and> chunk_data c' = overwrite (chunk_data c) (unat off) (take n buff)"
proof -
  let ?l = "if CHUNK_SIZE - off < len then CHUNK_SIZE - off else len"
  let ?u = "if off + ?l < c_used c then c_used c else off + ?l"
  have u: "unat (CHUNK_SIZE - off) = 1024 - unat off" using q(2) by (subst unat_diff_le) (simp_all add: unat_CHUNK_SIZE)
  have ul: "unat ?l = n" using u by (auto simp: n_def word_less_nat_alt)
  have n: "0 < n" "n \<le> length buff" "unat off + n \<le> 1024" using q(2) l by (auto simp: n_def unat_gt_0)
  have uo: "unat (off + ?l) = unat off + n" using ul n(3) by (subst unat_add_no_wrap) simp_all
  then have uu: "unat ?u = max (unat (c_used c)) (unat off + n)" by (auto simp: word_less_nat_alt)
  let ?c = "\<lparr>c_used = ?u, c_buff = take (unat off) (c_buff c) @ take (unat ?l) buff @ drop (unat off + unat ?l) (c_buff c)\<rparr>"
  have "chunk_write c rs buff len off = Some (?c, rs + (c_used ?c - c_used c), ?l)"
    using q(2) by (simp add: chunk_write_def Let_def CHUNK_SIZE_def word_le_nat_alt)
  moreover have "chunk_ok ?c" using c n(2,3) unfolding chunk_ok_def chunk.select_convs uu ul by simp
  moreover have "chunk_data ?c = overwrite (chunk_data c) (unat off) (take n buff)"
    unfolding chunk_data_def overwrite_def chunk.select_convs uu ul using c q n
    by (auto simp: chunk_ok_def max_def take_drop min_def)
  moreover have "unat (c_used ?c) = max (unat (c_used c)) (unat off + n)" using uu by simp
  ultimately show ?thesis using ul n(1) by blast
qed

lemma chunks_update:
  assumes ok: "\<forall>c\<in>set cs. chunk_ok c" and full: "\<forall>c\<in>set (butlast cs). unat (c_used c) = 1024" and i: "i < length cs"
    and pos: "\<forall>j<length cs. j \<noteq> i \<longrightarrow> c_used (cs ! j) \<noteq> 0"
    and c': "chunk_ok c'" "unat (c_used c') = max (unat (c_used (cs ! i))) (q + length bs)" "0 < length bs"
      "chunk_data c' = overwrite (chunk_data (cs ! i)) q bs" and q: "q \<le> unat (c_used (cs ! i))" "q + length bs \<le> 1024"
  shows "chunks_ok (cs[i := c'])" and "content (cs[i := c']) = overwrite (content cs) (1024 * i + q) bs"
proof -
  note sp = content_split [OF ok full i]
  have u: "unat (c_used c') \<noteq> 0" using c'(2,3) by simp
  have "chunk_ok c \<and> c_used c \<noteq> 0" if "c \<in> set (cs[i := c'])" for c
    using that u c'(1) ok [unfolded all_set_conv_all_nth] pos i by (auto simp: in_set_conv_nth nth_list_update split: if_splits)
  moreover have "unat (c_used c) = 1024" if cb: "c \<in> set (butlast (cs[i := c']))" for c
  proof -
    obtain j where "j < length (butlast (cs[i := c']))" "butlast (cs[i := c']) ! j = c" using cb by (auto simp: in_set_conv_nth)
    then have j: "Suc j < length cs" "c = cs[i := c'] ! j" by (auto simp: nth_butlast)
    have f: "unat (c_used (cs ! j)) = 1024" using content_split(3) [OF ok full _ j(1)] j(1) by simp
    show ?thesis
    proof (cases "j = i")
      case True
      then show ?thesis using j i f c'(1,2) by (simp add: chunk_ok_def)
    qed (use j f in simp)
  qed
  ultimately show "chunks_ok (cs[i := c'])" by (simp add: chunks_ok_def)
  have ld: "length (chunk_data (cs ! i)) = unat (c_used (cs ! i))" using ok i length_chunk_data by auto
  have e: "q + length bs \<le> length (chunk_data (cs ! i)) \<or> content (drop (Suc i) cs) = []"
    using sp(3) q(2) ld by (cases "Suc i < length cs") (auto simp: content_def)
  have "content (cs[i := c']) = content (take i cs) @ chunk_data c' @ content (drop (Suc i) cs)"
    using upd_conv_take_nth_drop [OF i, of c'] by (simp add: content_def)
  also have "\<dots> = overwrite (content cs) (1024 * i + q) bs"
    using overwrite_mid [OF _ e, of "content (take i cs)"] sp(1,2) q(1) ld c'(4) by simp
  finally show "content (cs[i := c']) = overwrite (content cs) (1024 * i + q) bs" .
qed

text \<open>The heap's part in a write: two objects for each new chunk.\<close>

primrec alloc_chunks :: "u32 \<Rightarrow> u32 \<Rightarrow> nat \<Rightarrow> heap \<Rightarrow> heap option" where
  "alloc_chunks cc cbc 0 h = Some h"
| "alloc_chunks cc cbc (Suc n) h = do {
     (h1, _) \<leftarrow> cache_alloc cc h;
     (h2, _) \<leftarrow> cache_alloc cbc h1;
     alloc_chunks cc cbc n h2 }"

definition new_chunks :: "chunk list \<Rightarrow> nat \<Rightarrow> nat" where
  "new_chunks cs fin = (fin + 1023) div 1024 - length cs"

text \<open>One round of the loop: what is left of the buffer goes to chunk \<open>i\<close>, as far as it fits.\<close>

lemma record_write_round:
  assumes ok: "\<forall>c\<in>set cs. chunk_ok c" and full: "\<forall>c\<in>set (butlast cs). unat (c_used c) = 1024"
    and i: "i < length cs" and pos: "\<forall>j<length cs. j \<noteq> i \<longrightarrow> c_used (cs ! j) \<noteq> 0"
    and p: "unat off + a = 1024 * i + q" "q < 1024" "q \<le> unat (c_used (cs ! i))"
    and a: "unat amt = a" "a < length buff" "unat len = length buff" and w: "unat off + length buff < 2 ^ 31"
    and sz: "sz = of_nat (length (content cs))"
  defines "n \<equiv> min (1024 - q) (length buff - a)"
  shows "\<exists>c'. chunk_write (cs ! i) sz (drop (unat amt) buff) (len - amt) ((off + amt) mod CHUNK_SIZE) =
      Some (c', of_nat (length (content (cs[i := c']))), of_nat n) \<and> chunks_ok (cs[i := c'])
    \<and> content (cs[i := c']) = overwrite (content cs) (unat off + a) (take n (drop a buff))" and "0 < n"
proof -
  show n0: "0 < n" using p(2) a(2) by (simp add: n_def)
  have o: "unat ((off + amt) mod CHUNK_SIZE) = q" using chunk_offset [OF _ a(1), of off] w a(2) p(1,2) by simp
  have la: "unat (len - amt) = length buff - a" using a by (subst unat_diff_le) simp_all
  have ne: "len - amt \<noteq> 0" using la a(2) by (metis unat_0 zero_less_diff less_numeral_extra(3))
  have ck: "chunk_ok (cs ! i)" using ok i by auto
  obtain c' wn where c': "chunk_write (cs ! i) sz (drop a buff) (len - amt) ((off + amt) mod CHUNK_SIZE) = Some (c', sz + (c_used c' - c_used (cs ! i)), wn)"
    "unat wn = n" "chunk_ok c'" "unat (c_used c') = max (unat (c_used (cs ! i))) (q + n)"
    "chunk_data c' = overwrite (chunk_data (cs ! i)) q (take n (drop a buff))"
    using chunk_write_ok [OF ck, of "(off + amt) mod CHUNK_SIZE" "len - amt" "drop a buff" sz] o p(2,3) la ne
    by (auto simp: n_def)
  have ln: "length (take n (drop a buff)) = n" by (simp add: n_def)
  note up = chunks_update [OF ok full i pos c'(3), of q "take n (drop a buff)", unfolded ln, OF c'(4) n0 c'(5) p(3)]
  have qn: "q + n \<le> 1024" using p(2) by (simp add: n_def)
  have "length (content (cs[i := c'])) = length (content cs) + (unat (c_used c') - unat (c_used (cs ! i)))"
  proof -
    have "length (chunk_data c') = unat (c_used c')" "length (chunk_data (cs ! i)) = unat (c_used (cs ! i))"
      using c'(3) ck length_chunk_data by auto
    moreover have "length (content (cs[i := c'])) + length (chunk_data (cs ! i)) = length (content cs) + length (chunk_data c')"
      using content_split(1) [OF ok full i] upd_conv_take_nth_drop [OF i, of c'] by (simp add: content_def)
    ultimately show ?thesis using c'(4) by simp
  qed
  then have "sz + (c_used c' - c_used (cs ! i)) = of_nat (length (content (cs[i := c'])))"
    unfolding sz using c'(4) unat_eq_of_nat [OF c'(4)] by (simp add: of_nat_diff)
  moreover have "wn = of_nat n" using c'(2) by (rule unat_eq_of_nat)
  ultimately show "\<exists>c'. chunk_write (cs ! i) sz (drop (unat amt) buff) (len - amt) ((off + amt) mod CHUNK_SIZE) =
      Some (c', of_nat (length (content (cs[i := c']))), of_nat n) \<and> chunks_ok (cs[i := c'])
    \<and> content (cs[i := c']) = overwrite (content cs) (unat off + a) (take n (drop a buff))"
    using c'(1) up [OF qn] p(1) a(1) by auto
qed

lemma record_write_loop_step:
  assumes "len - amt \<noteq> 0" and "chunk_write (cs ! i) sz (drop (unat amt) buff) (len - amt) ((off + amt) mod CHUNK_SIZE) = Some (c', sz1, n)"
  shows "record_write_loop cc cbc m buff len off h cs sz (Some i) amt priv =
    (if len - (amt + n) \<noteq> 0
     then record_write_loop cc cbc m buff len off h (cs[i := c']) sz1 (chunk_next (cs[i := c']) i) (amt + n) priv
     else Some (h, cs[i := c'], sz1, amt + n, if (off + (amt + n)) mod CHUNK_SIZE \<noteq> 0 then Some i else chunk_next (cs[i := c']) i))"
  by (subst record_write_loop.simps) (simp only: assms if_False option.simps Option.bind.simps prod.case Let_def)

lemma record_write_loop_alloc:
  assumes "len - amt \<noteq> 0"
  shows "record_write_loop cc cbc m buff len off h cs sz None amt priv =
    (case chunk_alloc cc cbc m cs h of None \<Rightarrow> None
     | Some (h1, cs1) \<Rightarrow> record_write_loop cc cbc m buff len off h1 cs1 sz (Some (length cs1 - 1)) amt priv)"
proof -
  have "len \<noteq> amt" using assms by simp
  then show ?thesis
    by (subst record_write_loop.simps, cases "chunk_alloc cc cbc m cs h")
      (simp_all add: record_write_loop.simps [of cc cbc m buff len off _ _ sz "Some _"] split: prod.splits)
qed

lemma chunk_alloc_ok:
  shows "alloc_chunks cc cbc (Suc k) h = (case chunk_alloc cc cbc m cs h of None \<Rightarrow> None | Some (h1, _) \<Rightarrow> alloc_chunks cc cbc k h1)"
    and "chunk_alloc cc cbc m cs h = Some (h1, cs1) \<Longrightarrow> \<exists>c. cs1 = cs @ [c] \<and> chunk_ok c \<and> c_used c = 0"
  by (auto simp: chunk_alloc_def chunk_ok_def unat_CHUNK_SIZE split: option.splits prod.splits Option.bind_splits)

lemma pos_in_content:
  assumes "\<forall>c\<in>set cs. chunk_ok c" and "\<forall>c\<in>set (butlast cs). unat (c_used c) = 1024" and "i < length cs" and "q \<le> unat (c_used (cs ! i))"
  shows "1024 * i + q \<le> length (content cs)"
proof -
  have "length (chunk_data (cs ! i)) = unat (c_used (cs ! i))" using assms(1,3) length_chunk_data by auto
  then show ?thesis using arg_cong [OF content_split(1) [OF assms(1-3)], of length] content_split(2) [OF assms(1-3)] assms(4) by simp
qed

lemma chunks_ok_nth:
  assumes "chunks_ok cs"
  shows "\<forall>j<length cs. c_used (cs ! j) \<noteq> 0"
  using assms by (simp add: chunks_ok_def all_set_conv_all_nth)

lemma chunks_grow:
  assumes ok: "chunks_ok cs" and len: "1024 * length cs \<le> length (content cs)" and c: "chunk_ok c" "c_used c = 0"
  shows "\<forall>x\<in>set (cs @ [c]). chunk_ok x" and "\<forall>x\<in>set (butlast (cs @ [c])). unat (c_used x) = 1024"
    and "\<forall>j<length (cs @ [c]). j \<noteq> length cs \<longrightarrow> c_used ((cs @ [c]) ! j) \<noteq> 0" and "content (cs @ [c]) = content cs"
proof -
  note okc = chunks_okD [OF ok]
  show "\<forall>x\<in>set (cs @ [c]). chunk_ok x" using okc(1) c(1) by simp
  show "content (cs @ [c]) = content cs" using c(2) by (simp add: content_def chunk_data_def)
  show "\<forall>j<length (cs @ [c]). j \<noteq> length cs \<longrightarrow> c_used ((cs @ [c]) ! j) \<noteq> 0"
    using chunks_ok_nth [OF ok] by (simp add: nth_append)
  have "unat (c_used (cs ! j)) = 1024" if j: "j < length cs" for j
  proof (cases "Suc j < length cs")
    case True
    then show ?thesis by (rule content_split(3) [OF okc(1,2) j])
  next
    case False
    then have "length (content cs) = 1024 * j + unat (c_used (cs ! j))" using j by (intro content_bound(2) [OF ok]) simp_all
    moreover have "unat (c_used (cs ! j)) \<le> 1024" using okc(1) j by (simp add: chunk_ok_def)
    moreover have "length cs = Suc j" using False j by simp
    ultimately show ?thesis using len by simp
  qed
  then show "\<forall>x\<in>set (butlast (cs @ [c])). unat (c_used x) = 1024" by (simp add: all_set_conv_all_nth)
qed

lemma write_rounds:
  assumes len: "unat len = length buff" and w: "unat off + length buff < 2 ^ 31"
  shows "\<forall>c\<in>set cs. chunk_ok c \<Longrightarrow> \<forall>c\<in>set (butlast cs). unat (c_used c) = 1024 \<Longrightarrow>
    \<forall>j<length cs. j \<noteq> i \<longrightarrow> c_used (cs ! j) \<noteq> 0 \<Longrightarrow> i < length cs \<Longrightarrow> unat off + a = 1024 * i + q \<Longrightarrow> q < 1024 \<Longrightarrow>
    q \<le> unat (c_used (cs ! i)) \<Longrightarrow> unat amt = a \<Longrightarrow> a < length buff \<Longrightarrow> sz = of_nat (length (content cs)) \<Longrightarrow>
    (case alloc_chunks cc cbc (new_chunks cs (unat off + length buff)) h of
       None \<Rightarrow> record_write_loop cc cbc m buff len off h cs sz (Some i) amt priv = None
     | Some h' \<Rightarrow> \<exists>cs'. record_write_loop cc cbc m buff len off h cs sz (Some i) amt priv =
           Some (h', cs', of_nat (length (content cs')), len, chunk_at (length cs') (unat off + length buff))
         \<and> chunks_ok cs' \<and> content cs' = overwrite (content cs) (unat off + a) (drop a buff))"
proof (induction "length buff - a" arbitrary: h cs i a q amt sz rule: less_induct)
  case less
  define n where "n = min (1024 - q) (length buff - a)"
  obtain c' where c': "chunk_write (cs ! i) sz (drop (unat amt) buff) (len - amt) ((off + amt) mod CHUNK_SIZE) =
      Some (c', of_nat (length (content (cs[i := c']))), of_nat n)" "chunks_ok (cs[i := c'])"
    "content (cs[i := c']) = overwrite (content cs) (unat off + a) (take n (drop a buff))" and n: "0 < n"
    using record_write_round [OF less(2,3,5,4,6-10) len w less(11)] unfolding n_def by blast
  let ?cs = "cs[i := c']" and ?amt = "amt + of_nat n"
  have ne: "len - amt \<noteq> 0" using less(9,10) len by (metis right_minus_eq less_irrefl)
  have na: "a + n \<le> length buff" "n < 2 ^ 32" using less(10) w by (simp_all add: n_def)
  have ua: "unat ?amt = a + n" using less(9) na w unat_add_no_wrap [of amt "of_nat n"] by (simp add: unat_of_nat)
  have pl: "unat off + a \<le> length (content cs)" using pos_in_content [OF less(2,3,5,8)] less(6) by simp
  note st = record_write_loop_step [OF ne c'(1), of cc cbc m h priv] and okc = chunks_okD [OF c'(2)]
  have nc: "new_chunks ?cs f = new_chunks cs f" for f by (simp add: new_chunks_def)
  have fold: "overwrite (content ?cs) (unat off + (a + n)) (drop (a + n) buff) = overwrite (content cs) (unat off + a) (drop a buff)"
    using overwrite_append [OF pl, of "take n (drop a buff)" "drop n (drop a buff)"] na(1)
    unfolding c'(3) append_take_drop_id by (simp add: add.assoc add.commute [of n])
  show ?case
  proof (cases "a + n = length buff")
    case True
    then have "len = ?amt" using ua len by (simp add: word_unat_eq_iff)
    then have d: "len - ?amt = 0" by simp
    have fin: "unat off + length buff = 1024 * i + q + n" using True less(6) by simp
    have qn: "q + n \<le> 1024" using less(7) by (simp add: n_def)
    have "new_chunks cs (unat off + length buff) = 0" using qn less(5) by (simp add: new_chunks_def fin div_le_mono less_eq_div_iff_mult_less_eq Suc_le_eq)
    moreover have "(if (off + ?amt) mod CHUNK_SIZE \<noteq> 0 then Some i else chunk_next ?cs i) = chunk_at (length ?cs) (unat off + length buff)"
      using chunk_pos_end [of i ?cs n q] less(5) n qn chunk_offset [OF _ ua, of off] w True fin
      by (simp add: word_unat_eq_iff)
    moreover have "len = ?amt" using d by simp
    ultimately show ?thesis using st d c'(2) fold True by simp
  next
    case False
    then have lt: "a + n < length buff" and qn: "q + n = 1024" using na(1) less(7) by (auto simp: n_def)
    then have d: "len - ?amt \<noteq> 0" using ua len by (metis right_minus_eq less_irrefl)
    have p1: "unat off + (a + n) = 1024 * Suc i + 0" using less(6) qn by simp
    have dec: "length buff - (a + n) < length buff - a" using n lt by simp
    show ?thesis
    proof (cases "Suc i < length cs")
      case True
      have "c_used (?cs ! j) \<noteq> 0" if "j < length ?cs" for j using chunks_ok_nth [OF c'(2)] that by blast
      then show ?thesis
        using less(1) [OF dec okc(1,2) _ _ p1 _ _ ua lt refl, of h] True st d fold nc by (simp add: chunk_next_def split: option.splits)
    next
      case F: False
      then have l: "length cs = Suc i" using less(5) by simp
      have "Suc i < (unat off + length buff + 1023) div 1024" using p1 lt by (simp add: less_eq_div_iff_mult_less_eq flip: Suc_le_eq)
      then obtain k where k: "new_chunks cs (unat off + length buff) = Suc k" by (auto simp: new_chunks_def l dest: less_imp_Suc_add)
      show ?thesis
      proof (cases "chunk_alloc cc cbc m ?cs h")
        case None
        then show ?thesis using st d F k record_write_loop_alloc [OF d, of cc cbc m buff off h ?cs] chunk_alloc_ok(1) [of cc cbc k h m ?cs]
          by (simp add: chunk_next_def del: alloc_chunks.simps)
      next
        case (Some hc)
        then obtain h1 c where al: "chunk_alloc cc cbc m ?cs h = Some (h1, ?cs @ [c])" and c: "chunk_ok c" "c_used c = 0"
          using chunk_alloc_ok(2) [of cc cbc m ?cs h] by (cases hc) blast
        let ?d = "?cs @ [c]"
        have "1024 * length ?cs \<le> length (content ?cs)"
          unfolding c'(3) length_overwrite [OF pl] using p1 na(1) l by (simp add: add.assoc)
        note g = chunks_grow [OF c'(2) this c]
        have "case alloc_chunks cc cbc (new_chunks ?d (unat off + length buff)) h1 of
            None \<Rightarrow> record_write_loop cc cbc m buff len off h1 ?d (of_nat (length (content ?cs))) (Some (Suc i)) ?amt priv = None
          | Some h' \<Rightarrow> \<exists>cs'. record_write_loop cc cbc m buff len off h1 ?d (of_nat (length (content ?cs))) (Some (Suc i)) ?amt priv =
              Some (h', cs', of_nat (length (content cs')), len, chunk_at (length cs') (unat off + length buff))
              \<and> chunks_ok cs' \<and> content cs' = overwrite (content ?d) (unat off + (a + n)) (drop (a + n) buff)"
        proof (rule less(1) [OF dec _ _ _ _ p1 _ _ ua lt])
          show "\<forall>x\<in>set ?d. chunk_ok x" "\<forall>x\<in>set (butlast ?d). unat (c_used x) = 1024" by (rule g)+
          show "\<forall>j<length ?d. j \<noteq> Suc i \<longrightarrow> c_used (?d ! j) \<noteq> 0" using g(3) l by simp
        qed (use l g(4) in simp_all)
        moreover have "new_chunks ?d (unat off + length buff) = k" using k by (simp add: new_chunks_def)
        ultimately show ?thesis
          using st d F k record_write_loop_alloc [OF d, of cc cbc m buff off h ?cs] chunk_alloc_ok(1) [of cc cbc k h m ?cs] al l fold g(4)
          by (simp add: chunk_next_def del: alloc_chunks.simps split: option.splits)
      qed
    qed
  qed
qed

section \<open>Files and handles\<close>

text \<open>
  A file is well formed when its chunks are and \<^verbatim>\<open>inode->size\<close> is the number of bytes it holds. A
  handle is in step with the file when its offset is not beyond the end and it remembers the chunk
  the offset lies in, or none at the end of a full last chunk.
\<close>

definition file_ok :: "ramfile \<Rightarrow> bool" where
  "file_ok r = (chunks_ok (r_chunks r) \<and> length (content (r_chunks r)) < 2 ^ 31 \<and> i_size r = of_nat (length (content (r_chunks r))))"

definition handle_ok :: "ramfile \<Rightarrow> ramhandle \<Rightarrow> bool" where
  "handle_ok r f = (unat (f_offset f) \<le> length (content (r_chunks r))
     \<and> f_private f = chunk_at (length (r_chunks r)) (unat (f_offset f)))"

definition file_bytes :: "ramfile \<Rightarrow> u8 list" where
  "file_bytes r = content (r_chunks r)"

lemma record_write_loop_ok:
  assumes ok: "chunks_ok cs" and p: "unat off \<le> length (content cs)" and w: "unat off + length buff < 2 ^ 31"
    and len: "unat len = length buff" "buff \<noteq> []"
    and al: "alloc_chunks cc cbc (new_chunks cs (unat off + length buff)) h = Some h'"
  shows "\<exists>cs'. record_write_loop cc cbc m buff len off h cs (of_nat (length (content cs))) (chunk_at (length cs) (unat off)) 0 priv =
           Some (h', cs', of_nat (length (content cs')), len, chunk_at (length cs') (unat off + length buff))
         \<and> chunks_ok cs' \<and> content cs' = overwrite (content cs) (unat off) buff"
proof (cases "unat off div 1024 < length cs")
  case True
  have pos: "\<forall>j<length cs. j \<noteq> unat off div 1024 \<longrightarrow> c_used (cs ! j) \<noteq> 0" using chunks_ok_nth [OF ok] by blast
  have e: "unat off + 0 = 1024 * (unat off div 1024) + unat off mod 1024" "unat off mod 1024 < 1024" by simp_all
  have l0: "0 < length buff" using len(2) by simp
  note wr = write_rounds [OF len(1) w chunks_okD(1,2) [OF ok] pos True e chunk_at_in(1) [OF ok p True] unat_0 l0 refl,
      where cc = cc and cbc = cbc and h = h and m = m and priv = priv]
  show ?thesis using wr True unfolding al by (simp add: chunk_at_def)
next
  case False
  note pe = chunk_at_in(2) [OF ok p False]
  have "len \<noteq> 0" using len by (metis length_0_conv unat_0)
  then have ne: "len - 0 \<noteq> 0" by simp
  have l0: "0 < length buff" using len(2) by simp
  moreover have "1024 * Suc (length cs) = unat off + 1024" using pe by simp
  ultimately have "1024 * Suc (length cs) \<le> unat off + length buff + 1023" by linarith
  then have "length cs < (unat off + length buff + 1023) div 1024" by (simp add: less_eq_div_iff_mult_less_eq Suc_le_eq [symmetric])
  then obtain k where k: "new_chunks cs (unat off + length buff) = Suc k" by (auto simp: new_chunks_def dest: less_imp_Suc_add)
  then obtain h1 c where c: "chunk_alloc cc cbc m cs h = Some (h1, cs @ [c])" "chunk_ok c" "c_used c = 0" "alloc_chunks cc cbc k h1 = Some h'"
    using al chunk_alloc_ok(1) [of cc cbc k h m cs] chunk_alloc_ok(2) [of cc cbc m cs h]
    by (auto simp del: alloc_chunks.simps split: option.splits)
  have "1024 * length cs \<le> length (content cs)" using pe by simp
  note g = chunks_grow [OF ok this c(2,3)]
  have "new_chunks (cs @ [c]) (unat off + length buff) = k" using k by (simp add: new_chunks_def)
  moreover have "unat off + 0 = 1024 * length cs + 0" using pe by simp
  note wr = write_rounds [OF len(1) w g(1,2,3) _ this _ _ unat_0 l0 refl,
      where cc = cc and cbc = cbc and h = h1 and m = m and priv = priv]
  moreover have "record_write_loop cc cbc m buff len off h cs sz None 0 priv =
      record_write_loop cc cbc m buff len off h1 (cs @ [c]) sz (Some (length cs)) 0 priv" for sz
    using record_write_loop_alloc [OF ne, of cc cbc m buff off h cs sz priv] c(1) by simp
  ultimately show ?thesis using g(4) c(4) False by (simp add: chunk_at_def)
qed

text \<open>
  C18. A write through a handle in step with the file returns whenever the caches have the objects for
  the new chunks. It takes the whole buffer, the file then holds its old bytes overwritten and
  extended at the offset, file and handle are well formed again and the handle stands behind the
  bytes written.
\<close>

theorem ramfs_write_correct:
  assumes r: "file_ok r" and f: "handle_ok r f" and w: "unat (f_offset f) + length buff < 2 ^ 31"
    and al: "alloc_chunks cc cbc (new_chunks (r_chunks r) (unat (f_offset f) + length buff)) h = Some h'" and b: "buff \<noteq> []"
  shows "\<exists>r' f' amt. ramfs_file_write cc cbc m r f buff h = Some (h', r', f', amt) \<and> unat amt = length buff
    \<and> file_bytes r' = overwrite (file_bytes r) (unat (f_offset f)) buff
    \<and> file_ok r' \<and> handle_ok r' f' \<and> unat (f_offset f') = unat (f_offset f) + length buff"
proof -
  let ?o = "f_offset f" and ?len = "of_nat (length buff) :: u32"
  have len: "unat ?len = length buff" using w by (intro unat_of_nat_less) simp
  obtain cs' where cs': "record_write_loop cc cbc m buff ?len ?o h (r_chunks r) (i_size r) (f_private f) 0 (f_private f) =
      Some (h', cs', of_nat (length (content cs')), ?len, chunk_at (length cs') (unat ?o + length buff))"
    "chunks_ok cs'" "content cs' = overwrite (content (r_chunks r)) (unat ?o) buff"
    using record_write_loop_ok [OF _ _ w len b al, of m "f_private f"] r f by (auto simp: file_ok_def handle_ok_def)
  have o: "unat (?o + ?len) = unat ?o + length buff" using w len by (subst unat_add_no_wrap) simp_all
  have "length (content cs') = max (length (content (r_chunks r))) (unat ?o + length buff)"
    unfolding cs'(3) using f by (intro length_overwrite) (simp add: handle_ok_def)
  then have "length (content cs') < 2 ^ 31" "unat ?o + length buff \<le> length (content cs')" using r w by (simp_all add: file_ok_def)
  then show ?thesis using cs' o len by (simp add: ramfs_file_write_def record_write_def file_ok_def handle_ok_def file_bytes_def)
qed

definition one_chunk :: ramfile where
  "one_chunk = \<lparr>r_chunks = [\<lparr>c_used = 1000, c_buff = replicate 1024 7\<rparr>], i_size = 1000\<rparr>"

lemma one_chunk_ok: "file_ok one_chunk" "content (r_chunks one_chunk) = replicate 1000 7"
  by (simp_all add: one_chunk_def file_ok_def chunks_ok_def chunk_ok_def content_def chunk_data_def)

theorem ramfs_write_correct_witness:
  "\<exists>h' r' f' amt. ramfs_file_write 4 10 (\<lambda>_. 0) one_chunk \<lparr>f_private = Some 0, f_offset = 990\<rparr> (replicate 100 9) small_heap = Some (h', r', f', amt)
    \<and> file_bytes r' = replicate 990 7 @ replicate 100 9"
proof -
  let ?f = "\<lparr>f_private = Some 0, f_offset = 990\<rparr>" and ?b = "replicate 100 (9 :: u8)"
  have "alloc_chunks 4 10 1 small_heap \<noteq> None" by code_simp
  then obtain h' where "alloc_chunks 4 10 1 small_heap = Some h'" by auto
  moreover have "new_chunks (r_chunks one_chunk) 1090 = 1" by (simp add: new_chunks_def one_chunk_def)
  ultimately have al: "alloc_chunks 4 10 (new_chunks (r_chunks one_chunk) (unat (f_offset ?f) + length ?b)) small_heap = Some h'" by simp
  have f: "handle_ok one_chunk ?f" by (simp add: handle_ok_def one_chunk_ok chunk_at_def) (simp add: one_chunk_def)
  have "unat (f_offset ?f) + length ?b < 2 ^ 31" "?b \<noteq> []" by simp_all
  from ramfs_write_correct [OF one_chunk_ok(1) f this(1) al this(2), of "\<lambda>_. 0"] obtain r' f' amt where
    "ramfs_file_write 4 10 (\<lambda>_. 0) one_chunk ?f ?b small_heap = Some (h', r', f', amt)"
    "file_bytes r' = overwrite (file_bytes one_chunk) (unat (f_offset ?f)) ?b" by blast
  moreover have "overwrite (file_bytes one_chunk) (unat (f_offset ?f)) ?b = replicate 990 7 @ ?b"
    by (simp add: overwrite_def file_bytes_def one_chunk_ok)
  ultimately show ?thesis by auto
qed



lemma read_done: "record_read_loop cs len off c len priv out = Some (out, len, priv)"
  by (cases c) (simp_all add: record_read_loop.simps(2))

text \<open>
  C35. A read that asks for more than the rest of the file, from a chunk that is not the last one, leaves
  the handle behind: the offset is at the end of the file, yet the next read of one byte does not
  report the end but returns a byte of an earlier chunk.
\<close>

theorem ramfs_read_past_end:
  assumes r: "file_ok r" and f: "handle_ok r f" and l: "unat len < 2 ^ 31" "length (file_bytes r) < unat (f_offset f) + unat len"
    and more: "unat (f_offset f) div 1024 + 1 < length (r_chunks r)"
  shows "\<exists>f' f'' b. ramfs_file_read r f len = Some (f', drop (unat (f_offset f)) (file_bytes r))
    \<and> unat (f_offset f') = length (file_bytes r) \<and> ramfs_file_read r f' 1 = Some (f'', [b])"
proof -
  let ?o = "f_offset f" and ?cs = "r_chunks r" and ?i = "unat (f_offset f) div 1024"
  have c: "chunks_ok ?cs" "length (content ?cs) < 2 ^ 31" "unat ?o \<le> length (content ?cs)" and i: "f_private f = Some ?i" "?i < length ?cs"
    using r f more by (simp_all add: file_ok_def handle_ok_def chunk_at_def)
  have l0: "0 < unat len" using l(2) c(3) by (simp add: file_bytes_def)
  have o: "(unat ?o + 0) div 1024 = ?i" "unat ?o + 0 \<le> length (content ?cs)" and g: "\<not> unat ?o + unat len \<le> length (content ?cs)"
    using c(3) l(2) by (simp_all add: file_bytes_def)
  from record_read_loop_ok [OF c(1,2) l(1) i(2) unat_0 l0 o, of "f_private f" "[]", unfolded if_not_P [OF g]] obtain amt where
    "unat amt = min (unat len) (length (content ?cs) - unat ?o)" "record_read_loop ?cs len ?o (Some ?i) 0 (f_private f) [] =
       Some ([] @ take (unat len - 0) (drop (unat ?o + 0) (content ?cs)), amt, f_private f)" by blast
  then have a: "unat amt = length (content ?cs) - unat ?o" "record_read_loop ?cs len ?o (Some ?i) 0 (f_private f) [] =
       Some (drop (unat ?o) (content ?cs), amt, Some ?i)" using g i(1) by simp_all
  define f' where "f' = \<lparr>f_private = Some ?i, f_offset = ?o + amt\<rparr>"
  have rd: "ramfs_file_read r f len = Some (f', drop (unat ?o) (file_bytes r))"
    using a(2) i(1) by (simp add: ramfs_file_read_def record_read_def file_bytes_def f'_def)
  have o': "unat (f_offset f') = length (content ?cs)" using a(1) c(2,3) by (simp add: f'_def) (subst unat_add_no_wrap; simp)
  let ?q = "f_offset f' mod CHUNK_SIZE"
  have full: "unat (c_used (?cs ! ?i)) = 1024" using content_split(3) [OF chunks_okD(1,2) [OF c(1)] i(2)] more by simp
  have ck: "chunk_ok (?cs ! ?i)" using chunks_okD(1) [OF c(1)] i(2) by auto
  have "unat ?q < 1024" by (simp add: unat_mod_distrib unat_CHUNK_SIZE)
  then have "length (take 1 (drop (unat ?q) (chunk_data (?cs ! ?i)))) = 1" using full length_chunk_data [OF ck] by simp
  then obtain b where b: "take 1 (drop (unat ?q) (chunk_data (?cs ! ?i))) = [b]" by (auto simp: length_Suc_conv simp del: length_take)
  have "chunk_read (?cs ! ?i) 1 ?q = Some [b]"
    using chunk_read_ok [OF ck, of ?q 1] full \<open>unat ?q < 1024\<close> b by simp
  then have "\<exists>pv'. record_read_loop ?cs 1 (f_offset f') (Some ?i) 0 pv [] = Some ([b], 1, pv')" for pv
    by (subst record_read_loop.simps(2)) (simp add: Let_def read_done)
  then obtain pv' where "record_read_loop ?cs 1 (f_offset f') (Some ?i) 0 (f_private f') [] = Some ([b], 1, pv')" by blast
  then have "\<exists>f''. ramfs_file_read r f' 1 = Some (f'', [b])"
    by (simp add: ramfs_file_read_def record_read_def f'_def)
  then show ?thesis using rd o' by (auto simp: file_bytes_def)
qed

definition two_chunks :: ramfile where
  "two_chunks = \<lparr>r_chunks = [\<lparr>c_used = 1024, c_buff = replicate 1024 7\<rparr>, \<lparr>c_used = 10, c_buff = replicate 1024 8\<rparr>], i_size = 1034\<rparr>"

theorem ramfs_read_past_end_witness:
  "\<exists>f' f'' b. ramfs_file_read two_chunks \<lparr>f_private = Some 0, f_offset = 0\<rparr> 2000 = Some (f', replicate 1024 7 @ replicate 10 8)
    \<and> f_offset f' = 1034 \<and> ramfs_file_read two_chunks f' 1 = Some (f'', [b])"
proof -
  have c: "content (r_chunks two_chunks) = replicate 1024 7 @ replicate 10 8" by (simp add: two_chunks_def content_def chunk_data_def)
  have r: "file_ok two_chunks" unfolding file_ok_def c by (simp add: two_chunks_def chunks_ok_def chunk_ok_def)
  have f: "handle_ok two_chunks \<lparr>f_private = Some 0, f_offset = 0\<rparr>" by (simp add: handle_ok_def chunk_at_def two_chunks_def)
  from ramfs_read_past_end [OF r f, of 2000] show ?thesis
    by (simp add: file_bytes_def c) (simp add: two_chunks_def word_unat_eq_iff)
qed

lemma seek_loop_ok:
  "1024 * (i + length cs) < 2 ^ 32 \<Longrightarrow> unat pos = 1024 * i \<Longrightarrow> 1024 * i \<le> unat offset \<Longrightarrow>
   seek_loop cs i pos offset f =
     (if unat offset div 1024 < i + length cs \<and> unat offset mod 1024 \<le> unat (c_used (cs ! (unat offset div 1024 - i)))
      then Some (\<lparr>f_private = Some (unat offset div 1024), f_offset = offset\<rparr>, offset) else None)"
proof (induction cs arbitrary: i pos)
  case Nil
  then show ?case by (simp add: div_less_iff_less_mult less_eq_div_iff_mult_less_eq not_le[symmetric] algebra_simps)
next
  case (Cons c cs)
  define d where "d = unat offset div 1024"
  have d: "i \<le> d" using Cons.prems(3) by (simp add: d_def less_eq_div_iff_mult_less_eq mult.commute)
  have u: "unat (offset - pos) = unat offset - 1024 * i" using Cons.prems by (simp add: unat_diff_le)
  have lt: "offset - pos < CHUNK_SIZE \<longleftrightarrow> d = i"
    using u d Cons.prems(3) by (simp add: word_less_nat_alt unat_CHUNK_SIZE d_def) (metis add.commute div_less_iff_less_mult le_antisym less_Suc_eq_le less_diff_conv2 mult.commute mult_Suc_right zero_less_numeral)
  show ?case
  proof (cases "d = i")
    case True
    then have "unat offset - 1024 * i = unat offset mod 1024" by (simp add: d_def minus_mult_div_eq_mod [symmetric])
    then show ?thesis using lt u True by (simp add: d_def [symmetric] word_less_nat_alt not_less)
  next
    case False
    have p1: "unat (pos + CHUNK_SIZE) = 1024 * Suc i" using Cons.prems by (subst unat_add_no_wrap) (simp_all add: unat_CHUNK_SIZE)
    have "Suc i \<le> d" using d False by simp
    then have le: "1024 * Suc i \<le> unat offset" by (simp add: d_def less_eq_div_iff_mult_less_eq mult.commute)
    have "1024 * (Suc i + length cs) < 2 ^ 32" using Cons.prems(1) by simp
    from Cons.IH [OF this p1 le] show ?thesis using lt False \<open>Suc i \<le> d\<close> by (simp add: d_def [symmetric] Suc_diff_le [symmetric] nth_Cons' )
  qed
qed

text \<open>
  C36. A seek (from the start) succeeds exactly when the offset lies in a chunk, that is, within the file
  and not at the end of a file whose length is a multiple of the chunk size; the handle is then in
  step. Otherwise the kernel halts, in particular on a seek to the start of an empty file.
\<close>

theorem ramfs_seek_domain:
  assumes r: "file_ok r"
  shows "ramfs_file_seek r f offset 0 =
    (if unat offset \<le> length (file_bytes r) \<and> (unat offset = length (file_bytes r) \<longrightarrow> unat offset mod 1024 \<noteq> 0)
     then Some (\<lparr>f_private = chunk_at (length (r_chunks r)) (unat offset), f_offset = offset\<rparr>, offset) else None)"
proof -
  let ?cs = "r_chunks r" and ?d = "unat offset div 1024"
  have c: "chunks_ok ?cs" "length (content ?cs) < 2 ^ 31" using r by (simp_all add: file_ok_def)
  have len: "1024 * length ?cs < 2 ^ 32"
  proof (cases "?cs = []")
    case False
    then obtain l where l: "length ?cs = Suc l" by (cases ?cs) auto
    then have "length (content ?cs) = 1024 * l + unat (c_used (?cs ! l))" by (intro content_bound(2) [OF c(1)]) simp_all
    then show ?thesis using l c(2) by simp
  qed simp
  have "?d < length ?cs \<and> unat offset mod 1024 \<le> unat (c_used (?cs ! ?d)) \<longleftrightarrow>
      unat offset \<le> length (content ?cs) \<and> (unat offset = length (content ?cs) \<longrightarrow> unat offset mod 1024 \<noteq> 0)" (is "?A \<longleftrightarrow> ?B")
  proof
    assume a: ?A
    then have "unat offset \<le> length (content ?cs)" using pos_in_content [OF chunks_okD(1,2) [OF c(1)], of ?d "unat offset mod 1024"] by simp
    moreover have "length (content ?cs) \<noteq> 1024 * ?d"
      using content_bound(1) [OF c(1), of ?d] a chunks_ok_nth [OF c(1)] by (auto simp: unat_eq_zero)
    then have "unat offset = length (content ?cs) \<longrightarrow> unat offset mod 1024 \<noteq> 0" by (metis add_0_right mult_div_mod_eq)
    ultimately show ?B by blast
  next
    assume b: ?B
    then show ?A using chunk_at_in [OF c(1), of "unat offset"] by (cases "?d < length ?cs") auto
  qed
  then show ?thesis using seek_loop_ok [of 0 ?cs 0 offset f] len
    by (auto simp: ramfs_file_seek_def file_bytes_def chunk_at_def)
qed

theorem ramfs_seek_domain_witness:
  "ramfs_file_seek record_create \<lparr>f_private = None, f_offset = 0\<rparr> 0 0 = None
   \<and> ramfs_file_seek one_chunk \<lparr>f_private = Some 0, f_offset = 0\<rparr> 1000 0 = Some (\<lparr>f_private = Some 0, f_offset = 1000\<rparr>, 1000)"
proof -
  have "file_ok record_create" by (simp add: record_create_def file_ok_def chunks_ok_def content_def)
  from ramfs_seek_domain [OF this] ramfs_seek_domain [OF one_chunk_ok(1)] show ?thesis
    by (simp add: file_bytes_def one_chunk_ok chunk_at_def) (simp add: record_create_def content_def one_chunk_def)
qed

end
