(* ===== verification/Object_Cache.thy ===== *)
theory Object_Cache
  imports Slab_Cache
begin

text \<open>
  Slab caches as their clients see them: \<^verbatim>\<open>cache_alloc\<close> and \<^verbatim>\<open>cache_free\<close> of \<^verbatim>\<open>mm/cache.c\<close> hand out and
  take back addresses, and the addresses a cache has handed out are a set. The laws are a locale, its
  model is the slab allocator of \<^theory_text>\<open>Slab_Cache\<close>.
\<close>

definition objs :: "heap \<Rightarrow> u32 \<Rightarrow> u32 set" where
  "objs h c = (\<lambda>(a, i). obj_addr (h_cache h c) a i) ` live_objs h c"

definition cache_room :: "u32 \<Rightarrow> heap \<Rightarrow> bool" where
  "cache_room c h = (c_partial (h_cache h c) \<noteq> [] \<or> c_empty (h_cache h c) \<noteq> []
     \<or> room_for (vm_mm (h_vm h)) 1 \<and> unat (kernel_next_page (vm_map (h_vm h))) < KERNEL_PAGES)"

locale object_caches =
  fixes inv :: "'h \<Rightarrow> bool" and caches :: "u32 set" and live :: "'h \<Rightarrow> u32 \<Rightarrow> u32 set"
    and room :: "u32 \<Rightarrow> 'h \<Rightarrow> bool" and alloc :: "u32 \<Rightarrow> 'h \<Rightarrow> ('h \<times> u32) option" and free :: "u32 \<Rightarrow> u32 \<Rightarrow> 'h \<Rightarrow> 'h option"
  assumes not_null: "inv h \<Longrightarrow> c \<in> caches \<Longrightarrow> p \<in> live h c \<Longrightarrow> p \<noteq> 0"
    and alloc_new: "inv h \<Longrightarrow> c \<in> caches \<Longrightarrow> room c h \<Longrightarrow> \<exists>h' p. alloc c h = Some (h', p) \<and> inv h' \<and> p \<notin> live h c
      \<and> live h' c = insert p (live h c) \<and> (\<forall>d\<in>caches. d \<noteq> c \<longrightarrow> live h' d = live h d)"
    and free_live: "inv h \<Longrightarrow> c \<in> caches \<Longrightarrow> p \<in> live h c \<Longrightarrow> \<exists>h'. free c p h = Some h' \<and> inv h'
      \<and> live h' c = live h c - {p} \<and> (\<forall>d\<in>caches. d \<noteq> c \<longrightarrow> live h' d = live h d)"
begin

text \<open>An object that is allocated and given back leaves every cache with the objects it had.\<close>

lemma alloc_free:
  assumes "inv h" and "c \<in> caches" and "room c h"
  shows "\<exists>h1 p h2. alloc c h = Some (h1, p) \<and> p \<noteq> 0 \<and> p \<notin> live h c \<and> free c p h1 = Some h2 \<and> inv h2 \<and> (\<forall>d\<in>caches. live h2 d = live h d)"
proof -
  obtain h1 p where a: "alloc c h = Some (h1, p)" "inv h1" "p \<notin> live h c" "live h1 c = insert p (live h c)"
    "\<forall>d\<in>caches. d \<noteq> c \<longrightarrow> live h1 d = live h d"
    using alloc_new [OF assms] by blast
  then obtain h2 where f: "free c p h1 = Some h2" "inv h2" "live h2 c = live h1 c - {p}" "\<forall>d\<in>caches. d \<noteq> c \<longrightarrow> live h2 d = live h1 d"
    using free_live [of h1 c p] assms(2) by blast
  have "live h2 d = live h d" if "d \<in> caches" for d using a(3,4,5) f(3,4) that by (cases "d = c") auto
  then show ?thesis using a f not_null [OF a(2) assms(2), of p] by blast
qed

end

lemma obj_addr_inj:
  assumes inv: "heap_inv h C L" and c: "c \<in> C" and o: "(a, i) \<in> live_objs h c" "(b, j) \<in> live_objs h c"
    and eq: "obj_addr (h_cache h c) a i = obj_addr (h_cache h c) b j"
  shows "a = b \<and> i = j"
proof -
  let ?k = "h_cache h c"
  have g: "mem_to_cache_page (obj_addr ?k x y) = x" "(obj_addr ?k x y - (x + sizeof_cache_page + 4 * c_max ?k)) div c_size ?k = y"
    if "(x, y) \<in> live_objs h c" for x y
    using obj_geometry(3,4) [OF heap_invD(1) [OF inv c] cp_backed_aligned, of h x y] heap_invD(3) [OF inv c, of x] that
    by (auto simp: live_objs_def cp_live_def)
  show ?thesis using g [OF o(1)] g [OF o(2)] eq by metis
qed

lemma objs_cong:
  assumes "\<And>d. c_size (h_cache h' d) = c_size (h_cache h d) \<and> c_max (h_cache h' d) = c_max (h_cache h d)"
  shows "objs h' c = (\<lambda>(a, i). obj_addr (h_cache h c) a i) ` live_objs h' c"
  using assms [of c] by (auto simp: objs_def obj_addr_def)

interpretation slab: object_caches "\<lambda>h. heap_inv h C L" C objs cache_room cache_alloc cache_free for C L
proof (unfold_locales, goal_cases)
  case (1 h c p)
  then show ?case using obj_addr_base(3) [of h C L c] by (auto simp: objs_def)
next
  case (2 h c)
  then obtain h' a i where a: "cache_alloc c h = Some (h', obj_addr (h_cache h c) a i)" "heap_inv h' C L" "obj_alloc_effect h h' C c a i"
    using cache_alloc_ok [of h C L c] unfolding cache_room_def by blast
  note e = a(3) [unfolded obj_alloc_effect_def]
  have o: "objs h' d = (\<lambda>(a, i). obj_addr (h_cache h d) a i) ` live_objs h' d" for d by (rule objs_cong) (use e in blast)
  have s: "obj_addr (h_cache h' c) x y = obj_addr (h_cache h c) x y" for x y using e by (simp add: obj_addr_def)
  have "obj_addr (h_cache h c) a i \<notin> objs h c"
  proof
    assume "obj_addr (h_cache h c) a i \<in> objs h c"
    then obtain b j where "(b, j) \<in> live_objs h c" "obj_addr (h_cache h c) a i = obj_addr (h_cache h c) b j" by (auto simp: objs_def)
    then show False using obj_addr_inj [OF a(2) 2(2), of a i b j] e by (auto simp: s)
  qed
  moreover have "objs h' c = insert (obj_addr (h_cache h c) a i) (objs h c)" unfolding o using e by (simp add: objs_def)
  moreover have "\<forall>d\<in>C. d \<noteq> c \<longrightarrow> objs h' d = objs h d" unfolding o using e by (simp add: objs_def)
  ultimately show ?case using a(1,2) by blast
next
  case (3 h c p)
  then obtain a i where p: "(a, i) \<in> live_objs h c" "p = obj_addr (h_cache h c) a i" by (auto simp: objs_def)
  obtain h' where f: "cache_free c p h = Some h'" "heap_inv h' C L" "obj_free_effect h h' C c a i"
    using cache_free_ok [OF 3(1,2) p(1)] p(2) by blast
  note e = f(3) [unfolded obj_free_effect_def]
  have o: "objs h' d = (\<lambda>(a, i). obj_addr (h_cache h d) a i) ` live_objs h' d" for d by (rule objs_cong) (use e in blast)
  have "objs h' c = objs h c - {p}"
    unfolding o using e obj_addr_inj [OF 3(1,2) p(1)] p by (auto simp: objs_def dest: sym)
  moreover have "\<forall>d\<in>C. d \<noteq> c \<longrightarrow> objs h' d = objs h d" unfolding o using e by (simp add: objs_def)
  ultimately show ?case using f(1,2) by blast
qed

lemma cache_alloc_new:
  assumes inv: "heap_inv h C L" and c: "c \<in> C" and a: "cache_alloc c h = Some (h', p)"
  shows "heap_inv h' C L" and "p \<notin> objs h c" and "objs h' c = insert p (objs h c)" and "d \<in> C \<Longrightarrow> d \<noteq> c \<Longrightarrow> objs h' d = objs h d" and "p \<noteq> 0"
proof -
  have "cache_room c h" unfolding cache_room_def by (rule cache_alloc_needs [OF inv c a])
  from slab.alloc_new [OF inv c this] a
  have r: "heap_inv h' C L \<and> p \<notin> objs h c \<and> objs h' c = insert p (objs h c) \<and> (\<forall>d\<in>C. d \<noteq> c \<longrightarrow> objs h' d = objs h d)" by auto
  then show "heap_inv h' C L" "p \<notin> objs h c" "objs h' c = insert p (objs h c)" "d \<in> C \<Longrightarrow> d \<noteq> c \<Longrightarrow> objs h' d = objs h d" by blast+
  show "p \<noteq> 0" using slab.not_null [of h' C L c p] r c by blast
qed

text \<open>
  With \<open>n\<close> free pages and as much room in the kernel's address space, \<open>n\<close> allocations succeed, from
  whatever caches.
\<close>

definition plenty :: "nat \<Rightarrow> heap \<Rightarrow> bool" where
  "plenty n h = ((\<exists>S. finite S \<and> card S = n \<and> (\<forall>p\<in>S. p < NUM_PAGES \<and> is_free (vm_mm (h_vm h)) p))
     \<and> unat (kernel_next_page (vm_map (h_vm h))) + n \<le> KERNEL_PAGES)"

lemma plenty_less:
  assumes "plenty (Suc n) h" shows "plenty n h"
proof -
  obtain S where S: "finite S" "card S = Suc n" "\<forall>p\<in>S. p < NUM_PAGES \<and> is_free (vm_mm (h_vm h)) p" using assms by (auto simp: plenty_def)
  then obtain p where "p \<in> S" by fastforce
  then have "finite (S - {p}) \<and> card (S - {p}) = n \<and> (\<forall>q\<in>S - {p}. q < NUM_PAGES \<and> is_free (vm_mm (h_vm h)) q)" using S by simp
  then show ?thesis using assms unfolding plenty_def by (intro conjI exI [of _ "S - {p}"]) auto
qed

lemma plenty_room: "plenty (Suc n) h \<Longrightarrow> cache_room c h"
proof -
  assume p: "plenty (Suc n) h"
  then obtain S where "card S = Suc n" "\<forall>p\<in>S. p < NUM_PAGES \<and> is_free (vm_mm (h_vm h)) p" by (auto simp: plenty_def)
  moreover from this obtain q where "q \<in> S" by fastforce
  ultimately have "q < NUM_PAGES \<and> is_free (vm_mm (h_vm h)) q" by blast
  then have "room_for (vm_mm (h_vm h)) 1" unfolding room_for_def by (intro exI [of _ 0] exI [of _ q]) (simp add: blk_def)
  then show ?thesis using p by (simp add: cache_room_def plenty_def)
qed

lemma alloc_plenty:
  assumes inv: "heap_inv h C L" and c: "c \<in> C" and p: "plenty (Suc n) h"
  shows "\<exists>h' q. cache_alloc c h = Some (h', q) \<and> plenty n h'"
proof -
  obtain h' a i where a: "cache_alloc c h = Some (h', obj_addr (h_cache h c) a i)" and e: "obj_alloc_effect h h' C c a i"
    using cache_alloc_ok [OF inv c] plenty_room [OF p, of c] unfolding cache_room_def by blast
  have "plenty n h'"
  proof (cases "h_vm h' = h_vm h")
    case True
    then have "plenty (Suc n) h'" using p by (simp add: plenty_def)
    then show ?thesis by (rule plenty_less)
  next
    case False
    then obtain q where q: "alloc_pages_effect (h_vm h) (h_vm h') q 1 ALLOC_CACHE" using e by (auto simp: obj_alloc_effect_def)
    obtain S where S: "finite S" "card S = Suc n" "\<forall>p\<in>S. p < NUM_PAGES \<and> is_free (vm_mm (h_vm h)) p" using p by (auto simp: plenty_def)
    have f: "is_free (vm_mm (h_vm h')) r" if "r \<in> S - {q}" for r
      using that S(3) q by (auto simp: alloc_pages_effect_def run_pages_def is_free_def)
    have "n \<le> card (S - {q})" using S(1,2) by (cases "q \<in> S") auto
    then obtain T where T: "T \<subseteq> S - {q}" "card T = n" "finite T" using obtain_subset_with_card_n by metis
    then have "finite T \<and> card T = n \<and> (\<forall>p\<in>T. p < NUM_PAGES \<and> is_free (vm_mm (h_vm h')) p)" using S(3) f by blast
    moreover have "unat (kernel_next_page (vm_map (h_vm h'))) + n \<le> KERNEL_PAGES"
      using p q by (simp add: plenty_def alloc_pages_effect_def)
    ultimately show ?thesis unfolding plenty_def by blast
  qed
  then show ?thesis using a by blast
qed

lemma free_plenty:
  assumes inv: "heap_inv h C L" and c: "c \<in> C" and q: "q \<in> objs h c"
  shows "\<exists>h'. cache_free c q h = Some h' \<and> heap_inv h' C L \<and> (plenty n h \<longrightarrow> plenty n h')"
proof -
  obtain a i where "(a, i) \<in> live_objs h c" "q = obj_addr (h_cache h c) a i" using q by (auto simp: objs_def)
  then show ?thesis using cache_free_ok [OF inv c, of a i] by (auto simp: obj_free_effect_def plenty_def)
qed

lemma small_heap_plenty: "plenty 8 small_heap"
proof -
  have "h_vm small_heap = small_vm" by (simp add: small_heap_def)
  moreover have "finite {8..<16::nat} \<and> card {8..<16::nat} = 8 \<and> (\<forall>p\<in>{8..<16}. p < NUM_PAGES \<and> is_free (vm_mm small_vm) p)"
    by (auto simp: small_vm_def small_machine(3) NUM_PAGES_def NUM_ENTRIES_def)
  ultimately show ?thesis unfolding plenty_def by (intro conjI exI [of _ "{8..<16}"]) (simp_all add: KERNEL_PAGES_def)
qed

lemma small_heap_inv: "heap_inv small_heap (set [3, 4, 5, 6, 7, 8, 9, 10, 11]) {}"
proof -
  obtain K where K: "kheap_inv small_heap (set [3, 4, 5, 6, 7, 8, 9, 10, 11]) {} K" "{} = kblock small_heap ` ktags small_heap (set [3, 4, 5, 6, 7, 8, 9, 10, 11]) K"
    using small_heap_spec unfolding kheap_spec_def by blast
  then have "K = {}" by (auto simp: ktags_def)
  then show ?thesis using kheap_invD(1) [OF K(1)] by simp
qed

end
