(* ===== verification/Task.thy ===== *)
theory Task
  imports Object_Cache
begin

text \<open>
  Tasks, their contexts and the tables of open files: \<^verbatim>\<open>inc/sched/task.h\<close>, \<^verbatim>\<open>fs/fd.c\<close> and the part
  of \<^verbatim>\<open>sched/sched.c\<close> that manages descriptor tables, file system contexts, task nodes, sessions and
  process groups. Objects live at the addresses the kernel heap hands out; the kernel's intrusive
  lists are lists of such addresses, the first element first. Each function runs under the locks it
  takes, so it is one step.
\<close>

section \<open>Error numbers\<close>

text \<open>Functions return the negated number.\<close>

definition EPERM :: u32 where "EPERM = 1"
definition ENOENT :: u32 where "ENOENT = 2"
definition ESRCH :: u32 where "ESRCH = 3"
definition EINTR :: u32 where "EINTR = 4"
definition EBADF :: u32 where "EBADF = 9"
definition EACCES :: u32 where "EACCES = 13"
definition EFAULT :: u32 where "EFAULT = 14"
definition EEXIST :: u32 where "EEXIST = 17"
definition ENOTDIR :: u32 where "ENOTDIR = 20"
definition EISDIR :: u32 where "EISDIR = 21"
definition EINVAL :: u32 where "EINVAL = 22"
definition ENOSYS :: u32 where "ENOSYS = 88"

section \<open>Data\<close>

datatype thread_state = BUILDING | AWAKE | SLEEPING | EXITED | IDLE

datatype exit_state = TASK_RUNNING | TASK_EXITING | TASK_EXITED

definition THREAD_FLAG_KERNEL :: u32 where "THREAD_FLAG_KERNEL = 1"
definition THREAD_FLAG_FORKED :: u32 where "THREAD_FLAG_FORKED = 2"
definition THREAD_FLAG_INSEM :: u32 where "THREAD_FLAG_INSEM = 4"

record path =
  p_mount :: u32
  p_dentry :: u32

record ufd =
  u_flags :: u32
  u_gfd :: u32

record ufd_context =
  uc_refs :: u32
  uc_table :: "nat \<Rightarrow> ufd"
  uc_mem :: u32

record fs_context =
  fc_refs :: u32
  fc_root :: path
  fc_pwd :: path

record group =
  g_leader :: u32
  g_members :: "u32 list"

record sigaction =
  sa_flags :: u32
  sa_mask :: u32
  sa_handler :: u32

record task_node =
  n_refs :: u32
  n_pid :: u32
  n_parent :: u32
  n_argv :: u32
  n_envp :: u32
  n_exit_state :: exit_state
  n_exit_code :: u32
  n_exit_cause :: u8
  n_sigtramp :: u32
  n_sigactions :: "nat \<Rightarrow> sigaction"
  n_sig_mask :: u32
  n_session :: u32
  n_pgroup :: u32
  n_threads :: "u32 list"
  n_children :: "u32 list"
  n_zombies :: "u32 list"
  n_zombie_on :: bool

record thread =
  t_ufd :: u32
  t_fs :: u32
  t_node :: u32
  t_active :: bool
  t_flags :: u32
  t_state :: thread_state
  t_sig_pending :: u32
  t_should_die :: bool

text \<open>
  The global variables. \<open>closed\<close> records the calls of \<^verbatim>\<open>f->ops->close\<close> in order, newest first; the
  operations behind it belong to the file systems. \<^verbatim>\<open>current\<close>, \<^verbatim>\<open>idle_task\<close> and \<^verbatim>\<open>switch_time\<close>
  exist once per processor.
\<close>

record kernel =
  k_heap :: heap
  thr :: "u32 \<Rightarrow> thread"
  nodes :: "u32 \<Rightarrow> task_node"
  ufdcs :: "u32 \<Rightarrow> ufd_context"
  fscs :: "u32 \<Rightarrow> fs_context"
  file_refs :: "u32 \<Rightarrow> u32"
  gfdt_entries_in_use :: u32
  closed :: "u32 list"
  psessions :: "u32 \<Rightarrow> group"
  pgroups_at :: "u32 \<Rightarrow> group"
  threads :: "u32 list"
  queued_threads :: "u32 list"
  poll_threads :: "u32 list"
  tasks :: "u32 list"
  sessions :: "u32 list"
  pgroups :: "u32 list"
  next_pid :: u32
  thread_count :: u32
  suspended_threads :: u32
  tasks_going :: u32
  tasking_up :: bool
  init_node :: u32
  root_path :: path
  file_cache :: u32
  current :: "nat \<Rightarrow> u32"
  idle_task :: "nat \<Rightarrow> u32"
  switch_time :: "nat \<Rightarrow> u64"

text \<open>
  Linking an element into a list it is already in, or taking one out of a list it is not in, would
  leave the pointers of the list inconsistent; both are failures of the model.
\<close>

definition link :: "u32 \<Rightarrow> u32 list \<Rightarrow> u32 list option" where
  "link x xs = (if x \<in> set xs then None else Some (x # xs))"

definition unlink :: "u32 \<Rightarrow> u32 list \<Rightarrow> u32 list option" where
  "unlink x xs = (if x \<in> set xs then Some (remove1 x xs) else None)"

definition upd_thr :: "u32 \<Rightarrow> (thread \<Rightarrow> thread) \<Rightarrow> kernel \<Rightarrow> kernel" where
  "upd_thr t f s = s\<lparr>thr := (thr s)(t := f (thr s t))\<rparr>"

definition upd_node :: "u32 \<Rightarrow> (task_node \<Rightarrow> task_node) \<Rightarrow> kernel \<Rightarrow> kernel" where
  "upd_node n f s = s\<lparr>nodes := (nodes s)(n := f (nodes s n))\<rparr>"

definition upd_ufdc :: "u32 \<Rightarrow> (ufd_context \<Rightarrow> ufd_context) \<Rightarrow> kernel \<Rightarrow> kernel" where
  "upd_ufdc u f s = s\<lparr>ufdcs := (ufdcs s)(u := f (ufdcs s u))\<rparr>"

definition upd_fsc :: "u32 \<Rightarrow> (fs_context \<Rightarrow> fs_context) \<Rightarrow> kernel \<Rightarrow> kernel" where
  "upd_fsc u f s = s\<lparr>fscs := (fscs s)(u := f (fscs s u))\<rparr>"

definition upd_session :: "u32 \<Rightarrow> (group \<Rightarrow> group) \<Rightarrow> kernel \<Rightarrow> kernel" where
  "upd_session g f s = s\<lparr>psessions := (psessions s)(g := f (psessions s g))\<rparr>"

definition upd_pgroup :: "u32 \<Rightarrow> (group \<Rightarrow> group) \<Rightarrow> kernel \<Rightarrow> kernel" where
  "upd_pgroup g f s = s\<lparr>pgroups_at := (pgroups_at s)(g := f (pgroups_at s g))\<rparr>"

definition k_kmalloc :: "u32 \<Rightarrow> kernel \<Rightarrow> (kernel \<times> u32) option" where
  "k_kmalloc sz s = do { (h, p) \<leftarrow> kmalloc sz (k_heap s); Some (s\<lparr>k_heap := h\<rparr>, p) }"

definition k_kfree :: "u32 \<Rightarrow> kernel \<Rightarrow> kernel option" where
  "k_kfree p s = do { h \<leftarrow> kfree p (k_heap s); Some (s\<lparr>k_heap := h\<rparr>) }"

section \<open>The global file table\<close>

definition gfdt_obtain :: "kernel \<Rightarrow> (kernel \<times> u32) option" where
  "gfdt_obtain s = do {
     (h, f) \<leftarrow> cache_alloc (file_cache s) (k_heap s);
     Some (s\<lparr>k_heap := h, gfdt_entries_in_use := gfdt_entries_in_use s + 1, file_refs := (file_refs s)(f := 0)\<rparr>, f) }"

definition gfdt_get :: "u32 \<Rightarrow> kernel \<Rightarrow> kernel" where
  "gfdt_get f s = s\<lparr>file_refs := (file_refs s)(f := file_refs s f + 1)\<rparr>"

definition gfdt_free :: "u32 \<Rightarrow> kernel \<Rightarrow> kernel option" where
  "gfdt_free f s = do {
     h \<leftarrow> cache_free (file_cache s) f (k_heap s);
     Some (s\<lparr>k_heap := h, closed := f # closed s, gfdt_entries_in_use := gfdt_entries_in_use s - 1\<rparr>) }"

definition gfdt_put :: "u32 \<Rightarrow> kernel \<Rightarrow> kernel option" where
  "gfdt_put f s =
     (let r = (if file_refs s f \<noteq> 0 then file_refs s f - 1 else 0); s1 = s\<lparr>file_refs := (file_refs s)(f := r)\<rparr>
      in if r = 0 then gfdt_free f s1 else Some s1)"

section \<open>Descriptor tables\<close>

definition UFD_INVALID :: u32 where "UFD_INVALID = - 1"

definition MAX_NUM_FDS :: u32 where
  "MAX_NUM_FDS = (let n = PAGE_SIZE div 8 in if n < UFD_INVALID then n else UFD_INVALID)"

definition UFDT_PAGES :: u32 where "UFDT_PAGES = 1"

definition ufdt_is_present :: "ufd_context \<Rightarrow> u32 \<Rightarrow> bool" where
  "ufdt_is_present ufds i = (i < MAX_NUM_FDS \<and> u_gfd (uc_table ufds (unat i)) \<noteq> 0)"

text \<open>
  The loops that fill a new table stop before its last entry; \<open>junk\<close> is what the new memory held
  there.
\<close>

definition ufd_context_build :: "ufd \<Rightarrow> kernel \<Rightarrow> (kernel \<times> u32) option" where
  "ufd_context_build junk s = do {
     (s1, u) \<leftarrow> k_kmalloc 24 s;
     (s2, tab) \<leftarrow> k_kmalloc (UFDT_PAGES * PAGE_SIZE) s1;
     Some (upd_ufdc u (\<lambda>_. \<lparr>uc_refs = 1,
        uc_table = (\<lambda>i. if i < unat (MAX_NUM_FDS - 1) then \<lparr>u_flags = 0, u_gfd = 0\<rparr> else junk), uc_mem = tab\<rparr>) s2, u) }"

fun destroy_loop :: "u32 \<Rightarrow> u32 \<Rightarrow> nat \<Rightarrow> kernel \<Rightarrow> kernel option" where
  "destroy_loop u i 0 s = Some s"
| "destroy_loop u i (Suc n) s = do {
     s1 \<leftarrow> (if ufdt_is_present (ufdcs s u) i then gfdt_put (u_gfd (uc_table (ufdcs s u) (unat i))) s else Some s);
     destroy_loop u (i + 1) n s1 }"

definition ufd_context_destroy :: "u32 \<Rightarrow> kernel \<Rightarrow> kernel option" where
  "ufd_context_destroy u s = do {
     s1 \<leftarrow> destroy_loop u 0 (unat MAX_NUM_FDS) s;
     s2 \<leftarrow> k_kfree (uc_mem (ufdcs s u)) s1;
     k_kfree u s2 }"

fun dup_loop :: "u32 \<Rightarrow> u32 \<Rightarrow> u32 \<Rightarrow> nat \<Rightarrow> kernel \<Rightarrow> kernel" where
  "dup_loop src dst i 0 s = s"
| "dup_loop src dst i (Suc n) s =
     (let e = uc_table (ufdcs s src) (unat i);
          s1 = (if ufdt_is_present (ufdcs s src) i then gfdt_get (u_gfd e) s else s)
      in dup_loop src dst (i + 1) n (upd_ufdc dst (\<lambda>u. u\<lparr>uc_table := (uc_table u)(unat i := e)\<rparr>) s1))"

definition ufd_context_dup :: "ufd \<Rightarrow> u32 \<Rightarrow> kernel \<Rightarrow> (kernel \<times> u32) option" where
  "ufd_context_dup junk src s = do {
     (s1, dst) \<leftarrow> k_kmalloc 24 s;
     (s2, tab) \<leftarrow> k_kmalloc (UFDT_PAGES * PAGE_SIZE) s1;
     let s3 = upd_ufdc dst (\<lambda>_. \<lparr>uc_refs = 1, uc_table = (\<lambda>_. junk), uc_mem = tab\<rparr>) s2;
     Some (dup_loop src dst 0 (unat (MAX_NUM_FDS - 1)) s3, dst) }"

definition obtain_ufds :: "u32 \<Rightarrow> kernel \<Rightarrow> u32" where
  "obtain_ufds t s = t_ufd (thr s t)"

text \<open>The lock inside the context is taken before the pointer is tested, so a null pointer is a fault.\<close>

definition get_ufds :: "u32 \<Rightarrow> kernel \<Rightarrow> (kernel \<times> u32) option" where
  "get_ufds t s =
     (let u = obtain_ufds t s
      in do { bug_on (u = 0); Some (upd_ufdc u (\<lambda>c. c\<lparr>uc_refs := uc_refs c + 1\<rparr>) s, u) })"

text \<open>The new count is taken before the decrement.\<close>

definition put_ufds :: "u32 \<Rightarrow> kernel \<Rightarrow> kernel option" where
  "put_ufds t s =
     (let u = t_ufd (thr s t); s1 = upd_thr t (\<lambda>x. x\<lparr>t_ufd := 0\<rparr>) s
      in if u = 0 then Some s1
         else let newrefs = uc_refs (ufdcs s1 u); s2 = upd_ufdc u (\<lambda>c. c\<lparr>uc_refs := uc_refs c - 1\<rparr>) s1
              in if newrefs = 0 then ufd_context_destroy u s2 else Some s2)"

fun find_next_loop :: "ufd_context \<Rightarrow> u32 \<Rightarrow> nat \<Rightarrow> u32" where
  "find_next_loop ufds idx 0 = UFD_INVALID"
| "find_next_loop ufds idx (Suc n) = (if \<not> ufdt_is_present ufds idx then idx else find_next_loop ufds (idx + 1) n)"

definition ufdt_find_next :: "ufd_context \<Rightarrow> u32" where
  "ufdt_find_next ufds = find_next_loop ufds 0 (unat MAX_NUM_FDS)"

text \<open>A write outside the memory of the table is a failure.\<close>

definition ufdt_install :: "u32 \<Rightarrow> u32 \<Rightarrow> u32 \<Rightarrow> kernel \<Rightarrow> kernel option" where
  "ufdt_install u idx gfd s =
     (if idx < UFDT_PAGES * PAGE_SIZE div 8
      then Some (upd_ufdc u (\<lambda>c. c\<lparr>uc_table := (uc_table c)(unat idx := \<lparr>u_flags = 0, u_gfd = gfd\<rparr>)\<rparr>) (gfdt_get gfd s))
      else None)"

definition ufdt_add :: "nat \<Rightarrow> u32 \<Rightarrow> kernel \<Rightarrow> (kernel \<times> u32) option" where
  "ufdt_add cpu gfd s =
     (let u = obtain_ufds (current s cpu) s; added = ufdt_find_next (ufdcs s u)
      in do { s1 \<leftarrow> (if added \<noteq> UFD_INVALID then ufdt_install u added gfd s else Some s); Some (s1, added) })"

definition do_ufdt_close :: "u32 \<Rightarrow> u32 \<Rightarrow> kernel \<Rightarrow> kernel option" where
  "do_ufdt_close u i s = do {
     s1 \<leftarrow> gfdt_put (u_gfd (uc_table (ufdcs s u) (unat i))) s;
     Some (upd_ufdc u (\<lambda>c. c\<lparr>uc_table := (uc_table c)(unat i := \<lparr>u_flags = 0, u_gfd = 0\<rparr>)\<rparr>) s1) }"

definition ufdt_close :: "nat \<Rightarrow> u32 \<Rightarrow> kernel \<Rightarrow> (kernel \<times> u32) option" where
  "ufdt_close cpu i s =
     (let u = obtain_ufds (current s cpu) s
      in if \<not> ufdt_is_present (ufdcs s u) i then Some (s, - EBADF)
         else do { s1 \<leftarrow> do_ufdt_close u i s; Some (s1, 0) })"

definition ufdt_replace :: "nat \<Rightarrow> u32 \<Rightarrow> u32 \<Rightarrow> kernel \<Rightarrow> (kernel \<times> u32) option" where
  "ufdt_replace cpu i fd s =
     (let u = obtain_ufds (current s cpu) s
      in do {
        s1 \<leftarrow> (if ufdt_is_present (ufdcs s u) i then do_ufdt_close u i s else Some s);
        s2 \<leftarrow> ufdt_install u i fd s1;
        Some (s2, 0) })"

definition ufdt_valid :: "nat \<Rightarrow> u32 \<Rightarrow> kernel \<Rightarrow> bool" where
  "ufdt_valid cpu i s =
     (if MAX_NUM_FDS \<le> i then False
      else u_gfd (uc_table (ufdcs s (obtain_ufds (current s cpu) s)) (unat i)) \<noteq> 0)"

definition ufdt_get :: "nat \<Rightarrow> u32 \<Rightarrow> kernel \<Rightarrow> u32" where
  "ufdt_get cpu i s =
     (let ufds = ufdcs s (obtain_ufds (current s cpu) s)
      in if ufdt_is_present ufds i then u_gfd (uc_table ufds (unat i)) else 0)"

section \<open>File system contexts\<close>

definition fs_context_build :: "kernel \<Rightarrow> (kernel \<times> u32) option" where
  "fs_context_build s = do {
     (s1, p) \<leftarrow> k_kmalloc 36 s;
     Some (upd_fsc p (\<lambda>_. \<lparr>fc_refs = 1, fc_root = root_path s, fc_pwd = root_path s\<rparr>) s1, p) }"

definition fs_context_dup :: "u32 \<Rightarrow> kernel \<Rightarrow> (kernel \<times> u32) option" where
  "fs_context_dup src s = do {
     (s1, dst) \<leftarrow> k_kmalloc 36 s;
     Some (upd_fsc dst (\<lambda>_. \<lparr>fc_refs = 1, fc_root = fc_root (fscs s1 src), fc_pwd = fc_pwd (fscs s1 src)\<rparr>) s1, dst) }"

definition fs_context_destroy :: "u32 \<Rightarrow> kernel \<Rightarrow> kernel option" where
  "fs_context_destroy p s = k_kfree p s"

definition put_fs_context :: "u32 \<Rightarrow> kernel \<Rightarrow> kernel option" where
  "put_fs_context t s =
     (let p = t_fs (thr s t); s1 = upd_thr t (\<lambda>x. x\<lparr>t_fs := 0\<rparr>) s
      in if p = 0 then Some s1
         else let newrefs = fc_refs (fscs s1 p); s2 = upd_fsc p (\<lambda>c. c\<lparr>fc_refs := fc_refs c - 1\<rparr>) s1
              in if newrefs = 0 then fs_context_destroy p s2 else Some s2)"

section \<open>Task nodes, sessions and process groups\<close>

definition obtain_task_node :: "u32 \<Rightarrow> kernel \<Rightarrow> u32" where
  "obtain_task_node t s = t_node (thr s t)"

definition obtain_fs_context :: "u32 \<Rightarrow> kernel \<Rightarrow> u32" where
  "obtain_fs_context t s = t_fs (thr s t)"

text \<open>The lock of an exiting node is not taken; otherwise the spinning ends with the lock.\<close>

definition task_node_ensure_not_exiting :: "u32 \<Rightarrow> kernel \<Rightarrow> bool" where
  "task_node_ensure_not_exiting n s = (n_exit_state (nodes s n) = TASK_RUNNING)"

definition task_node_get :: "u32 \<Rightarrow> kernel \<Rightarrow> kernel option" where
  "task_node_get n s = do {
     bug_on (n_refs (nodes s n) = 0);
     Some (upd_node n (\<lambda>x. x\<lparr>n_refs := n_refs x + 1\<rparr>) s) }"

definition task_node_destroy :: "u32 \<Rightarrow> kernel \<Rightarrow> kernel option" where
  "task_node_destroy n s = None"

definition task_node_put :: "u32 \<Rightarrow> kernel \<Rightarrow> kernel option" where
  "task_node_put n s = do {
     bug_on (n_refs (nodes s n) = 0);
     let s1 = upd_node n (\<lambda>x. x\<lparr>n_refs := n_refs x - 1\<rparr>) s;
     if n_refs (nodes s1 n) = 0 then task_node_destroy n s1 else Some s1 }"

definition get_task_node :: "u32 \<Rightarrow> kernel \<Rightarrow> kernel \<times> u32" where
  "get_task_node t s =
     (let n = obtain_task_node t s in (if n \<noteq> 0 then upd_node n (\<lambda>x. x\<lparr>n_refs := n_refs x + 1\<rparr>) s else s, n))"

definition put_task_node :: "u32 \<Rightarrow> kernel \<Rightarrow> kernel" where
  "put_task_node t s =
     (let n = obtain_task_node t s in if n \<noteq> 0 then upd_node n (\<lambda>x. x\<lparr>n_refs := n_refs x - 1\<rparr>) s else s)"

text \<open>
  The search leaves its loop variable at the list head when nothing is found, and the reference is
  taken before that is tested: the head read as a task node is the argument \<open>head_node\<close>, the
  address from which the head's place in a node would be the list field.
\<close>

fun find_pid :: "kernel \<Rightarrow> u32 \<Rightarrow> u32 list \<Rightarrow> u32 option" where
  "find_pid s pid [] = None"
| "find_pid s pid (t # ts) = (if n_pid (nodes s t) = pid then Some t else find_pid s pid ts)"

definition task_node_find :: "u32 \<Rightarrow> u32 \<Rightarrow> kernel \<Rightarrow> (kernel \<times> u32) option" where
  "task_node_find head_node pid s =
     (case find_pid s pid (tasks s) of
        Some t \<Rightarrow> do { s1 \<leftarrow> task_node_get t s; Some (s1, t) }
      | None \<Rightarrow> do { s1 \<leftarrow> task_node_get head_node s; Some (s1, 0) })"

definition session_add :: "u32 \<Rightarrow> u32 \<Rightarrow> kernel \<Rightarrow> kernel option" where
  "session_add new g s = do {
     s1 \<leftarrow> task_node_get (g_leader (psessions s g)) s;
     let s2 = upd_node new (\<lambda>x. x\<lparr>n_session := g\<rparr>) s1;
     ms \<leftarrow> link new (g_members (psessions s2 g));
     Some (upd_session g (\<lambda>x. x\<lparr>g_members := ms\<rparr>) s2) }"

definition session_create :: "u32 \<Rightarrow> kernel \<Rightarrow> kernel option" where
  "session_create t s = do {
     (s1, g) \<leftarrow> k_kmalloc 36 s;
     s2 \<leftarrow> session_add t g (upd_session g (\<lambda>_. \<lparr>g_leader = t, g_members = []\<rparr>) s1);
     gs \<leftarrow> link g (sessions s2);
     Some (s2\<lparr>sessions := gs\<rparr>) }"

definition session_rm :: "u32 \<Rightarrow> kernel \<Rightarrow> kernel option" where
  "session_rm new s = do {
     let g = n_session (nodes s new);
     ms \<leftarrow> unlink new (g_members (psessions s g));
     task_node_put (g_leader (psessions s g)) (upd_session g (\<lambda>x. x\<lparr>g_members := ms\<rparr>) s) }"

fun find_leader :: "(u32 \<Rightarrow> group) \<Rightarrow> kernel \<Rightarrow> u32 \<Rightarrow> u32 list \<Rightarrow> u32" where
  "find_leader gr s pid [] = 0"
| "find_leader gr s pid (g # gs) = (if n_pid (nodes s (g_leader (gr g))) = pid then g else find_leader gr s pid gs)"

definition session_find :: "u32 \<Rightarrow> kernel \<Rightarrow> u32" where
  "session_find pid s = find_leader (psessions s) s pid (sessions s)"

definition pgroup_add :: "u32 \<Rightarrow> u32 \<Rightarrow> kernel \<Rightarrow> kernel option" where
  "pgroup_add new g s = do {
     s1 \<leftarrow> task_node_get (g_leader (pgroups_at s g)) s;
     let s2 = upd_node new (\<lambda>x. x\<lparr>n_pgroup := g\<rparr>) s1;
     ms \<leftarrow> link new (g_members (pgroups_at s2 g));
     Some (upd_pgroup g (\<lambda>x. x\<lparr>g_members := ms\<rparr>) s2) }"

definition pgroup_create :: "u32 \<Rightarrow> kernel \<Rightarrow> kernel option" where
  "pgroup_create t s = do {
     (s1, g) \<leftarrow> k_kmalloc 36 s;
     s2 \<leftarrow> pgroup_add t g (upd_pgroup g (\<lambda>_. \<lparr>g_leader = t, g_members = []\<rparr>) s1);
     gs \<leftarrow> link g (pgroups s2);
     Some (s2\<lparr>pgroups := gs\<rparr>) }"

definition pgroup_rm :: "u32 \<Rightarrow> kernel \<Rightarrow> kernel option" where
  "pgroup_rm new s = do {
     let g = n_pgroup (nodes s new);
     ms \<leftarrow> unlink new (g_members (pgroups_at s g));
     task_node_put (g_leader (pgroups_at s g)) (upd_pgroup g (\<lambda>x. x\<lparr>g_members := ms\<rparr>) s) }"

definition pgroup_find :: "u32 \<Rightarrow> kernel \<Rightarrow> u32" where
  "pgroup_find pid s = find_leader (pgroups_at s) s pid (pgroups s)"

definition default_sigaction :: sigaction where
  "default_sigaction = \<lparr>sa_flags = 0, sa_mask = 0, sa_handler = 0\<rparr>"

text \<open>
  Fields the function does not assign (\<open>n_exit_code\<close>, \<open>n_exit_cause\<close>, \<open>n_sig_mask\<close>) keep what the
  memory held: the node \<open>junk\<close>.
\<close>

definition task_node_build :: "task_node \<Rightarrow> u32 \<Rightarrow> u32 \<Rightarrow> u32 \<Rightarrow> kernel \<Rightarrow> (kernel \<times> u32) option" where
  "task_node_build junk parent argv envp s = do {
     (s1, n) \<leftarrow> k_kmalloc 512 s;
     let p = nodes s1 parent;
     let s2 = (upd_node n (\<lambda>_. junk\<lparr>n_refs := 1, n_pid := next_pid s1,
         n_argv := (if argv \<noteq> 0 \<or> parent = 0 then argv else n_argv p),
         n_envp := (if envp \<noteq> 0 \<or> parent = 0 then envp else n_envp p),
         n_parent := parent, n_exit_state := TASK_RUNNING, n_sigtramp := 0,
         n_sigactions := (\<lambda>_. default_sigaction), n_threads := [], n_children := [], n_zombies := [], n_zombie_on := False\<rparr>) s1)
       \<lparr>next_pid := next_pid s1 + 1\<rparr>;
     s3 \<leftarrow> (if parent \<noteq> 0
       then do {
         cs \<leftarrow> link n (n_children (nodes s2 parent));
         sa \<leftarrow> session_add n (n_session (nodes s2 parent)) (upd_node parent (\<lambda>x. x\<lparr>n_children := cs\<rparr>) s2);
         pgroup_add n (n_pgroup (nodes sa parent)) sa }
       else do { sa \<leftarrow> session_create n s2; pgroup_create n sa });
     ts \<leftarrow> link n (tasks s3);
     Some (s3\<lparr>tasks := ts\<rparr>, n) }"

text \<open>The test in the loop over the children looks at the exiting node itself.\<close>

text \<open>
  A task has one list node for being a zombie; \<open>n_zombie_on\<close> says whether it is on a list. Adding it to a
  second list, whichever that is, breaks the first one and is a failure.
\<close>

definition zombie_add :: "u32 \<Rightarrow> u32 \<Rightarrow> kernel \<Rightarrow> kernel option" where
  "zombie_add node holder s = do {
     bug_on (n_zombie_on (nodes s node));
     Some (upd_node holder (\<lambda>x. x\<lparr>n_zombies := node # n_zombies x\<rparr>) (upd_node node (\<lambda>x. x\<lparr>n_zombie_on := True\<rparr>) s)) }"

fun reparent_loop :: "u32 \<Rightarrow> u32 list \<Rightarrow> kernel \<Rightarrow> kernel option" where
  "reparent_loop node [] s = Some s"
| "reparent_loop node (c # cs) s = do {
     s1 \<leftarrow> (if n_exit_state (nodes s node) = TASK_EXITED then zombie_add c (init_node s) s
            else Some (upd_node c (\<lambda>x. x\<lparr>n_parent := init_node s\<rparr>) s));
     reparent_loop node cs s1 }"

definition task_node_zombify :: "u32 \<Rightarrow> kernel \<Rightarrow> kernel option" where
  "task_node_zombify node s = do {
     let s1 = upd_node node (\<lambda>x. x\<lparr>n_exit_state := TASK_EXITED\<rparr>) s;
     bug_on (n_pid (nodes s1 node) = 1);
     let parent = n_parent (nodes s1 node);
     s2 \<leftarrow> (if task_node_ensure_not_exiting parent s1 then zombie_add node parent s1 else Some s1);
     reparent_loop node (n_children (nodes s2 node)) s2 }"

section \<open>References to open files\<close>

text \<open>
  \<open>fd_uses us s f\<close> counts the descriptors that refer to the file \<open>f\<close> in the tables \<open>us\<close>. In a consistent
  state every file counts exactly its descriptors.
\<close>

definition slot_uses :: "kernel \<Rightarrow> u32 \<Rightarrow> u32 \<Rightarrow> nat" where
  "slot_uses s f u = card {i. i < 512 \<and> u_gfd (uc_table (ufdcs s u) i) = f}"

definition fd_uses :: "u32 set \<Rightarrow> kernel \<Rightarrow> u32 \<Rightarrow> nat" where
  "fd_uses us s f = (\<Sum>u\<in>us. slot_uses s f u)"

definition fd_inv :: "u32 set \<Rightarrow> kernel \<Rightarrow> bool" where
  "fd_inv us s = (finite us \<and> card us < 2 ^ 23 \<and> (\<forall>f. f \<noteq> 0 \<longrightarrow> unat (file_refs s f) = fd_uses us s f))"

lemma fd_invD:
  assumes "fd_inv us s"
  shows "finite us" and "card us < 2 ^ 23" and "f \<noteq> 0 \<Longrightarrow> unat (file_refs s f) = fd_uses us s f"
  using assms by (simp_all add: fd_inv_def)

lemma MAX_NUM_FDS_eq [simp]: "MAX_NUM_FDS = 512"
  by (simp add: MAX_NUM_FDS_def UFD_INVALID_def Let_def PAGE_SIZE_def)

lemma fd_limit [simp]: "UFDT_PAGES * PAGE_SIZE div 8 = 512"
  by (simp add: UFDT_PAGES_def PAGE_SIZE_def)

lemma card_upd:
  assumes "k < (n::nat)"
  shows "card {i. i < n \<and> (g(k := y)) i = f} + of_bool (g k = f) = card {i. i < n \<and> g i = f} + of_bool (y = f)"
proof -
  let ?A = "{i. i < n \<and> (g(k := y)) i = f}" and ?B = "{i. i < n \<and> g i = f}"
  have c: "card X = card (X - {k}) + of_bool (k \<in> X)" if "finite X" for X
    using card_Suc_Diff1 [OF that, of k] by (cases "k \<in> X") simp_all
  have "?A - {k} = ?B - {k}" by auto
  then show ?thesis using c [of ?A] c [of ?B] assms by simp
qed

lemma slot_uses_le: "slot_uses s f u \<le> 512"
  using card_mono [of "{..<512::nat}" "{i. i < 512 \<and> u_gfd (uc_table (ufdcs s u) i) = f}"] by (auto simp: slot_uses_def)

lemma fd_uses_bound:
  assumes "fd_inv us s"
  shows "fd_uses us s f + 1 < 2 ^ 32"
proof -
  have "fd_uses us s f \<le> card us * 512" unfolding fd_uses_def using sum_bounded_above [of us "slot_uses s f" 512] slot_uses_le by simp
  then show ?thesis using fd_invD(2) [OF assms] by simp
qed

definition set_slot :: "u32 \<Rightarrow> nat \<Rightarrow> ufd \<Rightarrow> kernel \<Rightarrow> kernel" where
  "set_slot u i e s = upd_ufdc u (\<lambda>c. c\<lparr>uc_table := (uc_table c)(i := e)\<rparr>) s"

lemma set_slot_sel [simp]:
  "file_refs (set_slot u i e s) = file_refs s" "closed (set_slot u i e s) = closed s" "k_heap (set_slot u i e s) = k_heap s"
  "uc_table (ufdcs (set_slot u i e s) u) = (uc_table (ufdcs s u))(i := e)" "thr (set_slot u i e s) = thr s" "current (set_slot u i e s) = current s"
  "file_cache (set_slot u i e s) = file_cache s"
  "v \<noteq> u \<Longrightarrow> ufdcs (set_slot u i e s) v = ufdcs s v"
  by (simp_all add: set_slot_def upd_ufdc_def)

lemma fd_uses_slot:
  assumes "finite us" and "u \<in> us" and "i < 512"
  shows "fd_uses us (set_slot u i e s) f + of_bool (u_gfd (uc_table (ufdcs s u) i) = f) = fd_uses us s f + of_bool (u_gfd e = f)"
proof -
  have "slot_uses (set_slot u i e s) f v = slot_uses s f v" if "v \<in> us - {u}" for v using that by (simp add: slot_uses_def)
  moreover have "slot_uses (set_slot u i e s) f u + of_bool (u_gfd (uc_table (ufdcs s u) i) = f) = slot_uses s f u + of_bool (u_gfd e = f)"
    using card_upd [OF assms(3), of "\<lambda>j. u_gfd (uc_table (ufdcs s u) j)" "u_gfd e" f]
    by (simp add: slot_uses_def fun_upd_def if_distrib [of u_gfd] cong: if_cong)
  ultimately show ?thesis by (simp add: fd_uses_def sum.remove [OF assms(1,2)])
qed

lemma fd_uses_frame: "ufdcs s' = ufdcs s \<Longrightarrow> fd_uses us s' f = fd_uses us s f"
  by (simp add: fd_uses_def slot_uses_def)

lemma install_eq:
  "idx < 512 \<Longrightarrow> ufdt_install u idx f s = Some (set_slot u (unat idx) \<lparr>u_flags = 0, u_gfd = f\<rparr> (gfdt_get f s))"
  by (simp add: ufdt_install_def set_slot_def)

text \<open>A file gets a descriptor in an empty entry.\<close>

lemma install_inv:
  fixes idx :: u32
  assumes inv: "fd_inv us s" and u: "u \<in> us" "idx < 512" and e: "u_gfd (uc_table (ufdcs s u) (unat idx)) = 0" and f: "f \<noteq> 0"
  shows "fd_inv us (set_slot u (unat idx) \<lparr>u_flags = 0, u_gfd = f\<rparr> (gfdt_get f s))"
proof -
  have i: "unat idx < 512" using u(2) by (simp add: word_less_nat_alt)
  have g: "ufdcs (gfdt_get f s) = ufdcs s" by (simp add: gfdt_get_def)
  have r: "unat (file_refs (gfdt_get f s) g) = unat (file_refs s g) + of_bool (g = f)" for g
    using fd_uses_bound [OF inv, of f] fd_invD(3) [OF inv, of f] f by (simp add: gfdt_get_def unat_word_ariths)
  show ?thesis unfolding fd_inv_def
  proof (intro conjI allI impI)
    fix g :: u32 assume g0: "g \<noteq> 0"
    show "unat (file_refs (set_slot u (unat idx) \<lparr>u_flags = 0, u_gfd = f\<rparr> (gfdt_get f s)) g)
      = fd_uses us (set_slot u (unat idx) \<lparr>u_flags = 0, u_gfd = f\<rparr> (gfdt_get f s)) g"
      using fd_uses_slot [OF fd_invD(1) [OF inv] u(1) i, of "\<lparr>u_flags = 0, u_gfd = f\<rparr>" "gfdt_get f s" g] r [of g] e
        fd_invD(3) [OF inv g0] fd_uses_frame [OF g, of us g] g0 by (auto simp: g)
  qed (fact fd_invD [OF inv])+
qed

text \<open>An entry loses its file: the file is closed exactly when this was its last descriptor.\<close>

lemma close_inv:
  assumes inv: "fd_inv us s" and u: "u \<in> us" "i < 512" and e: "u_gfd (uc_table (ufdcs s u) (unat i)) = f" and f: "f \<noteq> 0"
    and c: "do_ufdt_close u i s = Some s'"
  shows "fd_inv us s'" and "closed s' = (if fd_uses us s f = 1 then f # closed s else closed s)"
    and "ufdcs s' = ufdcs (set_slot u (unat i) \<lparr>u_flags = 0, u_gfd = 0\<rparr> s)" and "current s' = current s" and "thr s' = thr s"
proof -
  have i: "unat i < 512" using u(2) by (simp add: word_less_nat_alt)
  obtain s1 where p: "gfdt_put f s = Some s1" and s': "s' = set_slot u (unat i) \<lparr>u_flags = 0, u_gfd = 0\<rparr> s1"
    using c e by (auto simp: do_ufdt_close_def set_slot_def split: Option.bind_splits)
  have pos: "0 < fd_uses us s f"
    using fd_uses_slot [OF fd_invD(1) [OF inv] u(1) i, of "\<lparr>u_flags = 0, u_gfd = 0\<rparr>" s f] e f by auto
  then have ne: "file_refs s f \<noteq> 0" using fd_invD(3) [OF inv f] by auto
  then have d: "unat (file_refs s f - 1) = fd_uses us s f - 1" using fd_invD(3) [OF inv f] by (simp add: unat_minus_one)
  then have last: "file_refs s f - 1 = 0 \<longleftrightarrow> fd_uses us s f = 1" using pos unat_eq_0 [of "file_refs s f - 1"] by linarith
  have q: "file_refs s1 = (file_refs s)(f := file_refs s f - 1)" "ufdcs s1 = ufdcs s" "current s1 = current s" "thr s1 = thr s"
    "closed s1 = (if fd_uses us s f = 1 then f # closed s else closed s)"
    using p ne last by (auto simp: gfdt_put_def gfdt_free_def Let_def split: if_splits Option.bind_splits)
  show "closed s' = (if fd_uses us s f = 1 then f # closed s else closed s)" "ufdcs s' = ufdcs (set_slot u (unat i) \<lparr>u_flags = 0, u_gfd = 0\<rparr> s)"
    "current s' = current s" "thr s' = thr s"
    using q s' by (simp_all add: set_slot_def upd_ufdc_def)
  show "fd_inv us s'" unfolding fd_inv_def
  proof (intro conjI allI impI)
    fix g :: u32 assume g0: "g \<noteq> 0"
    show "unat (file_refs s' g) = fd_uses us s' g"
      using fd_uses_slot [OF fd_invD(1) [OF inv] u(1) i, of "\<lparr>u_flags = 0, u_gfd = 0\<rparr>" s1 g] d pos e g0
        fd_invD(3) [OF inv g0] fd_uses_frame [OF q(2), of us g] unfolding s' by (auto simp: q)
  qed (fact fd_invD [OF inv])+
qed

lemma present_eq: "i < 512 \<Longrightarrow> ufdt_is_present c i \<longleftrightarrow> u_gfd (uc_table c (unat i)) \<noteq> 0"
  by (simp add: ufdt_is_present_def)

lemma find_next_spec:
  assumes "unat idx + n = 512"
  shows "(find_next_loop c idx n = UFD_INVALID \<and> (\<forall>j. unat idx \<le> j \<and> j < 512 \<longrightarrow> u_gfd (uc_table c j) \<noteq> 0))
    \<or> (find_next_loop c idx n < 512 \<and> u_gfd (uc_table c (unat (find_next_loop c idx n))) = 0
       \<and> (\<forall>j. unat idx \<le> j \<and> j < unat (find_next_loop c idx n) \<longrightarrow> u_gfd (uc_table c j) \<noteq> 0))"
  using assms
proof (induction n arbitrary: idx)
  case (Suc n)
  have lt: "idx < 512" using Suc.prems by (simp add: word_less_nat_alt)
  have s: "unat (idx + 1) = unat idx + 1" using Suc.prems by (simp add: unat_word_ariths)
  show ?case
  proof (cases "ufdt_is_present c idx")
    case True
    then have p: "u_gfd (uc_table c (unat idx)) \<noteq> 0" using present_eq [OF lt] by simp
    have ext: "u_gfd (uc_table c j) \<noteq> 0" if "\<forall>j. unat (idx + 1) \<le> j \<and> j < B \<longrightarrow> u_gfd (uc_table c j) \<noteq> 0" "unat idx \<le> j" "j < B" for j B
      using that p by (cases "j = unat idx") (simp_all add: s)
    have "unat (idx + 1) + n = 512" using Suc.prems s by simp
    from Suc.IH [OF this] show ?thesis
    proof (elim disjE conjE)
      assume "find_next_loop c (idx + 1) n = UFD_INVALID" "\<forall>j. unat (idx + 1) \<le> j \<and> j < 512 \<longrightarrow> u_gfd (uc_table c j) \<noteq> 0"
      then show ?thesis using True p by (intro disjI1) (simp add: ext)
    next
      assume "find_next_loop c (idx + 1) n < 512" "u_gfd (uc_table c (unat (find_next_loop c (idx + 1) n))) = 0"
        "\<forall>j. unat (idx + 1) \<le> j \<and> j < unat (find_next_loop c (idx + 1) n) \<longrightarrow> u_gfd (uc_table c j) \<noteq> 0"
      then show ?thesis using True p by (intro disjI2) (simp add: ext)
    qed
  next
    case False
    then have f: "find_next_loop c idx (Suc n) = idx" "u_gfd (uc_table c (unat idx)) = 0" using present_eq [OF lt] by simp_all
    show ?thesis unfolding f(1) using lt f(2) by (intro disjI2 conjI) (assumption+, linarith)
  qed
qed (intro disjI1, auto)

lemma find_next_full: "(\<forall>j<512. u_gfd (uc_table c j) \<noteq> 0) \<Longrightarrow> ufdt_find_next c = UFD_INVALID"
  using find_next_spec [of 0 512 c] by (auto simp: ufdt_find_next_def word_less_nat_alt)

lemma find_next_free:
  assumes "j < 512" and "u_gfd (uc_table c j) = 0"
  shows "ufdt_find_next c < 512" and "u_gfd (uc_table c (unat (ufdt_find_next c))) = 0"
    and "k < unat (ufdt_find_next c) \<Longrightarrow> u_gfd (uc_table c k) \<noteq> 0"
  using assms find_next_spec [of 0 512 c] by (auto simp: ufdt_find_next_def)


lemma ufdt_add_eq:
  assumes "u = obtain_ufds (current s cpu) s" and "j < 512" and "u_gfd (uc_table (ufdcs s u) j) = 0"
  shows "ufdt_add cpu f s = Some (set_slot u (unat (ufdt_find_next (ufdcs s u))) \<lparr>u_flags = 0, u_gfd = f\<rparr> (gfdt_get f s), ufdt_find_next (ufdcs s u))"
proof -
  note n = find_next_free(1) [OF assms(2,3)]
  then have "ufdt_find_next (ufdcs s u) \<noteq> UFD_INVALID" by (auto simp: UFD_INVALID_def)
  then show ?thesis using install_eq [OF n] by (simp add: ufdt_add_def Let_def assms(1) [symmetric])
qed

text \<open>An empty table for the witnesses.\<close>

definition empty_table :: "nat \<Rightarrow> ufd" where
  "empty_table = (\<lambda>_. \<lparr>u_flags = 0, u_gfd = 0\<rparr>)"

end
