(* ===== verification/Scheduler.thy ===== *)
theory Scheduler
  imports Task
begin

text \<open>
  The scheduler of \<^verbatim>\<open>sched/sched.c\<close>: putting threads to sleep, waking, queueing, choosing and
  switching, the death of threads and tasks, and waiting for an interrupt. A function that runs under
  \<^verbatim>\<open>sched_lock\<close> or with interrupts off on its processor is one step. A switch is modelled up to the
  point where the processor continues on the stack of the chosen thread.
\<close>

section \<open>Sleeping and waking\<close>

definition thread_sleep_prepare :: "nat \<Rightarrow> kernel \<Rightarrow> kernel option" where
  "thread_sleep_prepare cpu s = do {
     let me = current s cpu;
     bug_on (\<not> t_active (thr s me));
     bug_on (t_state (thr s me) \<noteq> AWAKE);
     Some (upd_thr me (\<lambda>x. x\<lparr>t_state := SLEEPING\<rparr>) s) }"

definition do_wake :: "u32 \<Rightarrow> kernel \<Rightarrow> kernel option" where
  "do_wake t s =
     (if t_state (thr s t) \<noteq> AWAKE
      then let s1 = (if t_state (thr s t) = SLEEPING then upd_thr t (\<lambda>x. x\<lparr>t_state := AWAKE\<rparr>) s else s)
           in if \<not> t_active (thr s1 t)
              then do { q \<leftarrow> link t (queued_threads s1); Some (s1\<lparr>queued_threads := q\<rparr>) }
              else Some s1
      else Some s)"

definition thread_wake :: "u32 \<Rightarrow> kernel \<Rightarrow> kernel option" where
  "thread_wake t s = do_wake t s"

definition thread_poke :: "u32 \<Rightarrow> kernel \<Rightarrow> kernel option" where
  "thread_poke t s = (if t_state (thr s t) = SLEEPING then do_wake t s else Some s)"

definition thread_schedule :: "u32 \<Rightarrow> kernel \<Rightarrow> kernel option" where
  "thread_schedule t s = do {
     ts \<leftarrow> link t (threads s);
     do_wake t (upd_thr t (\<lambda>x. x\<lparr>t_state := SLEEPING\<rparr>) (s\<lparr>threads := ts, thread_count := thread_count s + 1\<rparr>)) }"

section \<open>Signals and the end of threads\<close>

definition sigaddset :: "u32 \<Rightarrow> nat \<Rightarrow> u32" where
  "sigaddset what sig = what OR push_bit sig 1"

definition thread_send_signal :: "u32 \<Rightarrow> nat \<Rightarrow> kernel \<Rightarrow> kernel option" where
  "thread_send_signal t sig s = thread_poke t (upd_thr t (\<lambda>x. x\<lparr>t_sig_pending := sigaddset (t_sig_pending x) sig\<rparr>) s)"

definition task_send_signal :: "u32 \<Rightarrow> nat \<Rightarrow> kernel \<Rightarrow> kernel option" where
  "task_send_signal n sig s =
     (case n_threads (nodes s n) of [] \<Rightarrow> Some s | t # _ \<Rightarrow> thread_send_signal t sig s)"

fun signal_members :: "u32 list \<Rightarrow> nat \<Rightarrow> kernel \<Rightarrow> kernel option" where
  "signal_members [] sig s = Some s"
| "signal_members (n # ns) sig s = do { s1 \<leftarrow> task_send_signal n sig s; signal_members ns sig s1 }"

definition pgroup_send_signal :: "u32 \<Rightarrow> nat \<Rightarrow> kernel \<Rightarrow> kernel option" where
  "pgroup_send_signal pg sig s = signal_members (g_members (pgroups_at s pg)) sig s"

text \<open>\<^verbatim>\<open>thread_die\<close> up to its call of \<^verbatim>\<open>sched_switch\<close>, from which it does not return.\<close>

definition thread_die :: "nat \<Rightarrow> kernel \<Rightarrow> kernel" where
  "thread_die cpu s = upd_thr (current s cpu) (\<lambda>x. x\<lparr>t_state := EXITED\<rparr>) s"

definition thread_mark_die :: "u32 \<Rightarrow> kernel \<Rightarrow> kernel" where
  "thread_mark_die t s = upd_thr t (\<lambda>x. x\<lparr>t_should_die := True\<rparr>) s"

definition task_node_exit :: "nat \<Rightarrow> u32 \<Rightarrow> u8 \<Rightarrow> kernel \<Rightarrow> kernel option" where
  "task_node_exit cpu code exit_cause s = do {
     let node = obtain_task_node (current s cpu) s;
     bug_on (node = 0);
     let s1 = upd_node node (\<lambda>x. x\<lparr>n_exit_code := code, n_exit_cause := exit_cause\<rparr>) s;
     Some (if task_node_ensure_not_exiting node s1
           then fold thread_mark_die (n_threads (nodes s1 node)) (upd_node node (\<lambda>x. x\<lparr>n_exit_state := TASK_EXITING\<rparr>) s1)
           else s1) }"

section \<open>Switching\<close>

definition deactivate_thread :: "u32 \<Rightarrow> kernel \<Rightarrow> kernel option" where
  "deactivate_thread t s =
     (if t = 0 then Some s
      else case t_state (thr s t) of
        IDLE \<Rightarrow> Some s
      | AWAKE \<Rightarrow> do {
          bug_on (\<not> t_active (thr s t));
          q \<leftarrow> link t (queued_threads s);
          Some (s\<lparr>queued_threads := q, tasks_going := tasks_going s - 1\<rparr>) }
      | SLEEPING \<Rightarrow> Some (s\<lparr>tasks_going := tasks_going s - 1\<rparr>)
      | EXITED \<Rightarrow> do {
          ts \<leftarrow> unlink t (threads s);
          let node = t_node (thr s t);
          tl \<leftarrow> unlink t (n_threads (nodes s node));
          s1 \<leftarrow> put_fs_context t (upd_node node (\<lambda>x. x\<lparr>n_threads := tl\<rparr>) (s\<lparr>threads := ts\<rparr>));
          s2 \<leftarrow> put_ufds t s1;
          let s3 = put_task_node t s2;
          if n_threads (nodes s3 (t_node (thr s3 t))) = [] then task_node_zombify (t_node (thr s3 t)) s3 else Some s3 }
      | BUILDING \<Rightarrow> None)"

definition lock_next_current :: "nat \<Rightarrow> kernel \<Rightarrow> (kernel \<times> u32) option" where
  "lock_next_current cpu s =
     (if tasking_up s
      then case queued_threads s of
          t # q \<Rightarrow> (case t_state (thr s t) of
              AWAKE \<Rightarrow> Some (s\<lparr>queued_threads := q, tasks_going := tasks_going s + 1\<rparr>, t)
            | _ \<Rightarrow> None)
        | [] \<Rightarrow> Some (s, idle_task s cpu)
      else Some (s, idle_task s cpu))"

definition QUANTUM :: u64 where "QUANTUM = 100"

text \<open>\<open>now\<close> is the value of \<^verbatim>\<open>uptime()\<close>.\<close>

definition finish_sched_switch :: "u64 \<Rightarrow> nat \<Rightarrow> u32 \<Rightarrow> u32 \<Rightarrow> kernel \<Rightarrow> kernel option" where
  "finish_sched_switch now cpu old next s = do {
     let s1 = s\<lparr>current := (current s)(cpu := next)\<rparr>;
     bug_on (old \<noteq> next \<and> t_active (thr s1 next));
     let s2 = upd_thr next (\<lambda>x. x\<lparr>t_active := True\<rparr>) (upd_thr old (\<lambda>x. x\<lparr>t_active := False\<rparr>) s1);
     bug_on (t_state (thr s2 next) \<noteq> IDLE \<and> t_state (thr s2 next) \<noteq> AWAKE);
     Some (s2\<lparr>switch_time := (switch_time s2)(cpu := now + QUANTUM)\<rparr>) }"

definition do_sched_switch :: "u64 \<Rightarrow> nat \<Rightarrow> kernel \<Rightarrow> kernel option" where
  "do_sched_switch now cpu s = do {
     let old = current s cpu;
     bug_on (old = 0);
     s1 \<leftarrow> deactivate_thread old s;
     (s2, next) \<leftarrow> lock_next_current cpu s1;
     finish_sched_switch now cpu old next s2 }"

definition sched_try_resched :: "u64 \<Rightarrow> nat \<Rightarrow> bool \<Rightarrow> kernel \<Rightarrow> kernel option" where
  "sched_try_resched now cpu is_user s =
     (if \<not> tasking_up s then Some s
      else let me = current s cpu
           in if t_should_die (thr s me) \<and> is_user then do_sched_switch now cpu (thread_die cpu s)
              else if me = 0 \<or> switch_time s cpu \<le> now \<or> t_state (thr s me) \<noteq> AWAKE then do_sched_switch now cpu s
              else Some s)"

section \<open>Waiting for an interrupt\<close>

text \<open>\<^verbatim>\<open>sched_suspend_pending_interrupt\<close> up to its call of \<^verbatim>\<open>sched_switch\<close>.\<close>

definition sched_suspend_pending_interrupt :: "nat \<Rightarrow> kernel \<Rightarrow> kernel option" where
  "sched_suspend_pending_interrupt cpu s = do {
     ps \<leftarrow> link (current s cpu) (poll_threads s);
     thread_sleep_prepare cpu (s\<lparr>poll_threads := ps, suspended_threads := suspended_threads s + 1\<rparr>) }"

fun notify_loop :: "u32 list \<Rightarrow> kernel \<Rightarrow> kernel option" where
  "notify_loop [] s = Some s"
| "notify_loop (t # ts) s = do {
     s1 \<leftarrow> do_wake t (s\<lparr>suspended_threads := suspended_threads s - 1\<rparr>);
     notify_loop ts s1 }"

definition sched_interrupt_notify :: "kernel \<Rightarrow> kernel option" where
  "sched_interrupt_notify s = do {
     s1 \<leftarrow> notify_loop (poll_threads s) s;
     bug_on (suspended_threads s1 \<noteq> 0);
     Some (s1\<lparr>poll_threads := []\<rparr>) }"

section \<open>What the bookkeeping of tasks leaves alone\<close>

definition same_sched :: "kernel \<Rightarrow> kernel \<Rightarrow> bool" where
  "same_sched s s' = (queued_threads s' = queued_threads s \<and> current s' = current s \<and> idle_task s' = idle_task s
     \<and> threads s' = threads s \<and> tasking_up s' = tasking_up s
     \<and> (\<forall>t. t_state (thr s' t) = t_state (thr s t) \<and> t_active (thr s' t) = t_active (thr s t)))"

lemma same_sched_refl [simp]: "same_sched s s"
  by (simp add: same_sched_def)

lemma same_sched_trans: "same_sched s s1 \<Longrightarrow> same_sched s1 s2 \<Longrightarrow> same_sched s s2"
  by (simp add: same_sched_def)

lemma same_sched_left [simp]:
  "same_sched (upd_node n f s) s' = same_sched s s'" "same_sched (upd_ufdc u g s) s' = same_sched s s'"
  "same_sched (upd_fsc u h s) s' = same_sched s s'" "same_sched (s\<lparr>k_heap := x\<rparr>) s' = same_sched s s'"
  "same_sched (s\<lparr>file_refs := fr\<rparr>) s' = same_sched s s'" "same_sched (s\<lparr>tasks_going := y\<rparr>) s' = same_sched s s'"
  "same_sched (upd_thr t (\<lambda>x. x\<lparr>t_ufd := z\<rparr>) s) s' = same_sched s s'" "same_sched (upd_thr t (\<lambda>x. x\<lparr>t_fs := z\<rparr>) s) s' = same_sched s s'"
  by (auto simp: same_sched_def upd_node_def upd_ufdc_def upd_fsc_def upd_thr_def)

lemma same_sched_right [simp]:
  "same_sched s (upd_node n f s') = same_sched s s'" "same_sched s (s'\<lparr>tasks_going := y\<rparr>) = same_sched s s'"
  "same_sched s (s'\<lparr>k_heap := x\<rparr>) = same_sched s s'" "same_sched s (upd_ufdc u g s') = same_sched s s'"
  "same_sched s (upd_fsc u h s') = same_sched s s'"
  "same_sched s (upd_thr t (\<lambda>x. x\<lparr>t_sig_pending := p x\<rparr>) s') = same_sched s s'" "same_sched s (upd_thr t (\<lambda>x. x\<lparr>t_should_die := b\<rparr>) s') = same_sched s s'"
  "same_sched s (upd_thr t (\<lambda>x. x\<lparr>t_ufd := z\<rparr>) s') = same_sched s s'" "same_sched s (upd_thr t (\<lambda>x. x\<lparr>t_fs := z\<rparr>) s') = same_sched s s'"
  by (auto simp: same_sched_def upd_node_def upd_ufdc_def upd_fsc_def upd_thr_def)

lemma k_kfree_same: "k_kfree p s = Some s' \<Longrightarrow> same_sched s s'"
  by (auto simp: k_kfree_def split: Option.bind_splits)

lemma gfdt_put_same: "gfdt_put f s = Some s' \<Longrightarrow> same_sched s s'"
  by (auto simp: gfdt_put_def gfdt_free_def Let_def same_sched_def split: Option.bind_splits if_splits)

lemma destroy_loop_same: "destroy_loop u i n s = Some s' \<Longrightarrow> same_sched s s'"
proof (induction n arbitrary: i s)
  case (Suc n)
  then show ?case by (auto split: Option.bind_splits if_splits dest!: gfdt_put_same intro: same_sched_trans)
qed simp

lemma ufd_context_destroy_same: "ufd_context_destroy u s = Some s' \<Longrightarrow> same_sched s s'"
  by (auto simp: ufd_context_destroy_def split: Option.bind_splits dest!: destroy_loop_same k_kfree_same intro: same_sched_trans)

lemma put_ufds_same: "put_ufds t s = Some s' \<Longrightarrow> same_sched s s'"
  by (auto simp: put_ufds_def Let_def split: if_splits dest!: ufd_context_destroy_same)

lemma put_fs_context_same: "put_fs_context t s = Some s' \<Longrightarrow> same_sched s s'"
  by (auto simp: put_fs_context_def fs_context_destroy_def Let_def split: if_splits dest!: k_kfree_same)

lemma put_task_node_same [simp]: "same_sched s (put_task_node t s') = same_sched s s'"
  by (simp add: put_task_node_def Let_def)

lemma zombie_add_same: "zombie_add n h s = Some s' \<Longrightarrow> same_sched s s'"
  by (auto simp: zombie_add_def split: if_splits)

lemma reparent_loop_same: "reparent_loop n cs s = Some s' \<Longrightarrow> same_sched s s'"
proof (induction cs arbitrary: s)
  case (Cons c cs)
  from Cons.prems show ?case
    by (auto split: Option.bind_splits if_splits dest!: Cons.IH zombie_add_same intro: same_sched_trans)
qed simp

lemma task_node_zombify_same: "task_node_zombify n s = Some s' \<Longrightarrow> same_sched s s'"
  by (auto simp: task_node_zombify_def Let_def split: Option.bind_splits if_splits dest!: reparent_loop_same zombie_add_same intro: same_sched_trans)

section \<open>The invariant of the scheduler\<close>

text \<open>
  For processors \<open>c < N\<close>: the queue holds, without repetition, exactly the threads that are awake and
  not running; the active threads are the current ones, one per processor; a processor without work
  runs its idle thread.
\<close>

definition sched_ok :: "nat \<Rightarrow> u32 list \<Rightarrow> u32 list \<Rightarrow> (u32 \<Rightarrow> thread_state) \<Rightarrow> (u32 \<Rightarrow> bool)
    \<Rightarrow> (nat \<Rightarrow> u32) \<Rightarrow> (nat \<Rightarrow> u32) \<Rightarrow> bool" where
  "sched_ok N Q T st ac cur idl = (distinct Q \<and> distinct T \<and> 0 \<notin> set T
     \<and> (\<forall>t. t \<in> set Q \<longleftrightarrow> t \<in> set T \<and> st t = AWAKE \<and> \<not> ac t)
     \<and> (\<forall>t\<in>set T. st t \<noteq> BUILDING \<and> st t \<noteq> IDLE)
     \<and> (\<forall>c<N. ac (cur c) \<and> (cur c \<in> set T \<or> cur c = idl c))
     \<and> (\<forall>c<N. idl c \<noteq> 0 \<and> idl c \<notin> set T \<and> st (idl c) = IDLE)
     \<and> (\<forall>c<N. \<forall>d<N. cur c = cur d \<or> idl c = idl d \<longrightarrow> c = d)
     \<and> (\<forall>t. ac t \<and> (t \<in> set T \<or> (\<exists>c<N. t = idl c)) \<longrightarrow> (\<exists>c<N. t = cur c)))"

lemma sched_okD:
  assumes "sched_ok N Q T st ac cur idl"
  shows "distinct Q" and "distinct T" and "0 \<notin> set T"
    and "\<And>t. t \<in> set Q \<longleftrightarrow> t \<in> set T \<and> st t = AWAKE \<and> \<not> ac t"
    and "\<And>t. t \<in> set T \<Longrightarrow> st t \<noteq> BUILDING \<and> st t \<noteq> IDLE"
    and "\<And>c. c < N \<Longrightarrow> ac (cur c)" and "\<And>c. c < N \<Longrightarrow> cur c \<in> set T \<or> cur c = idl c"
    and "\<And>c. c < N \<Longrightarrow> idl c \<noteq> 0" and "\<And>c. c < N \<Longrightarrow> idl c \<notin> set T" and "\<And>c. c < N \<Longrightarrow> st (idl c) = IDLE"
    and "\<And>c d. c < N \<Longrightarrow> d < N \<Longrightarrow> cur c = cur d \<Longrightarrow> c = d" and "\<And>c d. c < N \<Longrightarrow> d < N \<Longrightarrow> idl c = idl d \<Longrightarrow> c = d"
    and "\<And>t. t \<in> set T \<Longrightarrow> ac t \<Longrightarrow> \<exists>c<N. t = cur c"
    and "\<And>c. c < N \<Longrightarrow> ac (idl c) \<Longrightarrow> \<exists>d<N. idl c = cur d"
  using assms unfolding sched_ok_def by blast+

lemma sched_okI:
  assumes "distinct Q" and "distinct T" and "0 \<notin> set T"
    and "\<And>t. t \<in> set Q \<longleftrightarrow> t \<in> set T \<and> st t = AWAKE \<and> \<not> ac t"
    and "\<And>t. t \<in> set T \<Longrightarrow> st t \<noteq> BUILDING \<and> st t \<noteq> IDLE"
    and "\<And>c. c < N \<Longrightarrow> ac (cur c)" and "\<And>c. c < N \<Longrightarrow> cur c \<in> set T \<or> cur c = idl c"
    and "\<And>c. c < N \<Longrightarrow> idl c \<noteq> 0" and "\<And>c. c < N \<Longrightarrow> idl c \<notin> set T" and "\<And>c. c < N \<Longrightarrow> st (idl c) = IDLE"
    and "\<And>c d. c < N \<Longrightarrow> d < N \<Longrightarrow> cur c = cur d \<Longrightarrow> c = d" and "\<And>c d. c < N \<Longrightarrow> d < N \<Longrightarrow> idl c = idl d \<Longrightarrow> c = d"
    and "\<And>t. t \<in> set T \<Longrightarrow> ac t \<Longrightarrow> \<exists>c<N. t = cur c"
    and "\<And>c. c < N \<Longrightarrow> ac (idl c) \<Longrightarrow> \<exists>d<N. idl c = cur d"
  shows "sched_ok N Q T st ac cur idl"
  unfolding sched_ok_def
proof (intro conjI)
  show "\<forall>c<N. ac (cur c) \<and> (cur c \<in> set T \<or> cur c = idl c)" using assms(6,7) by blast
  show "\<forall>c<N. idl c \<noteq> 0 \<and> idl c \<notin> set T \<and> st (idl c) = IDLE" using assms(8-10) by blast
  show "\<forall>c<N. \<forall>d<N. cur c = cur d \<or> idl c = idl d \<longrightarrow> c = d" using assms(11,12) by blast
  show "\<forall>t. ac t \<and> (t \<in> set T \<or> (\<exists>c<N. t = idl c)) \<longrightarrow> (\<exists>c<N. t = cur c)" using assms(13,14) by blast
  show "\<forall>t. t \<in> set Q \<longleftrightarrow> t \<in> set T \<and> st t = AWAKE \<and> \<not> ac t" using assms(4) by blast
  show "\<forall>t\<in>set T. st t \<noteq> BUILDING \<and> st t \<noteq> IDLE" using assms(5) by blast
qed (fact assms)+

definition st_of :: "kernel \<Rightarrow> u32 \<Rightarrow> thread_state" where
  "st_of s t = t_state (thr s t)"

definition ac_of :: "kernel \<Rightarrow> u32 \<Rightarrow> bool" where
  "ac_of s t = t_active (thr s t)"

definition sched_inv :: "nat \<Rightarrow> kernel \<Rightarrow> bool" where
  "sched_inv N s = (tasking_up s \<and> sched_ok N (queued_threads s) (threads s) (st_of s) (ac_of s) (current s) (idle_task s))"

lemma sched_invD:
  assumes "sched_inv N s"
  shows "sched_ok N (queued_threads s) (threads s) (st_of s) (ac_of s) (current s) (idle_task s)" and "tasking_up s"
  using assms by (simp_all add: sched_inv_def)

lemma sched_inv_cong:
  assumes "sched_inv N s" and "same_sched s s'"
  shows "sched_inv N s'"
proof -
  have "st_of s' = st_of s" "ac_of s' = ac_of s" using assms(2) by (auto simp: fun_eq_iff st_of_def ac_of_def same_sched_def)
  then show ?thesis using assms by (simp add: sched_inv_def same_sched_def)
qed

text \<open>A thread changes its state without entering or leaving the queue.\<close>

lemma sched_ok_state:
  assumes ok: "sched_ok N Q T st ac cur idl" and t: "t \<in> set T" "ac t" and x: "x \<noteq> BUILDING" "x \<noteq> IDLE"
  shows "sched_ok N Q T (st(t := x)) ac cur idl"
proof (rule sched_okI)
  show "u \<in> set Q \<longleftrightarrow> u \<in> set T \<and> (st(t := x)) u = AWAKE \<and> \<not> ac u" for u using sched_okD(4) [OF ok, of u] t by auto
  show "(st(t := x)) u \<noteq> BUILDING \<and> (st(t := x)) u \<noteq> IDLE" if "u \<in> set T" for u using sched_okD(5) [OF ok that] x by simp
  show "(st(t := x)) (idl c) = IDLE" if "c < N" for c using sched_okD(9,10) [OF ok that] t by auto
qed (fact sched_okD [OF ok])+

lemma sched_ok_wake:
  assumes ok: "sched_ok N Q T st ac cur idl" and t: "t \<in> set T" "\<not> ac t" "st t \<noteq> AWAKE"
  shows "sched_ok N (t # Q) T (st(t := AWAKE)) ac cur idl"
proof (rule sched_okI)
  show "distinct (t # Q)" using sched_okD(1) [OF ok] sched_okD(4) [OF ok, of t] t(3) by auto
  show "u \<in> set (t # Q) \<longleftrightarrow> u \<in> set T \<and> (st(t := AWAKE)) u = AWAKE \<and> \<not> ac u" for u using sched_okD(4) [OF ok, of u] t by auto
  show "(st(t := AWAKE)) u \<noteq> BUILDING \<and> (st(t := AWAKE)) u \<noteq> IDLE" if "u \<in> set T" for u using sched_okD(5) [OF ok that] by simp
  show "(st(t := AWAKE)) (idl c) = IDLE" if "c < N" for c using sched_okD(9,10) [OF ok that] t by auto
qed (fact sched_okD [OF ok])+

lemma sched_ok_new:
  assumes ok: "sched_ok N Q T st ac cur idl" and t: "t \<notin> set T" "t \<noteq> 0" "\<not> ac t" "\<forall>c<N. t \<noteq> idl c" and x: "x \<noteq> BUILDING" "x \<noteq> IDLE" "x \<noteq> AWAKE"
  shows "sched_ok N Q (t # T) (st(t := x)) ac cur idl"
proof (rule sched_okI)
  show "distinct (t # T)" "0 \<notin> set (t # T)" using sched_okD(2,3) [OF ok] t by auto
  show "u \<in> set Q \<longleftrightarrow> u \<in> set (t # T) \<and> (st(t := x)) u = AWAKE \<and> \<not> ac u" for u using sched_okD(4) [OF ok, of u] t x by auto
  show "(st(t := x)) u \<noteq> BUILDING \<and> (st(t := x)) u \<noteq> IDLE" if "u \<in> set (t # T)" for u using sched_okD(5) [OF ok, of u] that x by auto
  show "(st(t := x)) (idl c) = IDLE" "idl c \<notin> set (t # T)" "cur c \<in> set (t # T) \<or> cur c = idl c" if "c < N" for c
    using sched_okD(7,9,10) [OF ok that] t that by auto
  show "\<exists>c<N. u = cur c" if "u \<in> set (t # T)" "ac u" for u using sched_okD(13) [OF ok, of u] that t by auto
qed (fact sched_okD [OF ok])+

lemma sched_ok_remove:
  assumes ok: "sched_ok N Q T st ac cur idl" and t: "\<not> ac t" "st t \<noteq> AWAKE"
  shows "sched_ok N Q (remove1 t T) st ac cur idl"
proof (rule sched_okI)
  have s: "set (remove1 t T) = set T - {t}" by (rule set_remove1_eq [OF sched_okD(2) [OF ok]])
  show "distinct (remove1 t T)" "0 \<notin> set (remove1 t T)" using sched_okD(2,3) [OF ok] by (auto dest: notin_set_remove1)
  show "u \<in> set Q \<longleftrightarrow> u \<in> set (remove1 t T) \<and> st u = AWAKE \<and> \<not> ac u" for u using sched_okD(4) [OF ok, of u] t unfolding s by auto
  show "st u \<noteq> BUILDING \<and> st u \<noteq> IDLE" if "u \<in> set (remove1 t T)" for u using sched_okD(5) [OF ok, of u] that unfolding s by auto
  show "cur c \<in> set (remove1 t T) \<or> cur c = idl c" if "c < N" for c using sched_okD(6,7) [OF ok that] t(1) unfolding s by auto
  show "idl c \<notin> set (remove1 t T)" if "c < N" for c using sched_okD(9) [OF ok that] unfolding s by auto
  show "\<exists>c<N. u = cur c" if "u \<in> set (remove1 t T)" "ac u" for u using sched_okD(13) [OF ok, of u] that unfolding s by auto
qed (fact sched_okD [OF ok])+

text \<open>The processor goes on to the first thread of the queue, or to its idle thread.\<close>

lemma sched_ok_switch:
  assumes ok: "sched_ok N (t # Q) T st ac cur idl" and c: "c < N" "st (cur c) \<noteq> AWAKE"
  shows "sched_ok N Q T st (ac(cur c := False, t := True)) (cur(c := t)) idl" and "t \<noteq> cur c" and "\<not> ac t" and "st t = AWAKE"
proof -
  have t: "t \<in> set T" "st t = AWAKE" "\<not> ac t" "t \<notin> set Q" using sched_okD(1) [OF ok] sched_okD(4) [OF ok, of t] by auto
  then show "\<not> ac t" "st t = AWAKE" by simp_all
  have a: "ac (cur c)" by (rule sched_okD(6) [OF ok c(1)])
  then show ne: "t \<noteq> cur c" using t(3) by auto
  have dn: "t \<noteq> cur d" if "d < N" for d using sched_okD(6) [OF ok that] t(3) by auto
  have other: "cur d \<noteq> cur c" if "d < N" "d \<noteq> c" for d using sched_okD(11) [OF ok that(1) c(1)] that(2) by blast
  let ?ac = "ac(cur c := False, t := True)" and ?cur = "cur(c := t)"
  have mv: "\<exists>d<N. u = ?cur d" if u: "?ac u" and d: "ac u \<Longrightarrow> \<exists>d<N. u = cur d" for u
  proof (cases "u = t")
    case True
    then show ?thesis using c(1) by (intro exI [of _ c]) simp
  next
    case False
    then have "u \<noteq> cur c" "ac u" using u by (auto split: if_splits)
    then obtain d' where "d' < N" "u = cur d'" using d by blast
    then show ?thesis using \<open>u \<noteq> cur c\<close> by (intro exI [of _ d']) auto
  qed
  show "sched_ok N Q T st ?ac ?cur idl"
  proof (rule sched_okI)
    show "u \<in> set Q \<longleftrightarrow> u \<in> set T \<and> st u = AWAKE \<and> \<not> ?ac u" for u
      using sched_okD(4) [OF ok, of u] t c(2) a by auto
    show "?ac (?cur d)" if "d < N" for d using sched_okD(6) [OF ok that] other [OF that] by auto
    show "?cur d \<in> set T \<or> ?cur d = idl d" if "d < N" for d using sched_okD(7) [OF ok that] t(1) by auto
    show "d = e" if "d < N" "e < N" "?cur d = ?cur e" for d e
      using that sched_okD(11) [OF ok that(1,2)] dn [OF that(1)] dn [OF that(2)] by (auto split: if_splits)
    show "\<exists>d<N. u = ?cur d" if "u \<in> set T" "?ac u" for u by (rule mv [OF that(2) sched_okD(13) [OF ok that(1)]])
    show "\<exists>d<N. idl e = ?cur d" if "e < N" "?ac (idl e)" for e by (rule mv [OF that(2) sched_okD(14) [OF ok that(1)]])
    show "distinct Q" using sched_okD(1) [OF ok] by simp
  qed (fact sched_okD [OF ok])+
qed

lemma sched_ok_idle:
  assumes ok: "sched_ok N Q T st ac cur idl" and c: "c < N" "st (cur c) \<noteq> AWAKE"
  shows "sched_ok N Q T st (ac(cur c := False, idl c := True)) (cur(c := idl c)) idl" and "cur c \<noteq> idl c \<Longrightarrow> \<not> ac (idl c)"
proof -
  have ni: "idl c \<noteq> cur d" if "d < N" "d \<noteq> c" for d
    using sched_okD(7) [OF ok that(1)] sched_okD(9) [OF ok c(1)] sched_okD(12) [OF ok c(1) that(1)] that(2) by auto
  show na: "\<not> ac (idl c)" if "cur c \<noteq> idl c" using sched_okD(14) [OF ok c(1)] ni that by (metis (full_types))
  have other: "cur d \<noteq> cur c" if "d < N" "d \<noteq> c" for d using sched_okD(11) [OF ok that(1) c(1)] that(2) by blast
  let ?ac = "ac(cur c := False, idl c := True)" and ?cur = "cur(c := idl c)"
  have mv: "\<exists>d<N. u = ?cur d" if u: "?ac u" and d: "ac u \<Longrightarrow> \<exists>d<N. u = cur d" for u
  proof (cases "u = idl c")
    case True
    then show ?thesis using c(1) by (intro exI [of _ c]) simp
  next
    case False
    then have "u \<noteq> cur c" "ac u" using u by (auto split: if_splits)
    then obtain d' where "d' < N" "u = cur d'" using d by blast
    then show ?thesis using \<open>u \<noteq> cur c\<close> by (intro exI [of _ d']) auto
  qed
  show "sched_ok N Q T st ?ac ?cur idl"
  proof (rule sched_okI)
    show "u \<in> set Q \<longleftrightarrow> u \<in> set T \<and> st u = AWAKE \<and> \<not> ?ac u" for u
      using sched_okD(4) [OF ok, of u] c(2) sched_okD(6,9,10) [OF ok c(1)] by auto
    show "?ac (?cur d)" if "d < N" for d using sched_okD(6) [OF ok that] other [OF that] by auto
    show "?cur d \<in> set T \<or> ?cur d = idl d" if "d < N" for d using sched_okD(7) [OF ok that] by auto
    show "d = e" if "d < N" "e < N" "?cur d = ?cur e" for d e
      using that sched_okD(11) [OF ok that(1,2)] ni [OF that(1)] ni [OF that(2)] by (auto split: if_splits)
    show "\<exists>d<N. u = ?cur d" if "u \<in> set T" "?ac u" for u by (rule mv [OF that(2) sched_okD(13) [OF ok that(1)]])
    show "\<exists>d<N. idl e = ?cur d" if "e < N" "?ac (idl e)" for e by (rule mv [OF that(2) sched_okD(14) [OF ok that(1)]])
  qed (fact sched_okD [OF ok])+
qed

section \<open>The operations keep the invariant\<close>

lemma upd_thr_sel [simp]:
  "thr (upd_thr t f s) = (thr s)(t := f (thr s t))" "queued_threads (upd_thr t f s) = queued_threads s" "threads (upd_thr t f s) = threads s"
  "current (upd_thr t f s) = current s" "idle_task (upd_thr t f s) = idle_task s" "tasking_up (upd_thr t f s) = tasking_up s"
  "switch_time (upd_thr t f s) = switch_time s" "poll_threads (upd_thr t f s) = poll_threads s" "suspended_threads (upd_thr t f s) = suspended_threads s"
  by (simp_all add: upd_thr_def)

lemma st_upd [simp]:
  "st_of (upd_thr t (\<lambda>x. x\<lparr>t_state := v\<rparr>) s) = (st_of s)(t := v)" "ac_of (upd_thr t (\<lambda>x. x\<lparr>t_state := v\<rparr>) s) = ac_of s"
  "ac_of (upd_thr t (\<lambda>x. x\<lparr>t_active := b\<rparr>) s) = (ac_of s)(t := b)" "st_of (upd_thr t (\<lambda>x. x\<lparr>t_active := b\<rparr>) s) = st_of s"
  "st_of (s\<lparr>queued_threads := q\<rparr>) = st_of s" "ac_of (s\<lparr>queued_threads := q\<rparr>) = ac_of s"
  "st_of (s\<lparr>threads := q\<rparr>) = st_of s" "ac_of (s\<lparr>threads := q\<rparr>) = ac_of s"
  "st_of (s\<lparr>threads := q, thread_count := n\<rparr>) = st_of s" "ac_of (s\<lparr>threads := q, thread_count := n\<rparr>) = ac_of s"
  "st_of (s\<lparr>queued_threads := q, tasks_going := n\<rparr>) = st_of s" "ac_of (s\<lparr>queued_threads := q, tasks_going := n\<rparr>) = ac_of s"
  "st_of (s\<lparr>current := cu\<rparr>) = st_of s" "ac_of (s\<lparr>current := cu\<rparr>) = ac_of s"
  "st_of (s\<lparr>switch_time := sw\<rparr>) = st_of s" "ac_of (s\<lparr>switch_time := sw\<rparr>) = ac_of s"
  by (auto simp: st_of_def ac_of_def upd_thr_def fun_eq_iff)

lemmas fold_st = st_of_def [symmetric] ac_of_def [symmetric]

lemma sleep_ok:
  assumes inv: "sched_inv N s" and c: "c < N" "st_of s (current s c) = AWAKE"
  shows "\<exists>s'. thread_sleep_prepare c s = Some s' \<and> sched_inv N s'"
proof -
  note ok = sched_invD(1) [OF inv] and up = sched_invD(2) [OF inv]
  let ?t = "current s c"
  have a: "ac_of s ?t" by (rule sched_okD(6) [OF ok c(1)])
  have "?t \<in> set (threads s)" using sched_okD(7) [OF ok c(1)] sched_okD(10) [OF ok c(1)] c(2) by auto
  then have "sched_inv N (upd_thr ?t (\<lambda>x. x\<lparr>t_state := SLEEPING\<rparr>) s)"
    unfolding sched_inv_def by (simp add: up sched_ok_state [OF ok _ a])
  then show ?thesis using a c(2) by (simp add: thread_sleep_prepare_def Let_def fold_st)
qed

lemma die_ok:
  assumes inv: "sched_inv N s" and c: "c < N" "current s c \<noteq> idle_task s c"
  shows "sched_inv N (thread_die c s)"
proof -
  note ok = sched_invD(1) [OF inv] and up = sched_invD(2) [OF inv]
  have "ac_of s (current s c)" "current s c \<in> set (threads s)" using sched_okD(6,7) [OF ok c(1)] c(2) by auto
  from sched_ok_state [OF ok this(2) this(1), of EXITED] show ?thesis
    unfolding sched_inv_def thread_die_def by (simp add: up)
qed

lemma wake_ok:
  assumes inv: "sched_inv N s" and t: "t \<in> set (threads s)" "st_of s t \<noteq> EXITED"
  shows "\<exists>s'. do_wake t s = Some s' \<and> sched_inv N s' \<and> st_of s' t = AWAKE
    \<and> (ac_of s' t \<or> t \<in> set (queued_threads s'))"
proof (cases "st_of s t = AWAKE")
  case True
  then show ?thesis using inv sched_okD(4) [OF sched_invD(1) [OF inv], of t] t(1) by (auto simp: do_wake_def fold_st)
next
  case False
  note ok = sched_invD(1) [OF inv] and up = sched_invD(2) [OF inv]
  have sl: "st_of s t = SLEEPING" using False t sched_okD(5) [OF ok t(1)] by (cases "st_of s t") auto
  have nq: "t \<notin> set (queued_threads s)" using sched_okD(4) [OF ok, of t] sl by simp
  show ?thesis
  proof (cases "ac_of s t")
    case True
    then show ?thesis using sl sched_ok_state [OF ok t(1) True, of AWAKE] by (simp add: do_wake_def Let_def sched_inv_def up fold_st)
  next
    case F: False
    then show ?thesis using sl nq sched_ok_wake [OF ok t(1) F] by (simp add: do_wake_def Let_def link_def sched_inv_def up fold_st)
  qed
qed

lemma schedule_ok:
  assumes inv: "sched_inv N s" and t: "t \<notin> set (threads s)" "t \<noteq> 0" "\<not> ac_of s t" "\<forall>c<N. t \<noteq> idle_task s c"
  shows "\<exists>s'. thread_schedule t s = Some s' \<and> sched_inv N s' \<and> t \<in> set (queued_threads s')"
proof -
  note ok = sched_invD(1) [OF inv] and up = sched_invD(2) [OF inv]
  let ?s = "upd_thr t (\<lambda>x. x\<lparr>t_state := SLEEPING\<rparr>) (s\<lparr>threads := t # threads s, thread_count := thread_count s + 1\<rparr>)"
  have "sched_inv N ?s" unfolding sched_inv_def using sched_ok_new [OF ok t, of SLEEPING] up by simp
  then obtain s' where "do_wake t ?s = Some s'" "sched_inv N s'" "ac_of s' t \<or> t \<in> set (queued_threads s')"
    using wake_ok [of N ?s t] by auto
  moreover have "\<not> ac_of s' t" using calculation(1) t(3) by (auto simp: do_wake_def Let_def link_def fold_st split: if_splits)
  ultimately show ?thesis using t(1) by (simp add: thread_schedule_def link_def)
qed

text \<open>What is left of the scheduler's state when a thread stops running.\<close>

lemma deactivate_effect:
  assumes "deactivate_thread t s = Some s1" and "t \<noteq> 0"
  shows "current s1 = current s \<and> idle_task s1 = idle_task s \<and> tasking_up s1 = tasking_up s
    \<and> st_of s1 = st_of s \<and> ac_of s1 = ac_of s
    \<and> queued_threads s1 = (if st_of s t = AWAKE then t # queued_threads s else queued_threads s)
    \<and> threads s1 = (if st_of s t = EXITED then remove1 t (threads s) else threads s)"
proof (cases "st_of s t")
  case EXITED
  then have x: "t_state (thr s t) = EXITED" by (simp add: st_of_def)
  from assms obtain ts tl s' s2 where
    e: "unlink t (threads s) = Some ts" "put_fs_context t (upd_node (t_node (thr s t)) (\<lambda>x. x\<lparr>n_threads := tl\<rparr>) (s\<lparr>threads := ts\<rparr>)) = Some s'"
    "put_ufds t s' = Some s2" "(if n_threads (nodes (put_task_node t s2) (t_node (thr (put_task_node t s2) t))) = []
       then task_node_zombify (t_node (thr (put_task_node t s2) t)) (put_task_node t s2) else Some (put_task_node t s2)) = Some s1"
    by (simp add: deactivate_thread_def x Let_def bind_eq_Some_conv) blast
  have "same_sched (put_task_node t s2) s1" using e(4) task_node_zombify_same by (auto split: if_splits)
  moreover have "same_sched s2 (put_task_node t s2)" by simp
  moreover have "same_sched (s\<lparr>threads := ts\<rparr>) s'" using put_fs_context_same [OF e(2)] by simp
  moreover note put_ufds_same [OF e(3)]
  ultimately have "same_sched (s\<lparr>threads := ts\<rparr>) s1" by (meson same_sched_trans)
  then show ?thesis using e(1) EXITED by (auto simp: same_sched_def unlink_def st_of_def ac_of_def fun_eq_iff split: if_splits)
qed (use assms in \<open>auto simp: deactivate_thread_def link_def Let_def st_of_def ac_of_def split: if_splits\<close>)

lemma finish_ok:
  assumes "old \<noteq> next \<Longrightarrow> \<not> ac_of s next" and "st_of s next = IDLE \<or> st_of s next = AWAKE"
  shows "\<exists>s'. finish_sched_switch now c old next s = Some s' \<and> queued_threads s' = queued_threads s \<and> threads s' = threads s
    \<and> st_of s' = st_of s \<and> ac_of s' = (ac_of s)(old := False, next := True) \<and> current s' = (current s)(c := next)
    \<and> idle_task s' = idle_task s \<and> tasking_up s' = tasking_up s"
proof -
  have "st_of (upd_thr next (\<lambda>x. x\<lparr>t_active := True\<rparr>) (upd_thr old (\<lambda>x. x\<lparr>t_active := False\<rparr>) (s\<lparr>current := cu\<rparr>))) next = st_of s next" for cu
    by simp
  then show ?thesis using assms
    by (auto simp: finish_sched_switch_def Let_def st_of_def [symmetric, of _ "next"] ac_of_def [symmetric, of _ "next"] simp del: upd_thr_sel(1))
qed

lemma awake_switch:
  assumes inv: "sched_inv N s" and c: "c < N" "st_of s (current s c) = AWAKE"
  shows "\<exists>s'. do_sched_switch now c s = Some s' \<and> sched_inv N s' \<and> current s' = current s \<and> queued_threads s' = queued_threads s"
proof -
  let ?t = "current s c"
  note ok = sched_invD(1) [OF inv] and up = sched_invD(2) [OF inv]
  have T: "?t \<in> set (threads s)" using sched_okD(7,10) [OF ok c(1)] c(2) by auto
  have a: "ac_of s ?t" "?t \<noteq> 0" using sched_okD(6) [OF ok c(1)] sched_okD(3) [OF ok] T by auto
  have nq: "?t \<notin> set (queued_threads s)" using sched_okD(4) [OF ok, of ?t] a by simp
  have st: "t_state (thr s ?t) = AWAKE" "t_active (thr s ?t)" using c(2) a by (simp_all add: st_of_def ac_of_def)
  let ?s1 = "s\<lparr>queued_threads := ?t # queued_threads s, tasks_going := tasks_going s - 1\<rparr>"
  let ?s2 = "?s1\<lparr>queued_threads := queued_threads s, tasks_going := tasks_going s - 1 + 1\<rparr>"
  have d: "deactivate_thread ?t s = Some ?s1" using st a(2) nq by (simp add: deactivate_thread_def link_def)
  have l: "lock_next_current c ?s1 = Some (?s2, ?t)" using up st by (simp add: lock_next_current_def)
  have "st_of ?s2 = st_of s" "ac_of ?s2 = ac_of s" by (simp_all add: st_of_def ac_of_def fun_eq_iff)
  then obtain s' where f: "finish_sched_switch now c ?t ?t ?s2 = Some s'" "queued_threads s' = queued_threads s" "threads s' = threads s"
    "st_of s' = st_of s" "ac_of s' = ac_of s" "current s' = current s" "idle_task s' = idle_task s" "tasking_up s' = tasking_up s"
    using finish_ok [of ?t ?t ?s2 now c] c(2) a(1) by (auto simp: fun_upd_idem)
  then show ?thesis using d l a(2) inv by (simp add: do_sched_switch_def Let_def sched_inv_def)
qed

lemma other_switch:
  assumes inv: "sched_inv N s" and c: "c < N" "st_of s (current s c) \<noteq> AWAKE" and d: "deactivate_thread (current s c) s = Some s1"
  shows "\<exists>s'. do_sched_switch now c s = Some s' \<and> sched_inv N s'"
proof -
  let ?t = "current s c"
  note ok = sched_invD(1) [OF inv] and up = sched_invD(2) [OF inv]
  have t0: "?t \<noteq> 0" using sched_okD(7,8) [OF ok c(1)] sched_okD(3) [OF ok] by auto
  note e = deactivate_effect [OF d t0]
  let ?T = "if st_of s ?t = EXITED then remove1 ?t (threads s) else threads s"
  have fin: "\<exists>s'. do_sched_switch now c s = Some s' \<and> sched_inv N s'"
    if ln: "lock_next_current c s1 = Some (s2, n)" "queued_threads s2 = Q" "threads s2 = ?T" "st_of s2 = st_of s" "ac_of s2 = ac_of s"
        "current s2 = current s" "idle_task s2 = idle_task s" "tasking_up s2"
      and n: "n \<noteq> ?t \<Longrightarrow> \<not> ac_of s n" "st_of s n = IDLE \<or> st_of s n = AWAKE" "?t \<noteq> n \<or> st_of s ?t = IDLE"
      and k: "sched_ok N Q (threads s) (st_of s) ((ac_of s)(?t := False, n := True)) ((current s)(c := n)) (idle_task s)" for s2 n Q
  proof -
    have n': "?t \<noteq> n \<Longrightarrow> \<not> ac_of s2 n" "st_of s2 n = IDLE \<or> st_of s2 n = AWAKE" using n ln by auto
    obtain s' where f: "finish_sched_switch now c ?t n s2 = Some s'" "queued_threads s' = Q" "threads s' = ?T"
      "st_of s' = st_of s" "ac_of s' = (ac_of s)(?t := False, n := True)" "current s' = (current s)(c := n)" "idle_task s' = idle_task s" "tasking_up s'"
      using finish_ok [of ?t n s2, OF n', of now c] ln by auto
    have "sched_ok N Q ?T (st_of s) ((ac_of s)(?t := False, n := True)) ((current s)(c := n)) (idle_task s)"
      proof (cases "st_of s ?t = EXITED")
      case True
      then have "\<not> ((ac_of s)(?t := False, n := True)) ?t" using n(3) by auto
      from sched_ok_remove [OF k this c(2)] show ?thesis unfolding if_P [OF True] .
    qed (use k in simp)
    then show ?thesis using f ln d t0 by (simp add: do_sched_switch_def Let_def sched_inv_def)
  qed
  show ?thesis
  proof (cases "queued_threads s")
    case Nil
    then have "lock_next_current c s1 = Some (s1, idle_task s c)" using e c(2) by (simp add: lock_next_current_def)
    moreover have "?t \<noteq> idle_task s c \<or> st_of s ?t = IDLE" using sched_okD(10) [OF ok c(1)] by auto
    ultimately show ?thesis
      using fin [of s1 "idle_task s c" "[]"] e c up Nil sched_ok_idle [OF ok c] sched_okD(10) [OF ok c(1)] by auto
  next
    case (Cons n Q)
    note sw = sched_ok_switch [OF ok [unfolded Cons] c]
    let ?s2 = "s1\<lparr>queued_threads := Q, tasks_going := tasks_going s1 + 1\<rparr>"
    have "t_state (thr s1 n) = AWAKE" using e sw(4) by (simp add: st_of_def fun_eq_iff)
    then have "lock_next_current c s1 = Some (?s2, n)" using e c(2) up Cons by (simp add: lock_next_current_def)
    then show ?thesis using fin [of ?s2 n Q] e c(2) up sw by auto
  qed
qed

section \<open>The end of a thread\<close>

text \<open>
  What the death of a thread needs of the bookkeeping: the thread is on the list of its task, its
  contexts hold references, its task is not the first one, and neither the task nor one of its children
  is on a list of zombies already.
\<close>

definition exit_clean :: "u32 \<Rightarrow> kernel \<Rightarrow> bool" where
  "exit_clean t s = (let n = t_node (thr s t) in
     t \<in> set (n_threads (nodes s n))
     \<and> (t_fs (thr s t) \<noteq> 0 \<longrightarrow> fc_refs (fscs s (t_fs (thr s t))) \<noteq> 0) \<and> (t_ufd (thr s t) \<noteq> 0 \<longrightarrow> uc_refs (ufdcs s (t_ufd (thr s t))) \<noteq> 0)
     \<and> n_pid (nodes s n) \<noteq> 1 \<and> \<not> n_zombie_on (nodes s n)
     \<and> distinct (n_children (nodes s n)) \<and> n \<notin> set (n_children (nodes s n))
     \<and> (\<forall>c\<in>set (n_children (nodes s n)). \<not> n_zombie_on (nodes s c)))"

lemma zombie_add_ok:
  assumes "\<not> n_zombie_on (nodes s c)"
  shows "\<exists>s'. zombie_add c h s = Some s' \<and> (\<forall>n. n_exit_state (nodes s' n) = n_exit_state (nodes s n)
    \<and> n_children (nodes s' n) = n_children (nodes s n) \<and> (n \<noteq> c \<longrightarrow> n_zombie_on (nodes s' n) = n_zombie_on (nodes s n)))"
  using assms by (simp add: zombie_add_def upd_node_def)

lemma reparent_succeeds:
  assumes "n_exit_state (nodes s n) = TASK_EXITED" and "distinct cs" and "\<forall>c\<in>set cs. \<not> n_zombie_on (nodes s c)"
  shows "\<exists>s'. reparent_loop n cs s = Some s'"
  using assms
proof (induction cs arbitrary: s)
  case (Cons c cs)
  obtain s1 where z: "zombie_add c (init_node s) s = Some s1" "n_exit_state (nodes s1 n) = TASK_EXITED"
    "\<forall>d\<in>set cs. n_zombie_on (nodes s1 d) = n_zombie_on (nodes s d)"
    using Cons.prems zombie_add_ok [of s c "init_node s"] by (metis distinct.simps(2) list.set_intros(1))
  have "\<exists>s'. reparent_loop n cs s1 = Some s'" by (rule Cons.IH) (use Cons.prems z in auto)
  then show ?case using Cons.prems(1) z(1) by simp
qed simp

lemma zombify_succeeds:
  assumes "n_pid (nodes s n) \<noteq> 1" and "\<not> n_zombie_on (nodes s n)"
    and "distinct (n_children (nodes s n))" and "n \<notin> set (n_children (nodes s n))"
    and "\<forall>c\<in>set (n_children (nodes s n)). \<not> n_zombie_on (nodes s c)"
  shows "\<exists>s'. task_node_zombify n s = Some s'"
proof -
  let ?s1 = "upd_node n (\<lambda>x. x\<lparr>n_exit_state := TASK_EXITED\<rparr>) s" and ?p = "n_parent (nodes s n)"
  have p: "n_pid (nodes ?s1 n) \<noteq> 1" "n_parent (nodes ?s1 n) = ?p" using assms(1) by (simp_all add: upd_node_def)
  define z where "z = (if task_node_ensure_not_exiting ?p ?s1 then zombie_add n ?p ?s1 else Some ?s1)"
  have s1: "n_exit_state (nodes ?s1 n) = TASK_EXITED" "\<And>c. n_children (nodes ?s1 c) = n_children (nodes s c)"
    "\<And>c. n_zombie_on (nodes ?s1 c) = n_zombie_on (nodes s c)" by (simp_all add: upd_node_def)
  obtain s2 where s2: "z = Some s2" "n_exit_state (nodes s2 n) = TASK_EXITED" "n_children (nodes s2 n) = n_children (nodes s n)"
    "\<forall>c\<in>set (n_children (nodes s n)). \<not> n_zombie_on (nodes s2 c)"
    using assms(2,4,5) s1 zombie_add_ok [of ?s1 n ?p] unfolding z_def by (cases "task_node_ensure_not_exiting ?p ?s1") (simp_all, metis)
  have "\<exists>s'. reparent_loop n (n_children (nodes s2 n)) s2 = Some s'"
    by (rule reparent_succeeds) (use s2 assms(3) in auto)
  moreover have "task_node_zombify n s = z \<bind> (\<lambda>s2. reparent_loop n (n_children (nodes s2 n)) s2)"
    using p by (simp add: task_node_zombify_def Let_def z_def)
  ultimately show ?thesis using s2(1) by simp
qed

lemma put_fs_context_keeps:
  assumes "t_fs (thr s t) \<noteq> 0 \<Longrightarrow> fc_refs (fscs s (t_fs (thr s t))) \<noteq> 0"
  shows "\<exists>s'. put_fs_context t s = Some s' \<and> nodes s' = nodes s \<and> t_node (thr s' t) = t_node (thr s t)
    \<and> t_ufd (thr s' t) = t_ufd (thr s t) \<and> ufdcs s' = ufdcs s \<and> init_node s' = init_node s"
  using assms by (cases "t_fs (thr s t) = 0") (simp_all add: put_fs_context_def Let_def upd_thr_def upd_fsc_def)

lemma put_ufds_keeps:
  assumes "t_ufd (thr s t) \<noteq> 0 \<Longrightarrow> uc_refs (ufdcs s (t_ufd (thr s t))) \<noteq> 0"
  shows "\<exists>s'. put_ufds t s = Some s' \<and> nodes s' = nodes s \<and> t_node (thr s' t) = t_node (thr s t) \<and> init_node s' = init_node s"
  using assms by (cases "t_ufd (thr s t) = 0") (simp_all add: put_ufds_def Let_def upd_thr_def upd_ufdc_def)

lemma exit_succeeds:
  assumes x: "st_of s t = EXITED" and m: "t \<in> set (threads s)" and cl: "exit_clean t s"
  shows "\<exists>s'. deactivate_thread t s = Some s'"
proof (cases "t = 0")
  case False
  let ?n = "t_node (thr s t)"
  note c = cl [unfolded exit_clean_def Let_def]
  define s0 where "s0 = upd_node ?n (\<lambda>y. y\<lparr>n_threads := remove1 t (n_threads y)\<rparr>) (s\<lparr>threads := remove1 t (threads s)\<rparr>)"
  obtain s1 where f: "put_fs_context t s0 = Some s1" "nodes s1 = nodes s0" "t_node (thr s1 t) = ?n" "t_ufd (thr s1 t) = t_ufd (thr s t)"
    "ufdcs s1 = ufdcs s" "init_node s1 = init_node s"
    using c put_fs_context_keeps [of s0 t] by (auto simp: s0_def upd_node_def)
  obtain s2 where u: "put_ufds t s1 = Some s2" "nodes s2 = nodes s0" "t_node (thr s2 t) = ?n" "init_node s2 = init_node s"
    using c f put_ufds_keeps [of s1 t] by auto
  let ?s3 = "put_task_node t s2"
  have "\<exists>s'. task_node_zombify ?n ?s3 = Some s'"
    by (rule zombify_succeeds) (use c u in \<open>auto simp: put_task_node_def obtain_task_node_def Let_def s0_def upd_node_def\<close>)
  moreover have "t_node (thr ?s3 t) = ?n" using u(3) by (simp add: put_task_node_def Let_def upd_node_def)
  ultimately show ?thesis using False x m c f(1) u(1)
    by (simp add: deactivate_thread_def st_of_def Let_def unlink_def s0_def upd_node_def)
qed (simp add: deactivate_thread_def)

section \<open>Runs of the scheduler\<close>

lemma switch_ok:
  assumes inv: "sched_inv N s" and c: "c < N" and x: "st_of s (current s c) = EXITED \<Longrightarrow> exit_clean (current s c) s"
  shows "\<exists>s'. do_sched_switch now c s = Some s'"
proof (cases "st_of s (current s c) = AWAKE")
  case True
  then show ?thesis using awake_switch [OF inv c True] by blast
next
  case False
  note ok = sched_invD(1) [OF inv]
  have "st_of s (current s c) \<noteq> BUILDING" using sched_okD(5,7,10) [OF ok] c by (metis thread_state.distinct(7))
  moreover have "current s c \<in> set (threads s)" if "st_of s (current s c) = EXITED"
    using sched_okD(7,10) [OF ok c] that by auto
  ultimately have "\<exists>s1. deactivate_thread (current s c) s = Some s1"
    using False x exit_succeeds [of s "current s c"] by (cases "st_of s (current s c)") (auto simp: deactivate_thread_def st_of_def)
  then show ?thesis using other_switch [OF inv c False] by blast
qed

lemma switch_keeps:
  assumes inv: "sched_inv N s" and c: "c < N" and d: "do_sched_switch now c s = Some s'"
  shows "sched_inv N s'"
proof (cases "st_of s (current s c) = AWAKE")
  case True
  then show ?thesis using awake_switch [OF inv c True, of now] d by auto
next
  case False
  have "\<exists>s1. deactivate_thread (current s c) s = Some s1" using d by (auto simp: do_sched_switch_def Let_def split: if_splits Option.bind_splits)
  then show ?thesis using other_switch [OF inv c False, of _ now] d by auto
qed

text \<open>A thread that has exited is still running: it leaves the list of threads when its processor switches.\<close>

definition exited_run :: "kernel \<Rightarrow> bool" where
  "exited_run s = (\<forall>t\<in>set (threads s). st_of s t = EXITED \<longrightarrow> ac_of s t)"

lemma exited_run_cong: "exited_run s \<Longrightarrow> same_sched s s' \<Longrightarrow> exited_run s'"
  by (auto simp: exited_run_def same_sched_def st_of_def ac_of_def)

lemma switch_exited:
  assumes inv: "sched_inv N s" and c: "c < N" and x: "exited_run s" and d: "do_sched_switch now c s = Some s'"
  shows "exited_run s'"
proof -
  let ?t = "current s c"
  note ok = sched_invD(1) [OF inv]
  have t0: "?t \<noteq> 0" using sched_okD(7,8) [OF ok c] sched_okD(3) [OF ok] by auto
  obtain s1 s2 n where s: "deactivate_thread ?t s = Some s1" "lock_next_current c s1 = Some (s2, n)" "finish_sched_switch now c ?t n s2 = Some s'"
    using d t0 by (auto simp: do_sched_switch_def Let_def split: Option.bind_splits)
  note e = deactivate_effect [OF s(1) t0]
  have l: "st_of s2 = st_of s1" "ac_of s2 = ac_of s1" "threads s2 = threads s1"
    using s(2) by (auto simp: lock_next_current_def st_of_def ac_of_def fun_eq_iff split: if_splits list.splits thread_state.splits)
  have f: "st_of s' = st_of s2" "threads s' = threads s2" "\<And>u. u \<noteq> ?t \<Longrightarrow> ac_of s2 u \<Longrightarrow> ac_of s' u"
    using s(3) by (auto simp: finish_sched_switch_def Let_def st_of_def ac_of_def upd_thr_def fun_eq_iff split: if_splits)
  show ?thesis
    unfolding exited_run_def
  proof (intro ballI impI)
    fix u assume u: "u \<in> set (threads s')" "st_of s' u = EXITED"
    have "u \<noteq> ?t" using u e l f sched_okD(2) [OF ok] by (auto split: if_splits)
    moreover have "ac_of s2 u" using u e l f x by (auto simp: exited_run_def split: if_splits dest: notin_set_remove1)
    ultimately show "ac_of s' u" by (rule f(3))
  qed
qed

lemma wake_exited:
  assumes "sched_inv N s" and "exited_run s" and "t \<in> set (threads s)"
  shows "\<exists>s'. do_wake t s = Some s' \<and> sched_inv N s' \<and> exited_run s'"
proof (cases "st_of s t = EXITED")
  case True
  then have "do_wake t s = Some s" using assms(2,3) by (simp add: exited_run_def do_wake_def st_of_def ac_of_def)
  then show ?thesis using assms by blast
next
  case False
  from wake_ok [OF assms(1,3) False] obtain s' where w: "do_wake t s = Some s'" "sched_inv N s'" by blast
  then have "threads s' = threads s" "\<And>u. st_of s' u = EXITED \<Longrightarrow> st_of s u = EXITED" "ac_of s' = ac_of s"
    by (auto simp: do_wake_def Let_def link_def st_of_def ac_of_def fun_eq_iff split: if_splits)
  then show ?thesis using w assms(2) by (auto simp: exited_run_def)
qed

text \<open>
  One step of the kernel as the scheduler sees it; a failing step has the result \<^term>\<open>None\<close>. Threads that
  are woken or sent signals are on the list of threads, which a thread leaves when it dies; a thread
  that is scheduled is new. Everything else the kernel does leaves the scheduler's own state alone.
\<close>

inductive sched_step :: "nat \<Rightarrow> kernel \<Rightarrow> kernel option \<Rightarrow> bool" for N where
  sleep: "c < N \<Longrightarrow> st_of s (current s c) = AWAKE \<Longrightarrow> sched_step N s (thread_sleep_prepare c s)"
| wake: "t \<in> set (threads s) \<Longrightarrow> sched_step N s (thread_wake t s)"
| send: "t \<in> set (threads s) \<Longrightarrow> sched_step N s (thread_send_signal t sig s)"
| schedule: "t \<notin> set (threads s) \<Longrightarrow> t \<noteq> 0 \<Longrightarrow> \<not> ac_of s t \<Longrightarrow> \<forall>c<N. t \<noteq> idle_task s c \<Longrightarrow> sched_step N s (thread_schedule t s)"
| die: "c < N \<Longrightarrow> current s c \<noteq> idle_task s c \<Longrightarrow> sched_step N s (Some (thread_die c s))"
| switch: "c < N \<Longrightarrow> sched_step N s (do_sched_switch now c s)"
| other: "same_sched s s' \<Longrightarrow> sched_step N s (Some s')"

text \<open>The steps but the switch always succeed.\<close>

lemma plain_step_ok:
  assumes st: "sched_step N s r" and inv: "sched_inv N s" "exited_run s" and n: "\<And>c now. c < N \<Longrightarrow> r \<noteq> do_sched_switch now c s"
  shows "\<exists>s'. r = Some s' \<and> sched_inv N s' \<and> exited_run s'"
  using st
proof cases
  case (sleep c)
  obtain s' where s: "thread_sleep_prepare c s = Some s'" "sched_inv N s'" using sleep_ok [OF inv(1) sleep(2,3)] by blast
  then have "exited_run s'" using inv(2) by (auto simp: exited_run_def thread_sleep_prepare_def Let_def split: if_splits)
  then show ?thesis using s sleep(1) by blast
next
  case (wake t)
  then show ?thesis using wake_exited [OF inv, of t] by (auto simp: thread_wake_def)
next
  case (send t sig)
  let ?s = "upd_thr t (\<lambda>x. x\<lparr>t_sig_pending := sigaddset (t_sig_pending x) sig\<rparr>) s"
  have "same_sched s ?s" by simp
  note i = sched_inv_cong [OF inv(1) this] exited_run_cong [OF inv(2) this]
  have "threads ?s = threads s" by simp
  then show ?thesis using wake_exited [OF i, of t] send i by (auto simp: thread_send_signal_def thread_poke_def)
next
  case (schedule t)
  obtain s' where s: "thread_schedule t s = Some s'" "sched_inv N s'" using schedule_ok [OF inv(1) schedule(2-5)] by blast
  then have "threads s' = t # threads s" "\<And>u. st_of s' u = EXITED \<Longrightarrow> u \<noteq> t \<and> st_of s u = EXITED" "ac_of s' = ac_of s"
    by (auto simp: thread_schedule_def do_wake_def Let_def link_def st_of_def ac_of_def upd_thr_def fun_eq_iff split: if_splits)
  then have "exited_run s'" using inv(2) by (auto simp: exited_run_def)
  then show ?thesis using s schedule(1) by blast
next
  case (die c)
  have "ac_of s (current s c)" using sched_okD(6) [OF sched_invD(1) [OF inv(1)] die(2)] .
  then have "exited_run (thread_die c s)" using inv(2) by (auto simp: exited_run_def thread_die_def)
  then show ?thesis using die die_ok [OF inv(1)] by blast
next
  case (switch c now)
  then show ?thesis using n by blast
next
  case (other s')
  then show ?thesis using sched_inv_cong [OF inv(1)] exited_run_cong [OF inv(2)] by blast
qed

lemma step_ok:
  assumes "sched_step N s r" and inv: "sched_inv N s" "exited_run s"
  shows "(\<forall>s'. r = Some s' \<longrightarrow> sched_inv N s' \<and> exited_run s')
    \<and> (r = None \<longrightarrow> (\<exists>c<N. st_of s (current s c) = EXITED \<and> \<not> exit_clean (current s c) s))"
proof (cases "\<exists>c now. c < N \<and> r = do_sched_switch now c s")
  case True
  then obtain c now where "c < N" "r = do_sched_switch now c s" by blast
  then show ?thesis using switch_keeps [OF inv(1)] switch_exited [OF inv(1) _ inv(2)] switch_ok [OF inv(1), of c now] by (metis option.distinct(1))
next
  case False
  then show ?thesis using plain_step_ok [OF assms] by auto
qed

inductive sched_run :: "nat \<Rightarrow> kernel \<Rightarrow> kernel \<Rightarrow> bool" for N s where
  start: "sched_run N s s"
| step: "sched_run N s s1 \<Longrightarrow> sched_step N s1 (Some s2) \<Longrightarrow> sched_run N s s2"

lemma run_ok: "sched_run N s s' \<Longrightarrow> sched_inv N s \<Longrightarrow> exited_run s \<Longrightarrow> sched_inv N s' \<and> exited_run s'"
  by (induction rule: sched_run.induct) (auto dest: step_ok)

text \<open>
  A machine with two processors. Thread \<open>16\<close> runs on processor 0, processor 1 is idle, and threads \<open>32\<close>
  and \<open>48\<close> are ready.
\<close>

definition demo_thread :: "thread_state \<Rightarrow> bool \<Rightarrow> thread" where
  "demo_thread st a = \<lparr>t_ufd = 0, t_fs = 0, t_node = 4096, t_active = a, t_flags = 0, t_state = st, t_sig_pending = 0, t_should_die = False\<rparr>"

definition demo_node :: task_node where
  "demo_node = \<lparr>n_refs = 1, n_pid = 2, n_parent = 8192, n_argv = 0, n_envp = 0, n_exit_state = TASK_RUNNING, n_exit_code = 0,
     n_exit_cause = 0, n_sigtramp = 0, n_sigactions = (\<lambda>_. default_sigaction), n_sig_mask = 0, n_session = 0, n_pgroup = 0,
     n_threads = [16, 32, 48], n_children = [], n_zombies = [], n_zombie_on = False\<rparr>"

definition demo_kernel :: kernel where
  "demo_kernel = \<lparr>k_heap = small_heap,
     thr = (\<lambda>t. if t = 16 then demo_thread AWAKE True else if t = 80 then demo_thread IDLE True
       else if t = 64 then demo_thread IDLE False else demo_thread AWAKE False),
     nodes = (\<lambda>n. if n = 4096 then demo_node else demo_node\<lparr>n_pid := 1, n_parent := 0\<rparr>),
     ufdcs = (\<lambda>_. \<lparr>uc_refs = 1, uc_table = (\<lambda>_. \<lparr>u_flags = 0, u_gfd = 0\<rparr>), uc_mem = 0\<rparr>),
     fscs = (\<lambda>_. \<lparr>fc_refs = 1, fc_root = \<lparr>p_mount = 0, p_dentry = 0\<rparr>, fc_pwd = \<lparr>p_mount = 0, p_dentry = 0\<rparr>\<rparr>),
     file_refs = (\<lambda>_. 0), gfdt_entries_in_use = 0, closed = [],
     psessions = (\<lambda>_. \<lparr>g_leader = 4096, g_members = []\<rparr>), pgroups_at = (\<lambda>_. \<lparr>g_leader = 4096, g_members = []\<rparr>),
     threads = [16, 32, 48], queued_threads = [32, 48], poll_threads = [], tasks = [4096, 8192], sessions = [], pgroups = [],
     next_pid = 3, thread_count = 3, suspended_threads = 0, tasks_going = 1, tasking_up = True, init_node = 8192,
     root_path = \<lparr>p_mount = 0, p_dentry = 0\<rparr>, file_cache = 9,
     current = (\<lambda>c. if c = 0 then 16 else 80), idle_task = (\<lambda>c. if c = 0 then 64 else 80), switch_time = (\<lambda>_. 0)\<rparr>"

lemma demo_sel:
  "queued_threads demo_kernel = [32, 48]" "threads demo_kernel = [16, 32, 48]" "tasking_up demo_kernel"
  "current demo_kernel = (\<lambda>c. if c = 0 then 16 else 80)" "idle_task demo_kernel = (\<lambda>c. if c = 0 then 64 else 80)"
  "st_of demo_kernel = (\<lambda>t. if t = 64 \<or> t = 80 then IDLE else AWAKE)" "ac_of demo_kernel = (\<lambda>t. t = 16 \<or> t = 80)"
  by (auto simp: demo_kernel_def demo_thread_def st_of_def ac_of_def fun_eq_iff)

lemma demo_inv: "sched_inv 2 demo_kernel"
proof -
  have "sched_ok 2 [32, 48] [16, 32, 48] (\<lambda>t. if t = 64 \<or> t = 80 then IDLE else AWAKE) (\<lambda>t. t = 16 \<or> t = 80)
    (\<lambda>c. if c = 0 then 16 else 80) (\<lambda>c. if c = 0 then 64 else 80)"
    by (rule sched_okI) (auto simp: less_2_cases_iff)
  then show ?thesis by (simp add: sched_inv_def demo_sel)
qed

lemma demo_exited: "exited_run demo_kernel"
  by (simp add: exited_run_def demo_sel)



text \<open>
  C2: A thread that is awake when its processor switches is put at the head of the queue, from which
  the same switch takes it again: the switch at the end of a quantum always returns to the running
  thread, however many threads wait, and leaves the queue as it was.
\<close>

theorem awake_thread_keeps_processor:
  assumes "sched_inv N s" and "c < N" and "t_state (thr s (current s c)) = AWAKE"
    and "t_should_die (thr s (current s c)) \<longrightarrow> \<not> is_user"
  shows "\<exists>s'. sched_try_resched now c is_user s = Some s' \<and> current s' = current s \<and> queued_threads s' = queued_threads s"
proof -
  obtain s' where s': "do_sched_switch now c s = Some s'" "current s' = current s" "queued_threads s' = queued_threads s"
    using awake_switch [OF assms(1,2), of now] assms(3) unfolding st_of_def by blast
  have d: "\<not> (t_should_die (thr s (current s c)) \<and> is_user)" using assms(4) by blast
  show ?thesis unfolding sched_try_resched_def Let_def if_not_P [OF d] using s' sched_invD(2) [OF assms(1)] assms(3) by simp
qed

theorem awake_thread_keeps_processor_witness:
  "\<exists>s'. sched_try_resched 200 0 True demo_kernel = Some s' \<and> current s' 0 = 16 \<and> queued_threads s' = [32, 48]"
proof -
  have d: "t_should_die (thr demo_kernel 16) = False" by (simp add: demo_kernel_def demo_thread_def)
  have "t_state (thr demo_kernel 16) = AWAKE" using fun_cong [OF demo_sel(6), of 16] by (simp add: st_of_def)
  then show ?thesis using awake_thread_keeps_processor [OF demo_inv, of 0 True 200] d by (auto simp: demo_sel)
qed

end
