(* ===== verification/Descriptors.thy ===== *)
theory Descriptors
  imports Task
begin

text \<open>
  The descriptor tables of \<^verbatim>\<open>sched/sched.c\<close> together with the file table of \<^verbatim>\<open>fs/fd.c\<close> and the system
  calls on descriptors alone (\<^verbatim>\<open>close\<close>, \<^verbatim>\<open>dup\<close> and \<^verbatim>\<open>dup2\<close> of \<^verbatim>\<open>sched/syscall.c\<close>): a file lives exactly
  as long as it has a descriptor.
\<close>

section \<open>Descriptors and files\<close>

text \<open>
  In a consistent state every file counts its descriptors and is an object of the file cache while it
  has any.
\<close>

definition fd_sys :: "u32 set \<Rightarrow> (nat \<times> nat) set \<Rightarrow> u32 set \<Rightarrow> kernel \<Rightarrow> bool" where
  "fd_sys C L us s = (fd_inv us s \<and> heap_inv (k_heap s) C L \<and> file_cache s \<in> C
     \<and> (\<forall>f. f \<noteq> 0 \<and> 0 < fd_uses us s f \<longrightarrow> f \<in> objs (k_heap s) (file_cache s)))"

lemma fd_sysD:
  assumes "fd_sys C L us s"
  shows "fd_inv us s" and "heap_inv (k_heap s) C L" and "file_cache s \<in> C"
    and "f \<noteq> 0 \<Longrightarrow> 0 < fd_uses us s f \<Longrightarrow> f \<in> objs (k_heap s) (file_cache s)"
  using assms by (simp_all add: fd_sys_def)

definition entry :: "nat \<Rightarrow> kernel \<Rightarrow> nat \<Rightarrow> u32" where
  "entry c s i = u_gfd (uc_table (ufdcs s (obtain_ufds (current s c) s)) i)"

lemma entry_slot:
  assumes "current s' = current s" and "thr s' = thr s" and "ufdcs s' = ufdcs (set_slot (obtain_ufds (current s c) s) i e s)"
  shows "entry c s' = (entry c s)(i := u_gfd e)"
  using assms by (auto simp: entry_def obtain_ufds_def fun_eq_iff)

lemma ufdt_get_entry: "ufdt_get c i s = (if i < 512 then entry c s (unat i) else 0)"
  by (simp add: ufdt_get_def Let_def ufdt_is_present_def entry_def)

lemma fd_uses_pos:
  assumes "fd_inv us s" and "u \<in> us" and "i < 512" and "u_gfd (uc_table (ufdcs s u) i) = f"
  shows "0 < fd_uses us s f"
proof -
  have "i \<in> {j. j < 512 \<and> u_gfd (uc_table (ufdcs s u) j) = f}" using assms(3,4) by simp
  then have "0 < slot_uses s f u" unfolding slot_uses_def by (intro card_gt_0_iff [THEN iffD2]) auto
  then show ?thesis using fd_invD(1) [OF assms(1)] assms(2) by (auto simp: fd_uses_def intro: sum_pos2)
qed

lemma install_sys:
  assumes sys: "fd_sys C L us s" and u: "obtain_ufds (current s c) s \<in> us" and f: "f \<in> objs (k_heap s) (file_cache s)"
    and d: "d < 512" "entry c s (unat d) = 0"
  shows "\<exists>s'. ufdt_install (obtain_ufds (current s c) s) d f s = Some s' \<and> fd_sys C L us s' \<and> entry c s' = (entry c s)(unat d := f)
    \<and> (\<forall>g. g \<noteq> 0 \<longrightarrow> fd_uses us s' g = fd_uses us s g + of_bool (g = f)) \<and> closed s' = closed s
    \<and> k_heap s' = k_heap s \<and> file_cache s' = file_cache s \<and> current s' = current s \<and> thr s' = thr s"
proof -
  let ?u = "obtain_ufds (current s c) s"
  let ?s' = "set_slot ?u (unat d) \<lparr>u_flags = 0, u_gfd = f\<rparr> (gfdt_get f s)"
  have f0: "f \<noteq> 0" by (rule slab.not_null [OF fd_sysD(2,3) [OF sys] f])
  have inv: "fd_inv us ?s'" by (rule install_inv [OF fd_sysD(1) [OF sys] u d(1) _ f0]) (use d(2) in \<open>simp add: entry_def\<close>)
  have i: "unat d < 512" using d(1) by (simp add: word_less_nat_alt)
  have us: "fd_uses us ?s' g = fd_uses us s g + of_bool (g = f)" if "g \<noteq> 0" for g
    using fd_uses_slot [OF fd_invD(1) [OF fd_sysD(1) [OF sys]] u i, of "\<lparr>u_flags = 0, u_gfd = f\<rparr>" "gfdt_get f s" g] d(2) that
      fd_uses_frame [of "gfdt_get f s" s us g] by (auto simp: gfdt_get_def entry_def)
  have "g \<in> objs (k_heap s) (file_cache s)" if "g \<noteq> 0" "0 < fd_uses us ?s' g" for g
    using that us [OF that(1)] f fd_sysD(4) [OF sys that(1)] by (cases "g = f") auto
  then have "fd_sys C L us ?s'" using inv fd_sysD(2,3) [OF sys] by (simp add: fd_sys_def gfdt_get_def)
  moreover have "entry c ?s' = (entry c s)(unat d := f)" by (auto simp: entry_def obtain_ufds_def gfdt_get_def set_slot_def upd_ufdc_def)
  ultimately show ?thesis using install_eq [OF d(1)] us by (auto simp: gfdt_get_def)
qed

lemma add_find:
  "ufdt_add c f s = (let d = ufdt_find_next (ufdcs s (obtain_ufds (current s c) s)) in
     if d = UFD_INVALID then Some (s, d) else do { s1 \<leftarrow> ufdt_install (obtain_ufds (current s c) s) d f s; Some (s1, d) })"
  by (simp add: ufdt_add_def Let_def)

lemma put_ok:
  assumes "heap_inv (k_heap s) C L" and "file_cache s \<in> C" and "f \<in> objs (k_heap s) (file_cache s)"
  shows "\<exists>s'. gfdt_put f s = Some s' \<and> heap_inv (k_heap s') C L \<and> file_cache s' = file_cache s
    \<and> objs (k_heap s') (file_cache s) = (if unat (file_refs s f) \<le> 1 then objs (k_heap s) (file_cache s) - {f} else objs (k_heap s) (file_cache s))"
proof -
  obtain h where h: "cache_free (file_cache s) f (k_heap s) = Some h" "heap_inv h C L" "objs h (file_cache s) = objs (k_heap s) (file_cache s) - {f}"
    using slab.free_live [OF assms] by blast
  have "(if file_refs s f \<noteq> 0 then file_refs s f - 1 else 0) = 0 \<longleftrightarrow> unat (file_refs s f) \<le> 1"
  proof (cases "file_refs s f = 0")
    case False
    then have "unat (file_refs s f - 1) = unat (file_refs s f) - 1" "0 < unat (file_refs s f)" by (simp_all add: unat_minus_one unat_gt_0)
    then have "unat (file_refs s f - 1) = 0 \<longleftrightarrow> unat (file_refs s f) \<le> 1" by linarith
    then show ?thesis using False unfolding unat_eq_0 by simp
  qed simp
  then show ?thesis using h assms(1) by (auto simp: gfdt_put_def gfdt_free_def Let_def)
qed

lemma close_sys:
  assumes sys: "fd_sys C L us s" and u: "obtain_ufds (current s c) s \<in> us" and i: "i < 512" "entry c s (unat i) = f" "f \<noteq> 0"
  shows "\<exists>s'. do_ufdt_close (obtain_ufds (current s c) s) i s = Some s' \<and> fd_sys C L us s' \<and> entry c s' = (entry c s)(unat i := 0)
    \<and> closed s' = (if fd_uses us s f = 1 then f # closed s else closed s)
    \<and> objs (k_heap s') (file_cache s') = (if fd_uses us s f = 1 then objs (k_heap s) (file_cache s) - {f} else objs (k_heap s) (file_cache s))
    \<and> (\<forall>g. g \<noteq> 0 \<longrightarrow> fd_uses us s' g + of_bool (g = f) = fd_uses us s g) \<and> current s' = current s \<and> thr s' = thr s"
proof -
  let ?u = "obtain_ufds (current s c) s"
  note inv = fd_sysD(1) [OF sys]
  have iu: "unat i < 512" using i(1) by (simp add: word_less_nat_alt)
  have g: "u_gfd (uc_table (ufdcs s ?u) (unat i)) = f" using i(2) by (simp add: entry_def)
  have pos: "0 < fd_uses us s f" by (rule fd_uses_pos [OF inv u iu g])
  obtain s1 where p: "gfdt_put f s = Some s1" "heap_inv (k_heap s1) C L" "file_cache s1 = file_cache s"
    "objs (k_heap s1) (file_cache s) = (if unat (file_refs s f) \<le> 1 then objs (k_heap s) (file_cache s) - {f} else objs (k_heap s) (file_cache s))"
    using put_ok [OF fd_sysD(2,3) [OF sys] fd_sysD(4) [OF sys i(3) pos]] by blast
  have one: "unat (file_refs s f) \<le> 1 \<longleftrightarrow> fd_uses us s f = 1" using fd_invD(3) [OF inv i(3)] pos by auto
  let ?s' = "set_slot ?u (unat i) \<lparr>u_flags = 0, u_gfd = 0\<rparr> s1"
  have c: "do_ufdt_close ?u i s = Some ?s'" using p(1) g by (simp add: do_ufdt_close_def set_slot_def)
  note ci = close_inv [OF inv u i(1) g i(3) c]
  have us: "fd_uses us ?s' g + of_bool (g = f) = fd_uses us s g" if "g \<noteq> 0" for g
    using fd_uses_slot [OF fd_invD(1) [OF inv] u iu, of "\<lparr>u_flags = 0, u_gfd = 0\<rparr>" s g] g that fd_uses_frame [OF ci(3), of us g] by auto
  have "g \<in> objs (k_heap ?s') (file_cache ?s')" if "g \<noteq> 0" "0 < fd_uses us ?s' g" for g
    using us [OF that(1)] that fd_sysD(4) [OF sys that(1)] p(3,4) one by auto
  then have "fd_sys C L us ?s'" using ci(1) p fd_sysD(3) [OF sys] by (simp add: fd_sys_def)
  moreover have "entry c ?s' = (entry c s)(unat i := 0)" using entry_slot [OF ci(4,5,3)] by simp
  ultimately show ?thesis using c ci(2,4,5) p one us by auto
qed


section \<open>System calls on descriptors\<close>

definition sys_close :: "nat \<Rightarrow> u32 \<Rightarrow> kernel \<Rightarrow> (kernel \<times> u32) option" where
  "sys_close c i s =
     (if ufdt_get c i s \<noteq> 0 then do { (s1, _) \<leftarrow> ufdt_close c i s; Some (s1, 0) } else Some (s, - EINVAL))"

definition sys_dup :: "nat \<Rightarrow> u32 \<Rightarrow> kernel \<Rightarrow> (kernel \<times> u32) option" where
  "sys_dup c i s = (let fd = ufdt_get c i s in if fd = 0 then Some (s, - EBADF) else ufdt_add c fd s)"

definition sys_dup2 :: "nat \<Rightarrow> u32 \<Rightarrow> u32 \<Rightarrow> kernel \<Rightarrow> (kernel \<times> u32) option" where
  "sys_dup2 c i j s =
     (let fd = ufdt_get c i s
      in if fd = 0 then Some (s, - EBADF)
         else do { s1 \<leftarrow> (if i \<noteq> j then do { (s1, _) \<leftarrow> ufdt_replace c j fd s; Some s1 } else Some s); Some (s1, j) })"

definition files_exact :: "u32 set \<Rightarrow> kernel \<Rightarrow> bool" where
  "files_exact us s = (objs (k_heap s) (file_cache s) = {f. f \<noteq> 0 \<and> 0 < fd_uses us s f})"

definition fd_state :: "u32 set \<Rightarrow> (nat \<times> nat) set \<Rightarrow> u32 set \<Rightarrow> nat \<Rightarrow> kernel \<Rightarrow> bool" where
  "fd_state C L us c s = (fd_sys C L us s \<and> files_exact us s \<and> obtain_ufds (current s c) s \<in> us)"

lemma fd_stateD:
  assumes "fd_state C L us c s"
  shows "fd_sys C L us s" and "obtain_ufds (current s c) s \<in> us" and "f \<in> objs (k_heap s) (file_cache s) \<longleftrightarrow> f \<noteq> 0 \<and> 0 < fd_uses us s f"
  using assms by (auto simp: fd_state_def files_exact_def)

lemma entry_file:
  fixes i :: u32
  assumes st: "fd_state C L us c s" and i: "i < 512" "entry c s (unat i) = f" "f \<noteq> 0"
  shows "f \<in> objs (k_heap s) (file_cache s)"
proof -
  have "unat i < 512" using i(1) by (simp add: word_less_nat_alt)
  then have "0 < fd_uses us s f" using fd_uses_pos [OF fd_sysD(1) [OF fd_stateD(1) [OF st]] fd_stateD(2) [OF st]] i(2) by (simp add: entry_def)
  then show ?thesis using fd_stateD(3) [OF st] i(3) by simp
qed

lemma close_state:
  assumes st: "fd_state C L us c s" and i: "i < 512" "entry c s (unat i) = f" "f \<noteq> 0"
  shows "\<exists>s'. do_ufdt_close (obtain_ufds (current s c) s) i s = Some s' \<and> fd_state C L us c s' \<and> entry c s' = (entry c s)(unat i := 0)
    \<and> (\<forall>g. g \<noteq> 0 \<longrightarrow> fd_uses us s' g + of_bool (g = f) = fd_uses us s g)
    \<and> closed s' = (if fd_uses us s f = 1 then f # closed s else closed s) \<and> current s' = current s \<and> thr s' = thr s"
proof -
  from close_sys [OF fd_stateD(1,2) [OF st] i] obtain s' where
    c: "do_ufdt_close (obtain_ufds (current s c) s) i s = Some s'" "fd_sys C L us s'" "entry c s' = (entry c s)(unat i := 0)"
    "closed s' = (if fd_uses us s f = 1 then f # closed s else closed s)" "current s' = current s" "thr s' = thr s"
    and o: "objs (k_heap s') (file_cache s') = (if fd_uses us s f = 1 then objs (k_heap s) (file_cache s) - {f} else objs (k_heap s) (file_cache s))"
    and us: "\<forall>g. g \<noteq> 0 \<longrightarrow> fd_uses us s' g + of_bool (g = f) = fd_uses us s g"
    by blast
  have "g \<in> objs (k_heap s') (file_cache s') \<longleftrightarrow> g \<noteq> 0 \<and> 0 < fd_uses us s' g" for g
    using o us [rule_format, of g] fd_stateD(3) [OF st, of g] i(3) by (cases "g = f") auto
  then have "fd_state C L us c s'" using c(2,5,6) fd_stateD(2) [OF st] by (auto simp: fd_state_def files_exact_def obtain_ufds_def)
  then show ?thesis using c us by blast
qed

lemma install_state:
  assumes st: "fd_state C L us c s" and f: "f \<in> objs (k_heap s) (file_cache s)" and d: "d < 512" "entry c s (unat d) = 0"
  shows "\<exists>s'. ufdt_install (obtain_ufds (current s c) s) d f s = Some s' \<and> fd_state C L us c s' \<and> entry c s' = (entry c s)(unat d := f) \<and> closed s' = closed s"
proof -
  from install_sys [OF fd_stateD(1,2) [OF st] f d] obtain s' where
    c: "ufdt_install (obtain_ufds (current s c) s) d f s = Some s'" "fd_sys C L us s'" "entry c s' = (entry c s)(unat d := f)" "closed s' = closed s"
    and us: "\<forall>g. g \<noteq> 0 \<longrightarrow> fd_uses us s' g = fd_uses us s g + of_bool (g = f)"
    and h: "k_heap s' = k_heap s" "file_cache s' = file_cache s" "current s' = current s" "thr s' = thr s" by blast
  have "g \<in> objs (k_heap s') (file_cache s') \<longleftrightarrow> g \<noteq> 0 \<and> 0 < fd_uses us s' g" for g
    using us [rule_format, of g] fd_stateD(3) [OF st, of g] f h by (cases "g = f") auto
  then have "fd_state C L us c s'" using c(2) h fd_stateD(2) [OF st] by (auto simp: fd_state_def files_exact_def obtain_ufds_def)
  then show ?thesis using c by blast
qed

text \<open>The descriptor \<^verbatim>\<open>ufdt_add\<close> chooses is the lowest one that is free.\<close>

lemma add_state:
  assumes st: "fd_state C L us c s" and f: "f \<in> objs (k_heap s) (file_cache s)"
  shows "\<exists>s' d. ufdt_add c f s = Some (s', d) \<and> fd_state C L us c s' \<and> closed s' = closed s
    \<and> (if \<forall>j<512. entry c s j \<noteq> 0 then d = UFD_INVALID \<and> s' = s
       else d < 512 \<and> entry c s (unat d) = 0 \<and> (\<forall>k<unat d. entry c s k \<noteq> 0) \<and> entry c s' = (entry c s)(unat d := f))"
proof (cases "\<forall>j<512. entry c s j \<noteq> 0")
  case True
  then have "ufdt_find_next (ufdcs s (obtain_ufds (current s c) s)) = UFD_INVALID" by (intro find_next_full) (simp add: entry_def)
  then show ?thesis using True st by (simp add: add_find)
next
  case False
  then obtain j where j: "j < 512" "entry c s j = 0" by blast
  let ?d = "ufdt_find_next (ufdcs s (obtain_ufds (current s c) s))"
  have n: "?d < 512" "entry c s (unat ?d) = 0" "\<forall>k<unat ?d. entry c s k \<noteq> 0"
    using find_next_free [OF j(1), of "ufdcs s (obtain_ufds (current s c) s)"] j(2) by (auto simp: entry_def)
  have "?d \<noteq> UFD_INVALID" using n(1) by (auto simp: UFD_INVALID_def)
  then show ?thesis using install_state [OF st f n(1,2)] n False by (auto simp: add_find Let_def)
qed

lemma replace_state:
  assumes st: "fd_state C L us c s" and i: "i < 512" "entry c s (unat i) = f" "f \<noteq> 0" and j: "j < 512" "j \<noteq> i"
  shows "\<exists>s'. ufdt_replace c j f s = Some (s', 0) \<and> fd_state C L us c s' \<and> entry c s' = (entry c s)(unat j := f)"
proof -
  have ji: "unat j \<noteq> unat i" "unat j < 512" using j by (simp_all add: word_unat_eq_iff word_less_nat_alt)
  have "\<exists>s1. (if ufdt_is_present (ufdcs s (obtain_ufds (current s c) s)) j then do_ufdt_close (obtain_ufds (current s c) s) j s else Some s) = Some s1
      \<and> fd_state C L us c s1 \<and> entry c s1 = (entry c s)(unat j := 0) \<and> obtain_ufds (current s1 c) s1 = obtain_ufds (current s c) s"
  proof (cases "entry c s (unat j) = 0")
    case True
    then show ?thesis using st j(1) present_eq [OF j(1)] by (simp add: entry_def [symmetric] fun_upd_idem)
  next
    case False
    then have "ufdt_is_present (ufdcs s (obtain_ufds (current s c) s)) j" using present_eq [OF j(1)] by (simp add: entry_def)
    then show ?thesis using close_state [OF st j(1) refl False] by (auto simp: obtain_ufds_def)
  qed
  then obtain s1 where s1: "(if ufdt_is_present (ufdcs s (obtain_ufds (current s c) s)) j then do_ufdt_close (obtain_ufds (current s c) s) j s else Some s) = Some s1"
    "fd_state C L us c s1" "entry c s1 = (entry c s)(unat j := 0)" "obtain_ufds (current s1 c) s1 = obtain_ufds (current s c) s" by blast
  have "f \<in> objs (k_heap s1) (file_cache s1)" by (rule entry_file [OF s1(2) i(1) _ i(3)]) (use s1(3) ji i(2) in simp)
  from install_state [OF s1(2) this j(1)] s1(3) obtain s' where "ufdt_install (obtain_ufds (current s1 c) s1) j f s1 = Some s'"
    "fd_state C L us c s'" "entry c s' = (entry c s)(unat j := f)" by auto
  then show ?thesis using s1(1,4) by (simp add: ufdt_replace_def Let_def)
qed


datatype fd_call = Close u32 | Dup u32 | Dup2 u32 u32

fun run_call :: "nat \<Rightarrow> fd_call \<Rightarrow> kernel \<Rightarrow> (kernel \<times> u32) option" where
  "run_call c (Close i) s = sys_close c i s"
| "run_call c (Dup i) s = sys_dup c i s"
| "run_call c (Dup2 i j) s = sys_dup2 c i j s"

fun run_calls :: "nat \<Rightarrow> fd_call list \<Rightarrow> kernel \<Rightarrow> kernel option" where
  "run_calls c [] s = Some s"
| "run_calls c (x # xs) s = do { (s1, _) \<leftarrow> run_call c x s; run_calls c xs s1 }"

fun in_table :: "fd_call \<Rightarrow> bool" where
  "in_table (Dup2 i j) = (j < 512)"
| "in_table _ = True"

lemma run_call_state:
  assumes st: "fd_state C L us c s" and ok: "in_table x"
  shows "\<exists>s' r. run_call c x s = Some (s', r) \<and> fd_state C L us c s'"
proof (cases x)
  case (Close i)
  show ?thesis
  proof (cases "ufdt_get c i s = 0")
    case False
    then have i: "i < 512" "entry c s (unat i) \<noteq> 0" by (auto simp: ufdt_get_entry split: if_splits)
    then have "ufdt_is_present (ufdcs s (obtain_ufds (current s c) s)) i" using present_eq [OF i(1)] by (simp add: entry_def)
    then show ?thesis using close_state [OF st i(1) refl i(2)] Close False by (auto simp: sys_close_def ufdt_close_def Let_def)
  qed (use Close st in \<open>simp add: sys_close_def\<close>)
next
  case (Dup i)
  show ?thesis
  proof (cases "ufdt_get c i s = 0")
    case False
    then have "ufdt_get c i s \<in> objs (k_heap s) (file_cache s)" using entry_file [OF st] by (auto simp: ufdt_get_entry split: if_splits)
    from add_state [OF st this] show ?thesis using Dup False by (auto simp: sys_dup_def Let_def)
  qed (use Dup st in \<open>simp add: sys_dup_def\<close>)
next
  case (Dup2 i j)
  show ?thesis
  proof (cases "ufdt_get c i s = 0 \<or> i = j")
    case False
    then have i: "i < 512" "entry c s (unat i) = ufdt_get c i s" "ufdt_get c i s \<noteq> 0" by (auto simp: ufdt_get_entry split: if_splits)
    from replace_state [OF st i, of j] show ?thesis using Dup2 False ok by (auto simp: sys_dup2_def Let_def)
  qed (use Dup2 st in \<open>auto simp: sys_dup2_def Let_def\<close>)
qed

lemma run_calls_state: "fd_state C L us c s \<Longrightarrow> list_all in_table xs \<Longrightarrow> \<exists>s'. run_calls c xs s = Some s' \<and> fd_state C L us c s'"
proof (induction xs arbitrary: s)
  case (Cons x xs)
  then obtain s1 r where "run_call c x s = Some (s1, r)" "fd_state C L us c s1" using run_call_state [of C L us c s x] by auto
  then show ?case using Cons by simp
qed simp



definition one_file :: "heap \<Rightarrow> u32 \<Rightarrow> kernel" where
  "one_file h f = (let nowhere = \<lparr>p_mount = 0, p_dentry = 0\<rparr>; nobody = \<lparr>g_leader = 0, g_members = []\<rparr> in
     \<lparr>k_heap = h, thr = (\<lambda>_. \<lparr>t_ufd = 256, t_fs = 0, t_node = 0, t_active = True, t_flags = 0, t_state = AWAKE, t_sig_pending = 0, t_should_die = False\<rparr>),
      nodes = (\<lambda>_. \<lparr>n_refs = 1, n_pid = 1, n_parent = 0, n_argv = 0, n_envp = 0, n_exit_state = TASK_RUNNING, n_exit_code = 0, n_exit_cause = 0, n_sigtramp = 0,
        n_sigactions = (\<lambda>_. default_sigaction), n_sig_mask = 0, n_session = 0, n_pgroup = 0, n_threads = [], n_children = [], n_zombies = [], n_zombie_on = False\<rparr>),
      ufdcs = (\<lambda>_. \<lparr>uc_refs = 1, uc_table = empty_table(0 := \<lparr>u_flags = 0, u_gfd = f\<rparr>), uc_mem = 0\<rparr>),
      fscs = (\<lambda>_. \<lparr>fc_refs = 1, fc_root = nowhere, fc_pwd = nowhere\<rparr>), file_refs = (\<lambda>_. 0)(f := 1), gfdt_entries_in_use = 1, closed = [],
      psessions = (\<lambda>_. nobody), pgroups_at = (\<lambda>_. nobody), threads = [], queued_threads = [], poll_threads = [], tasks = [], sessions = [], pgroups = [],
      next_pid = 2, thread_count = 0, suspended_threads = 0, tasks_going = 0, tasking_up = True, init_node = 0, root_path = nowhere, file_cache = 9,
      current = (\<lambda>_. 16), idle_task = (\<lambda>_. 0), switch_time = (\<lambda>_. 0)\<rparr>)"

lemma one_file_sel:
  "k_heap (one_file h f) = h" "file_cache (one_file h f) = 9" "file_refs (one_file h f) = (\<lambda>_. 0)(f := 1)"
  "ufdcs (one_file h f) u = \<lparr>uc_refs = 1, uc_table = empty_table(0 := \<lparr>u_flags = 0, u_gfd = f\<rparr>), uc_mem = 0\<rparr>"
  "obtain_ufds (current (one_file h f) c) (one_file h f) = 256"
  by (simp_all add: one_file_def Let_def obtain_ufds_def)

lemma one_file_uses: "g \<noteq> 0 \<Longrightarrow> fd_uses {256} (one_file h f) g = of_bool (g = f)"
proof -
  assume "g \<noteq> 0"
  then have "{i. i < 512 \<and> u_gfd ((empty_table(0 := \<lparr>u_flags = 0, u_gfd = f\<rparr>)) i) = g} = (if g = f then {0} else {})"
    by (auto simp: empty_table_def)
  then show ?thesis by (simp add: fd_uses_def slot_uses_def one_file_sel)
qed

lemma one_file_ok:
  assumes "cache_alloc 9 small_heap = Some (h, f)"
  shows "fd_inv {256} (one_file h f)" and "heap_inv h (set [3, 4, 5, 6, 7, 8, 9, 10, 11]) {}" and "objs h 9 = {g. g \<noteq> 0 \<and> 0 < fd_uses {256} (one_file h f) g}"
    and "f \<noteq> 0"
proof -
  have "objs small_heap 9 = {}" by (auto simp: objs_def live_objs_def small_heap_def cpages_def)
  moreover note n = cache_alloc_new [OF small_heap_inv _ assms, simplified]
  ultimately have o: "objs h 9 = {f}" "f \<noteq> 0" by auto
  then show "f \<noteq> 0" "objs h 9 = {g. g \<noteq> 0 \<and> 0 < fd_uses {256} (one_file h f) g}" using one_file_uses by auto
  show "heap_inv h (set [3, 4, 5, 6, 7, 8, 9, 10, 11]) {}" using n by simp
  show "fd_inv {256} (one_file h f)" using one_file_uses by (simp add: fd_inv_def one_file_sel)
qed


text \<open>
  C33: \<^verbatim>\<open>dup2\<close> does not check its target: for an open descriptor and a target from 512 on the kernel writes
  outside the memory of the descriptor table.
\<close>

theorem dup2_beyond_table:
  assumes "ufdt_get c i s \<noteq> 0" and "i \<noteq> j" and "512 \<le> j"
  shows "sys_dup2 c i j s = None"
proof -
  have "\<not> ufdt_is_present (ufdcs s u) j" for u using assms(3) by (simp add: ufdt_is_present_def not_less [symmetric])
  moreover have "ufdt_install u j f s = None" for u f using assms(3) by (simp add: ufdt_install_def not_less [symmetric])
  ultimately show ?thesis using assms(1,2) by (simp add: sys_dup2_def ufdt_replace_def Let_def)
qed

theorem dup2_beyond_table_witness: "\<exists>h f. cache_alloc 9 small_heap = Some (h, f) \<and> sys_dup2 0 0 600 (one_file h f) = None"
proof -
  have "plenty (Suc 7) small_heap" using small_heap_plenty by (simp add: eval_nat_numeral)
  then obtain h f where a: "cache_alloc 9 small_heap = Some (h, f)" using alloc_plenty [OF small_heap_inv, of 9 7] by auto
  have "ufdt_get 0 0 (one_file h f) \<noteq> 0" using one_file_ok(4) [OF a] by (simp add: ufdt_get_entry entry_def one_file_sel)
  from dup2_beyond_table [OF this, of 600] show ?thesis using a by simp
qed

end
