(* ===== verification/Vfs.thy ===== *)
theory Vfs
  imports Task Word_Ops Ram_FS
begin

text \<open>
  The name space of the virtual file system (\<^verbatim>\<open>fs/vfs.c\<close>) with the two drivers that fill it, the RAM
  file system (\<^verbatim>\<open>fs/type/ramfs.c\<close>, its inodes) and the device file system (\<^verbatim>\<open>fs/type/devfs.c\<close>).
  Dentries, inodes, mounts and file systems live at the addresses of their slab caches. A hash table
  is a function from bucket numbers to chains, first element first. Names and path names are byte
  lists without the final zero; the memory in which \<^verbatim>\<open>strdup\<close> keeps copies of them is not modelled.
\<close>

section \<open>Data\<close>


definition DIRECTORY_SEPARATOR :: u8 where "DIRECTORY_SEPARATOR = 47"

definition INODE_FLAG_DIRECTORY :: u32 where "INODE_FLAG_DIRECTORY = 1"
definition INODE_FLAG_MOUNTPOINT :: u32 where "INODE_FLAG_MOUNTPOINT = 2"

definition S_IFMT :: u32 where "S_IFMT = 0xF000"
definition S_IFDIR :: u32 where "S_IFDIR = 0x4000"
definition S_IFCHR :: u32 where "S_IFCHR = 0x2000"
definition S_IFBLK :: u32 where "S_IFBLK = 0x6000"
definition S_IFREG :: u32 where "S_IFREG = 0x8000"

definition S_ISDIR :: "u32 \<Rightarrow> bool" where "S_ISDIR m = (m AND S_IFMT = S_IFDIR)"
definition S_ISREG :: "u32 \<Rightarrow> bool" where "S_ISREG m = (m AND S_IFMT = S_IFREG)"

text \<open>The tables of operations an inode may point to.\<close>

datatype inode_ops = Ramfs_inode_ops | Devfs_root_inode_ops | Char_inode_ops | Block_inode_ops

record inode =
  in_fs :: u32
  in_ops :: inode_ops
  in_flags :: u32
  in_dev :: u32
  in_ino :: u32
  in_mode :: u32
  in_nlink :: u32
  in_uid :: u32
  in_gid :: u32
  in_rdev :: u32
  in_size :: u32
  in_atime :: u32
  in_mtime :: u32
  in_ctime :: u32
  in_blkshift :: u32
  in_blocks :: u32
  in_private :: u32

record dentry =
  d_fs :: u32
  d_name :: "u8 list"
  d_flags :: u32
  d_inode :: u32
  d_parent :: u32
  d_tab :: "u32 \<Rightarrow> u32 list"
  d_list :: "u32 list"

record mount =
  m_parent :: u32
  m_fs :: u32
  m_mountpoint :: u32

record fs =
  fs_type :: u32
  fs_root :: u32

datatype fs_driver = Ramfs_driver | Devfs_driver

record fs_type_desc =
  ft_name :: "u8 list"
  ft_driver :: fs_driver
  ft_instances :: "u32 list"

datatype device_type = CHAR_DEV | BLCK_DEV

record devfs_device =
  dv_name :: "u8 list"
  dv_dentry :: u32
  dv_type :: device_type
  dv_dev :: u32

record vfs =
  v_heap :: heap
  dentries :: "u32 \<Rightarrow> dentry"
  inodes :: "u32 \<Rightarrow> inode"
  mounts :: "u32 \<Rightarrow> mount"
  filesystems :: "u32 \<Rightarrow> fs"
  type_descs :: "u32 \<Rightarrow> fs_type_desc"
  records :: "u32 \<Rightarrow> ramfile"
  devices :: "u32 \<Rightarrow> devfs_device"
  fs_types :: "u32 \<Rightarrow> u32 list"
  mount_hashtable :: "u32 \<Rightarrow> u32 list"
  root_mount :: u32
  global_ino_count :: u32
  dentry_cache :: u32
  inode_cache :: u32
  fs_cache :: u32
  mount_cache :: u32
  record_cache :: u32
  devfs_fs :: u32
  devfs_pending :: "u32 list"
  devfs_devices :: "u32 list"

definition upd_dentry :: "u32 \<Rightarrow> (dentry \<Rightarrow> dentry) \<Rightarrow> vfs \<Rightarrow> vfs" where
  "upd_dentry d f s = s\<lparr>dentries := (dentries s)(d := f (dentries s d))\<rparr>"

definition upd_inode :: "u32 \<Rightarrow> (inode \<Rightarrow> inode) \<Rightarrow> vfs \<Rightarrow> vfs" where
  "upd_inode i f s = s\<lparr>inodes := (inodes s)(i := f (inodes s i))\<rparr>"

definition upd_mount :: "u32 \<Rightarrow> (mount \<Rightarrow> mount) \<Rightarrow> vfs \<Rightarrow> vfs" where
  "upd_mount m f s = s\<lparr>mounts := (mounts s)(m := f (mounts s m))\<rparr>"

definition upd_fs :: "u32 \<Rightarrow> (fs \<Rightarrow> fs) \<Rightarrow> vfs \<Rightarrow> vfs" where
  "upd_fs x f s = s\<lparr>filesystems := (filesystems s)(x := f (filesystems s x))\<rparr>"

definition upd_type :: "u32 \<Rightarrow> (fs_type_desc \<Rightarrow> fs_type_desc) \<Rightarrow> vfs \<Rightarrow> vfs" where
  "upd_type x f s = s\<lparr>type_descs := (type_descs s)(x := f (type_descs s x))\<rparr>"

text \<open>\<^verbatim>\<open>cache_alloc\<close> and \<^verbatim>\<open>cache_free\<close> on the heap of the state.\<close>

definition v_alloc :: "(vfs \<Rightarrow> u32) \<Rightarrow> vfs \<Rightarrow> (vfs \<times> u32) option" where
  "v_alloc c s = do { (h, p) \<leftarrow> cache_alloc (c s) (v_heap s); Some (s\<lparr>v_heap := h\<rparr>, p) }"

definition v_free :: "(vfs \<Rightarrow> u32) \<Rightarrow> u32 \<Rightarrow> vfs \<Rightarrow> vfs option" where
  "v_free c p s = do { h \<leftarrow> cache_free (c s) p (v_heap s); Some (s\<lparr>v_heap := h\<rparr>) }"

section \<open>Objects\<close>

definition DENTRY_HASH_BITS :: nat where "DENTRY_HASH_BITS = 5"

text \<open>The fields \<^verbatim>\<open>fs\<close> and \<^verbatim>\<open>private\<close> keep what the memory held.\<close>

definition dentry_alloc :: "u8 list \<Rightarrow> vfs \<Rightarrow> (vfs \<times> u32) option" where
  "dentry_alloc name s = do {
     (s1, d) \<leftarrow> v_alloc dentry_cache s;
     Some (upd_dentry d (\<lambda>x. x\<lparr>d_name := name, d_inode := 0, d_flags := 0, d_parent := 0, d_tab := (\<lambda>_. []), d_list := []\<rparr>) s1, d) }"

definition dentry_free :: "u32 \<Rightarrow> vfs \<Rightarrow> vfs option" where
  "dentry_free d s = v_free dentry_cache d s"

definition inode_alloc :: "u32 \<Rightarrow> inode_ops \<Rightarrow> vfs \<Rightarrow> (vfs \<times> u32) option" where
  "inode_alloc f ops s = do {
     (s1, i) \<leftarrow> v_alloc inode_cache s;
     Some (upd_inode i (\<lambda>_. \<lparr>in_fs = f, in_ops = ops, in_flags = 0, in_dev = 0, in_ino = global_ino_count s1, in_mode = 0,
        in_nlink = 0, in_uid = 0, in_gid = 0, in_rdev = 0, in_size = 0, in_atime = 0, in_mtime = 0, in_ctime = 0,
        in_blkshift = 0, in_blocks = 0, in_private = 0\<rparr>) (s1\<lparr>global_ino_count := global_ino_count s1 + 1\<rparr>), i) }"

definition fs_alloc :: "u32 \<Rightarrow> vfs \<Rightarrow> (vfs \<times> u32) option" where
  "fs_alloc ty s = do { (s1, f) \<leftarrow> v_alloc fs_cache s; Some (upd_fs f (\<lambda>x. x\<lparr>fs_type := ty\<rparr>) s1, f) }"

definition mount_alloc :: "u32 \<Rightarrow> vfs \<Rightarrow> (vfs \<times> u32) option" where
  "mount_alloc f s = do {
     (s1, m) \<leftarrow> v_alloc mount_cache s;
     Some (upd_mount m (\<lambda>_. \<lparr>m_parent = 0, m_fs = f, m_mountpoint = 0\<rparr>) s1, m) }"

definition child_index :: "u8 list \<Rightarrow> u32 option" where
  "child_index name = hashtable_index (str_to_key name (length name)) (DECLARE_HASHTABLE_size DENTRY_HASH_BITS)"

definition dentry_activate :: "u32 \<Rightarrow> u32 \<Rightarrow> vfs \<Rightarrow> vfs option" where
  "dentry_activate child parent s =
     (let s1 = upd_dentry child (\<lambda>x. x\<lparr>d_parent := parent\<rparr>) s
      in if parent \<noteq> 0
         then do {
           i \<leftarrow> child_index (d_name (dentries s1 child));
           Some (upd_dentry parent (\<lambda>x. x\<lparr>d_tab := (d_tab x)(i := child # d_tab x i), d_list := child # d_list x\<rparr>) s1) }
         else Some s1)"

section \<open>File system types and mounts\<close>

definition type_index :: "u8 list \<Rightarrow> u32 option" where
  "type_index name = hashtable_index (str_to_key name (length name)) (DEFINE_HASHTABLE_size 5)"

definition register_fs_type :: "u32 \<Rightarrow> vfs \<Rightarrow> vfs option" where
  "register_fs_type ty s = do {
     let s1 = upd_type ty (\<lambda>x. x\<lparr>ft_instances := []\<rparr>) s;
     i \<leftarrow> type_index (ft_name (type_descs s1 ty));
     Some (s1\<lparr>fs_types := (fs_types s1)(i := ty # fs_types s1 i)\<rparr>) }"

definition first_or_null :: "(u32 \<Rightarrow> bool) \<Rightarrow> u32 list \<Rightarrow> u32" where
  "first_or_null P xs = (case List.find P xs of Some x \<Rightarrow> x | None \<Rightarrow> 0)"

definition find_fs_type :: "u8 list \<Rightarrow> vfs \<Rightarrow> u32 option" where
  "find_fs_type name s = do {
     i \<leftarrow> type_index name;
     Some (first_or_null (\<lambda>ty. name = ft_name (type_descs s ty)) (fs_types s i)) }"

definition hash_mount :: "u32 \<Rightarrow> u32 \<Rightarrow> u32" where
  "hash_mount m mountpoint = m * mountpoint"

definition mount_index :: "u32 \<Rightarrow> u32 \<Rightarrow> u32 option" where
  "mount_index m mountpoint = hashtable_index (hash_mount m mountpoint) (DEFINE_HASHTABLE_size 9)"

definition get_mount :: "path \<Rightarrow> vfs \<Rightarrow> u32 option" where
  "get_mount mp s = do {
     i \<leftarrow> mount_index (p_mount mp) (p_dentry mp);
     Some (first_or_null (\<lambda>m. m_parent (mounts s m) = p_mount mp \<and> m_mountpoint (mounts s m) = p_dentry mp) (mount_hashtable s i)) }"

definition MNT_ROOT :: "vfs \<Rightarrow> u32 \<Rightarrow> path" where
  "MNT_ROOT s m = \<lparr>p_mount = m, p_dentry = fs_root (filesystems s (m_fs (mounts s m)))\<rparr>"

definition dir_flag :: "vfs \<Rightarrow> u32 \<Rightarrow> bool" where
  "dir_flag s d = (in_flags (inodes s (d_inode (dentries s d))) AND INODE_FLAG_DIRECTORY \<noteq> 0)"

definition mount_flag :: "vfs \<Rightarrow> u32 \<Rightarrow> bool" where
  "mount_flag s d = (in_flags (inodes s (d_inode (dentries s d))) AND INODE_FLAG_MOUNTPOINT \<noteq> 0)"

definition vfs_mount_add :: "u32 \<Rightarrow> path \<Rightarrow> vfs \<Rightarrow> (vfs \<times> bool) option" where
  "vfs_mount_add m mp s =
     (if \<not> dir_flag s (p_dentry mp) then Some (s, False)
      else do {
        old \<leftarrow> get_mount mp s;
        if old \<noteq> 0 then Some (s, False)
        else do {
          let s1 = upd_mount m (\<lambda>x. x\<lparr>m_parent := p_mount mp, m_mountpoint := p_dentry mp\<rparr>) s;
          i \<leftarrow> mount_index (p_mount mp) (p_dentry mp);
          let s2 = s1\<lparr>mount_hashtable := (mount_hashtable s1)(i := m # mount_hashtable s1 i)\<rparr>;
          Some (upd_inode (d_inode (dentries s2 (p_dentry mp)))
            (\<lambda>x. x\<lparr>in_flags := in_flags x OR INODE_FLAG_MOUNTPOINT\<rparr>) s2, True) } })"

text \<open>\<^verbatim>\<open>vfs_mount_create\<close> is \<open>mount_alloc\<close>; destroying a mount or a file system is not implemented.\<close>

definition vfs_do_mount :: "u32 \<Rightarrow> path \<Rightarrow> vfs \<Rightarrow> (vfs \<times> u32) option" where
  "vfs_do_mount f mp s = do {
     (s1, m) \<leftarrow> mount_alloc f s;
     if m \<noteq> 0 then do { (s2, ok) \<leftarrow> vfs_mount_add m mp s1; Some (s2, if ok then m else 0) } else Some (s1, m) }"

definition vfs_umount :: "path \<Rightarrow> vfs \<Rightarrow> (vfs \<times> bool) option" where
  "vfs_umount mp s =
     (if mount_flag s (p_dentry mp)
      then do {
        let s1 = upd_inode (d_inode (dentries s (p_dentry mp))) (\<lambda>x. x\<lparr>in_flags := in_flags x AND NOT INODE_FLAG_MOUNTPOINT\<rparr>) s;
        m \<leftarrow> get_mount mp s1;
        bug_on (m = 0);
        bug_on (m = root_mount s1);
        i \<leftarrow> mount_index (p_mount mp) (p_dentry mp);
        Some (s1\<lparr>mount_hashtable := (mount_hashtable s1)(i := remove1 m (mount_hashtable s1 i))\<rparr>, True) }
      else Some (s, False))"

section \<open>The drivers\<close>

text \<open>
  A directory's size is computed from a block shift that is still zero; times, owners and links are
  zero already.
\<close>

definition ramfs_create_internal :: "u32 \<Rightarrow> u32 \<Rightarrow> u32 \<Rightarrow> vfs \<Rightarrow> (vfs \<times> u32) option" where
  "ramfs_create_internal f new mode s =
     (if S_ISREG mode
      then do {
        (s1, i) \<leftarrow> inode_alloc f Ramfs_inode_ops s;
        (s2, r) \<leftarrow> v_alloc record_cache (upd_dentry new (\<lambda>d. d\<lparr>d_inode := i\<rparr>) s1);
        Some (upd_inode i (\<lambda>x. x\<lparr>in_mode := mode, in_flags := 0, in_size := 0, in_private := r, in_blkshift := 12, in_blocks := 8\<rparr>)
          (s2\<lparr>records := (records s2)(r := record_create)\<rparr>), 0) }
      else if S_ISDIR mode
      then do {
        (s1, i) \<leftarrow> inode_alloc f Ramfs_inode_ops s;
        Some (upd_inode i (\<lambda>x. x\<lparr>in_mode := mode, in_flags := INODE_FLAG_DIRECTORY, in_size := push_bit (unat (in_blkshift x)) 1,
            in_private := 0, in_blkshift := 12, in_blocks := 8\<rparr>)
          (upd_dentry new (\<lambda>d. d\<lparr>d_inode := i\<rparr>) s1), 0) }
      else Some (s, - EINVAL))"

definition ramfs_inode_create :: "u32 \<Rightarrow> u32 \<Rightarrow> u32 \<Rightarrow> vfs \<Rightarrow> (vfs \<times> u32) option" where
  "ramfs_inode_create i d mode s = ramfs_create_internal (in_fs (inodes s i)) d mode s"

definition ramfs_inode_lookup :: "u32 \<Rightarrow> vfs \<Rightarrow> vfs" where
  "ramfs_inode_lookup d s = upd_dentry d (\<lambda>x. x\<lparr>d_inode := 0\<rparr>) s"

definition ramfs_fill :: "u32 \<Rightarrow> vfs \<Rightarrow> vfs option" where
  "ramfs_fill f s = do {
     (s1, root) \<leftarrow> dentry_alloc [] s;
     let s2 = upd_dentry root (\<lambda>d. d\<lparr>d_parent := 0, d_fs := f\<rparr>) (upd_fs f (\<lambda>x. x\<lparr>fs_root := root\<rparr>) s1);
     (s3, ret) \<leftarrow> ramfs_create_internal f root (S_IFDIR OR 0x1ED) s2;
     bug_on (ret \<noteq> 0);
     Some s3 }"

definition devfs_fill :: "u32 \<Rightarrow> vfs \<Rightarrow> vfs option" where
  "devfs_fill f s = do {
     (s1, root) \<leftarrow> dentry_alloc [] s;
     let s2 = upd_dentry root (\<lambda>d. d\<lparr>d_fs := f\<rparr>) (upd_fs f (\<lambda>x. x\<lparr>fs_root := root\<rparr>) s1);
     (s3, i) \<leftarrow> inode_alloc f Devfs_root_inode_ops s2;
     Some (upd_inode i (\<lambda>x. x\<lparr>in_flags := in_flags x OR INODE_FLAG_DIRECTORY, in_mode := S_IFDIR OR 0x1ED,
         in_blkshift := 12, in_blocks := 8, in_size := push_bit 12 1\<rparr>)
       (upd_dentry root (\<lambda>d. d\<lparr>d_inode := i\<rparr>) s3)) }"

definition fs_add :: "u32 \<Rightarrow> vfs \<Rightarrow> vfs" where
  "fs_add f s = upd_type (fs_type (filesystems s f)) (\<lambda>x. x\<lparr>ft_instances := f # ft_instances x\<rparr>) s"

definition fs_create_nodev :: "u32 \<Rightarrow> (u32 \<Rightarrow> vfs \<Rightarrow> vfs option) \<Rightarrow> vfs \<Rightarrow> (vfs \<times> u32) option" where
  "fs_create_nodev ty fill s = do {
     (s1, f) \<leftarrow> fs_alloc ty s;
     s2 \<leftarrow> fill f s1;
     let s3 = fs_add f s2;
     Some (s3, fs_root (filesystems s3 f)) }"

definition fs_create_single :: "u32 \<Rightarrow> (u32 \<Rightarrow> vfs \<Rightarrow> vfs option) \<Rightarrow> vfs \<Rightarrow> (vfs \<times> u32) option" where
  "fs_create_single ty fill s =
     (case ft_instances (type_descs s ty) of
        f # _ \<Rightarrow> Some (s, fs_root (filesystems s f))
      | [] \<Rightarrow> do {
          (s1, f) \<leftarrow> fs_alloc ty s;
          s2 \<leftarrow> fill f s1;
          let s3 = fs_add f s2;
          Some (s3, fs_root (filesystems s3 f)) })"

definition type_create :: "u32 \<Rightarrow> vfs \<Rightarrow> (vfs \<times> u32) option" where
  "type_create ty s = (case ft_driver (type_descs s ty) of
      Ramfs_driver \<Rightarrow> fs_create_nodev ty ramfs_fill s
    | Devfs_driver \<Rightarrow> fs_create_single ty devfs_fill s)"

definition vfs_fs_create :: "u8 list \<Rightarrow> vfs \<Rightarrow> (vfs \<times> u32) option" where
  "vfs_fs_create raw_type s = do {
     ty \<leftarrow> find_fs_type raw_type s;
     if ty = 0 then Some (s, 0)
     else do {
       (s1, root) \<leftarrow> type_create ty s;
       if root = 0 then Some (s1, 0)
       else do {
         bug_on (d_parent (dentries s1 root) \<noteq> 0);
         let f = d_fs (dentries s1 root);
         bug_on (root \<noteq> fs_root (filesystems s1 f));
         bug_on (f = 0);
         Some (s1, f) } } }"

definition vfs_mount :: "u8 list \<Rightarrow> path \<Rightarrow> vfs \<Rightarrow> (vfs \<times> u32) option" where
  "vfs_mount raw_type mp s = do {
     (s1, f) \<leftarrow> vfs_fs_create raw_type s;
     if f = 0 then Some (s1, 0) else vfs_do_mount f mp s1 }"

definition vfs_root_mount :: "u8 list \<Rightarrow> vfs \<Rightarrow> (vfs \<times> bool) option" where
  "vfs_root_mount ramfs_name s = do {
     (s1, f) \<leftarrow> vfs_fs_create ramfs_name s;
     if f = 0 then Some (s1, True)
     else do { (s2, m) \<leftarrow> mount_alloc f s1; Some (s2\<lparr>root_mount := m\<rparr>, m = 0) } }"

text \<open>The operations behind an inode; calling one that the table does not have is a jump to address zero.\<close>

definition ops_lookup :: "u32 \<Rightarrow> u32 \<Rightarrow> vfs \<Rightarrow> vfs option" where
  "ops_lookup i target s = (case in_ops (inodes s i) of
      Ramfs_inode_ops \<Rightarrow> Some (ramfs_inode_lookup target s)
    | Devfs_root_inode_ops \<Rightarrow> Some s
    | _ \<Rightarrow> None)"

definition fs_no_create :: "vfs \<Rightarrow> (vfs \<times> u32) option" where
  "fs_no_create s = Some (s, - EINVAL)"

definition ops_create :: "u32 \<Rightarrow> u32 \<Rightarrow> u32 \<Rightarrow> vfs \<Rightarrow> (vfs \<times> u32) option" where
  "ops_create i d mode s = (case in_ops (inodes s i) of
      Ramfs_inode_ops \<Rightarrow> ramfs_inode_create i d mode s
    | Devfs_root_inode_ops \<Rightarrow> fs_no_create s
    | _ \<Rightarrow> None)"

section \<open>Path names\<close>

definition negative :: "u32 \<Rightarrow> bool" where
  "negative r = bit r 31"

text \<open>
  A child is searched in the chain of its name's hash, comparing as many bytes as the path segment has.
  The bytes of a name end with a zero, which no segment contains.
\<close>

definition prefix_match :: "u8 list \<Rightarrow> u8 list \<Rightarrow> bool" where
  "prefix_match seg name = (take (length seg) name = seg)"

definition find_child_dentry :: "vfs \<Rightarrow> u32 \<Rightarrow> u8 list \<Rightarrow> u32 option option" where
  "find_child_dentry s d seg = do {
     i \<leftarrow> child_index seg;
     Some (List.find (\<lambda>c. prefix_match seg (d_name (dentries s c))) (d_tab (dentries s d) i)) }"

text \<open>\<open>None\<close> is also the value of a loop that does not end.\<close>

partial_function (option) leave_mounts :: "vfs \<Rightarrow> path \<Rightarrow> path option" where
  "leave_mounts s cwd =
     (if d_parent (dentries s (p_dentry cwd)) = 0 \<and> p_mount cwd \<noteq> root_mount s
      then do {
        let m = mounts s (p_mount cwd);
        bug_on (m_parent m = 0);
        bug_on (\<not> mount_flag s (m_mountpoint m));
        leave_mounts s \<lparr>p_mount = m_parent m, p_dentry = m_mountpoint m\<rparr> }
      else Some cwd)"

definition go_up :: "vfs \<Rightarrow> path \<Rightarrow> path option" where
  "go_up s cwd = do {
     cwd \<leftarrow> leave_mounts s cwd;
     let p = d_parent (dentries s (p_dentry cwd));
     Some (if p \<noteq> 0 then cwd\<lparr>p_dentry := p\<rparr> else cwd) }"

definition segment :: "u8 list \<Rightarrow> u8 list" where
  "segment pth = takeWhile (\<lambda>c. c \<noteq> DIRECTORY_SEPARATOR) pth"

text \<open>The child of a directory that is not cached: the driver is asked to fill a new dentry.\<close>

definition ask_driver :: "vfs \<Rightarrow> path \<Rightarrow> u8 list \<Rightarrow> (vfs \<times> path \<times> bool) option" where
  "ask_driver s cwd seg = do {
     (s1, child) \<leftarrow> dentry_alloc seg s;
     s2 \<leftarrow> ops_lookup (d_inode (dentries s1 (p_dentry cwd))) child s1;
     if d_inode (dentries s2 child) = 0
     then do { s3 \<leftarrow> dentry_free child s2; Some (s3, cwd\<lparr>p_dentry := 0\<rparr>, False) }
     else Some (s2, cwd\<lparr>p_dentry := child\<rparr>, True) }"

definition lookup_segment :: "vfs \<Rightarrow> path \<Rightarrow> u8 list \<Rightarrow> (vfs \<times> path \<times> bool) option" where
  "lookup_segment s cwd seg =
     (if seg = [] \<or> seg = [46] then Some (s, cwd, True)
      else if seg = [46, 46] then do { c \<leftarrow> go_up s cwd; Some (s, c, True) }
      else do {
        r \<leftarrow> find_child_dentry s (p_dentry cwd) seg;
        case r of
          Some c \<Rightarrow> Some (s, cwd\<lparr>p_dentry := c\<rparr>, True)
        | None \<Rightarrow> ask_driver s cwd seg })"

partial_function (option) lookup_loop :: "vfs \<Rightarrow> path \<Rightarrow> u8 list \<Rightarrow> bool \<Rightarrow> (vfs \<times> path) option" where
  "lookup_loop s cwd pth finished =
     (if finished \<or> pth = [] \<or> p_dentry cwd = 0 then Some (s, cwd)
      else if d_inode (dentries s (p_dentry cwd)) = 0 then None
      else if \<not> dir_flag s (p_dentry cwd) then Some (s, cwd\<lparr>p_dentry := 0\<rparr>)
      else if mount_flag s (p_dentry cwd)
      then do {
        m \<leftarrow> get_mount cwd s;
        bug_on (m = 0);
        lookup_loop s (MNT_ROOT s m) pth finished }
      else do {
        let seg = segment pth;
        let rest = drop (length seg) pth;
        (s1, cwd1, go) \<leftarrow> lookup_segment s cwd seg;
        if go then lookup_loop s1 cwd1 (drop 1 rest) (rest = []) else Some (s1, cwd1) })"

text \<open>Reading the flags through a null inode is a fault.\<close>

definition vfs_lookup :: "path option \<Rightarrow> u8 list \<Rightarrow> vfs \<Rightarrow> (vfs \<times> path option) option" where
  "vfs_lookup start pth s = do {
     let abs = (pth \<noteq> [] \<and> hd pth = DIRECTORY_SEPARATOR);
     let (cwd, pth1) = (case start of
         Some c \<Rightarrow> if abs then (MNT_ROOT s (root_mount s), tl pth) else (c, pth)
       | None \<Rightarrow> (MNT_ROOT s (root_mount s), if abs then tl pth else pth));
     (s1, cwd1) \<leftarrow> lookup_loop s cwd pth1 False;
     if p_dentry cwd1 = 0 then Some (s1, None)
     else if d_inode (dentries s1 (p_dentry cwd1)) = 0 then None
     else if mount_flag s1 (p_dentry cwd1)
     then do { m \<leftarrow> get_mount cwd1 s1; bug_on (m = 0); Some (s1, Some (MNT_ROOT s1 m)) }
     else Some (s1, Some cwd1) }"

text \<open>\<open>last_segment\<close> is the position at which the last segment starts; a final separator stays with it.\<close>

fun last_segment_loop :: "u8 list \<Rightarrow> nat \<Rightarrow> nat \<Rightarrow> nat" where
  "last_segment_loop [] i seg = seg"
| "last_segment_loop (c # cs) i seg =
     last_segment_loop cs (i + 1) (if c = DIRECTORY_SEPARATOR \<and> cs \<noteq> [] then i + 1 else seg)"

definition last_segment :: "u8 list \<Rightarrow> nat" where
  "last_segment pth = last_segment_loop pth 0 0"

text \<open>
  The directory of a path name and its last segment; \<open>None\<close> inside is \<^verbatim>\<open>-ENOENT\<close>. The comparison with
  the last segment is by content.
\<close>

definition get_path_wd :: "path \<Rightarrow> u8 list \<Rightarrow> vfs \<Rightarrow> (vfs \<times> (path \<times> u8 list) option) option" where
  "get_path_wd start pth s =
     (let k = last_segment pth; seg = drop k pth
      in if pth \<noteq> seg
         then do {
           (s1, r) \<leftarrow> vfs_lookup (Some start) (take (k - 1) pth) s;
           Some (s1, case r of None \<Rightarrow> None | Some wd \<Rightarrow> Some (wd, seg)) }
         else Some (s, Some (start, seg)))"

definition validate_inode :: "u32 \<Rightarrow> vfs \<Rightarrow> unit option" where
  "validate_inode d s = bug_on (d = 0 \<or> in_ino (inodes s (d_inode (dentries s d))) = 0)"

definition vfs_create :: "path \<Rightarrow> u8 list \<Rightarrow> u32 \<Rightarrow> vfs \<Rightarrow> (vfs \<times> u32 \<times> path option) option" where
  "vfs_create start pth mode s = do {
     (s1, r) \<leftarrow> get_path_wd start pth s;
     case r of
       None \<Rightarrow> Some (s1, - ENOENT, None)
     | Some (wd, seg) \<Rightarrow>
         if pth = [] then Some (s1, - ENOENT, None)
         else do {
           (s2, f) \<leftarrow> vfs_lookup (Some wd) seg s1;
           case f of
             Some p \<Rightarrow> Some (s2, - EEXIST, Some p)
           | None \<Rightarrow> do {
               (s3, new) \<leftarrow> dentry_alloc seg s2;
               (s4, ret) \<leftarrow> ops_create (d_inode (dentries s3 (p_dentry wd))) new mode s3;
               if negative ret then Some (s4, ret, None)
               else do {
                 validate_inode new s4;
                 s5 \<leftarrow> dentry_activate new (p_dentry wd) s4;
                 Some (s5, ret, Some \<lparr>p_mount = p_mount wd, p_dentry = new\<rparr>) } } } }"

section \<open>Devices\<close>

definition devfs_inode_alloc :: "u32 \<Rightarrow> vfs \<Rightarrow> (vfs \<times> u32) option" where
  "devfs_inode_alloc dev s = do {
     let (ops, mode) = (case dv_type (devices s dev) of
         CHAR_DEV \<Rightarrow> (Char_inode_ops, S_IFCHR OR 0x1ED) | BLCK_DEV \<Rightarrow> (Block_inode_ops, S_IFBLK OR 0x1ED));
     (s1, i) \<leftarrow> inode_alloc (devfs_fs s) ops s;
     Some (upd_inode i (\<lambda>x. x\<lparr>in_mode := mode, in_blkshift := 12, in_blocks := 8, in_size := 0, in_private := dev\<rparr>) s1, i) }"

text \<open>\<^verbatim>\<open>devfs_task\<close> is never assigned, so no thread is woken.\<close>

definition devfs_add_dev :: "u32 \<Rightarrow> device_type \<Rightarrow> u8 list \<Rightarrow> vfs \<Rightarrow> vfs option" where
  "devfs_add_dev dev ty name s = do {
     (h, p) \<leftarrow> kmalloc 24 (v_heap s);
     (s1, d) \<leftarrow> dentry_alloc name (s\<lparr>v_heap := h\<rparr>);
     Some (s1\<lparr>devices := (devices s1)(p := \<lparr>dv_name = name, dv_dentry = d, dv_type = ty, dv_dev = dev\<rparr>),
       devfs_pending := devfs_pending s1 @ [p]\<rparr>) }"

definition register_char_device :: "u32 \<Rightarrow> u8 list \<Rightarrow> vfs \<Rightarrow> vfs option" where
  "register_char_device dev name s = devfs_add_dev dev CHAR_DEV name s"

definition register_block_device :: "u32 \<Rightarrow> u8 list \<Rightarrow> vfs \<Rightarrow> vfs option" where
  "register_block_device dev name s = devfs_add_dev dev BLCK_DEV name s"

definition get_strpath :: "u8 list \<Rightarrow> u8 list \<Rightarrow> u8 list" where
  "get_strpath mntpoint name = mntpoint @ [47] @ name"

definition devfs_lookup :: "u8 list \<Rightarrow> u8 list \<Rightarrow> vfs \<Rightarrow> (vfs \<times> path option) option" where
  "devfs_lookup mntpoint name s = vfs_lookup None (get_strpath mntpoint name) s"

definition devfs_update :: "vfs \<Rightarrow> (vfs \<times> bool) option" where
  "devfs_update s = (case devfs_pending s of
      [] \<Rightarrow> Some (s, False)
    | p # ps \<Rightarrow> do {
        (s1, i) \<leftarrow> devfs_inode_alloc p (s\<lparr>devfs_pending := ps\<rparr>);
        let d = dv_dentry (devices s1 p);
        s2 \<leftarrow> dentry_activate d (fs_root (filesystems s1 (devfs_fs s1))) (upd_dentry d (\<lambda>x. x\<lparr>d_inode := i\<rparr>) s1);
        Some (s2\<lparr>devfs_devices := p # devfs_devices s2\<rparr>, True) })"

lemma devfs_update_pending: "devfs_update s = Some (s', True) \<Longrightarrow> length (devfs_pending s') < length (devfs_pending s)"
  by (auto simp: devfs_update_def devfs_inode_alloc_def inode_alloc_def v_alloc_def dentry_activate_def upd_inode_def upd_dentry_def Let_def
      split: list.splits option.splits Option.bind_splits if_splits device_type.splits)

function devfs_publish_pending :: "vfs \<Rightarrow> vfs option" where
  "devfs_publish_pending s = (case devfs_update s of
      None \<Rightarrow> None
    | Some (s1, b) \<Rightarrow> if b then devfs_publish_pending s1 else Some s1)"
  by pat_completeness auto
termination
  by (relation "measure (\<lambda>s. length (devfs_pending s))") (auto dest: devfs_update_pending)

text \<open>
  \<^verbatim>\<open>strchr\<close> as the kernel's library has it looks from the second character on. \<open>create_path\<close> makes
  every directory on the way, and gives up at the first that exists.
\<close>

definition next_separator :: "u8 list \<Rightarrow> nat \<Rightarrow> nat option" where
  "next_separator pth part = List.find (\<lambda>j. pth ! j = DIRECTORY_SEPARATOR) [Suc part..<length pth]"

lemma next_separator_gt: "next_separator pth part = Some j \<Longrightarrow> part < j \<and> j < length pth"
  by (auto simp: next_separator_def find_Some_iff)

function create_path_loop :: "path \<Rightarrow> u8 list \<Rightarrow> nat \<Rightarrow> vfs \<Rightarrow> (vfs \<times> u32) option" where
  "create_path_loop start pth part s =
     (if length pth \<le> part then Some (s, 0)
      else (case next_separator pth part of
          None \<Rightarrow> do { (s1, ret, _) \<leftarrow> vfs_create start pth (S_IFDIR OR 0x1ED) s; Some (s1, ret) }
        | Some j \<Rightarrow> (case vfs_create start (take j pth) (S_IFDIR OR 0x1ED) s of
            None \<Rightarrow> None
          | Some (s1, ret, _) \<Rightarrow> if ret \<noteq> 0 then Some (s1, ret) else create_path_loop start pth (Suc j) s1)))"
  by pat_completeness auto
termination
  by (relation "measure (\<lambda>(start, pth, part, s). length pth - part)") (auto dest: next_separator_gt)

definition create_path :: "path \<Rightarrow> u8 list \<Rightarrow> vfs \<Rightarrow> (vfs \<times> u32) option" where
  "create_path start pth s = create_path_loop start pth 0 s"

definition devfs_mount :: "u8 list \<Rightarrow> u8 list \<Rightarrow> vfs \<Rightarrow> vfs option" where
  "devfs_mount devfs_name mntpoint s = do {
     (s1, f) \<leftarrow> vfs_fs_create devfs_name s;
     s2 \<leftarrow> devfs_publish_pending (s1\<lparr>devfs_fs := f\<rparr>);
     let wd = MNT_ROOT s2 (root_mount s2);
     (s3, ret) \<leftarrow> create_path wd mntpoint s2;
     if ret \<noteq> 0 then Some s3
     else do {
       (s4, target) \<leftarrow> vfs_lookup (Some wd) mntpoint s3;
       case target of
         None \<Rightarrow> Some s4
       | Some t \<Rightarrow> do { (s5, _) \<leftarrow> vfs_do_mount f t s4; Some s5 } } }"

end
