(* ===== verification/Vfs_Lookup.thy ===== *)
theory Vfs_Lookup
  imports Vfs Object_Cache
begin

text \<open>
  What the path names of \<^verbatim>\<open>vfs.c\<close> mean. A name space is well formed with respect to a set of paths that
  is closed under going to children, to parents and across mounts. In such a name space \<^verbatim>\<open>vfs_lookup\<close>
  returns, and its result is that of a walk that compares whole names.
\<close>

section \<open>Well-formed name spaces\<close>

definition path_ok :: "path set \<Rightarrow> vfs \<Rightarrow> path \<Rightarrow> bool" where
  "path_ok P s p = (let d = p_dentry p; x = dentries s d; m = mounts s (p_mount p) in
     d \<in> objs (v_heap s) (dentry_cache s) \<and> d_inode x \<in> objs (v_heap s) (inode_cache s)
     \<and> (dir_flag s d \<longrightarrow> in_ops (inodes s (d_inode x)) \<in> {Ramfs_inode_ops, Devfs_root_inode_ops})
     \<and> (\<forall>i. \<forall>c\<in>set (d_tab x i). p\<lparr>p_dentry := c\<rparr> \<in> P \<and> d_parent (dentries s c) = d \<and> child_index (d_name (dentries s c)) = Some i)
     \<and> set (d_list x) = (\<Union>i. set (d_tab x i)) \<and> inj_on (\<lambda>c. d_name (dentries s c)) (set (d_list x))
     \<and> (d_parent x \<noteq> 0 \<longrightarrow> p\<lparr>p_dentry := d_parent x\<rparr> \<in> P)
     \<and> (d_parent x = 0 \<and> p_mount p \<noteq> root_mount s \<longrightarrow> m_parent m \<noteq> 0 \<and> \<lparr>p_mount = m_parent m, p_dentry = m_mountpoint m\<rparr> \<in> P
          \<and> mount_flag s (m_mountpoint m) \<and> d_parent (dentries s (m_mountpoint m)) \<noteq> 0)
     \<and> (mount_flag s d \<longrightarrow> dir_flag s d
          \<and> (\<exists>m'. get_mount p s = Some m' \<and> m' \<noteq> 0 \<and> MNT_ROOT s m' \<in> P \<and> \<not> mount_flag s (p_dentry (MNT_ROOT s m')))))"

definition vfs_wf :: "u32 set \<Rightarrow> (nat \<times> nat) set \<Rightarrow> path set \<Rightarrow> vfs \<Rightarrow> bool" where
  "vfs_wf C L P s = (heap_inv (v_heap s) C L \<and> {dentry_cache s, inode_cache s, record_cache s} \<subseteq> C
     \<and> distinct [dentry_cache s, inode_cache s, record_cache s]
     \<and> MNT_ROOT s (root_mount s) \<in> P \<and> (\<forall>p\<in>P. path_ok P s p))"

lemma path_okD:
  assumes "path_ok P s p"
  shows "p_dentry p \<in> objs (v_heap s) (dentry_cache s)" and "d_inode (dentries s (p_dentry p)) \<in> objs (v_heap s) (inode_cache s)"
    and "dir_flag s (p_dentry p) \<Longrightarrow> in_ops (inodes s (d_inode (dentries s (p_dentry p)))) \<in> {Ramfs_inode_ops, Devfs_root_inode_ops}"
    and "c \<in> set (d_tab (dentries s (p_dentry p)) i) \<Longrightarrow>
      p\<lparr>p_dentry := c\<rparr> \<in> P \<and> d_parent (dentries s c) = p_dentry p \<and> child_index (d_name (dentries s c)) = Some i"
    and "set (d_list (dentries s (p_dentry p))) = (\<Union>i. set (d_tab (dentries s (p_dentry p)) i))"
    and "inj_on (\<lambda>c. d_name (dentries s c)) (set (d_list (dentries s (p_dentry p))))"
    and "d_parent (dentries s (p_dentry p)) \<noteq> 0 \<Longrightarrow> p\<lparr>p_dentry := d_parent (dentries s (p_dentry p))\<rparr> \<in> P"
    and "d_parent (dentries s (p_dentry p)) = 0 \<Longrightarrow> p_mount p \<noteq> root_mount s \<Longrightarrow>
      m_parent (mounts s (p_mount p)) \<noteq> 0 \<and> \<lparr>p_mount = m_parent (mounts s (p_mount p)), p_dentry = m_mountpoint (mounts s (p_mount p))\<rparr> \<in> P
      \<and> mount_flag s (m_mountpoint (mounts s (p_mount p))) \<and> d_parent (dentries s (m_mountpoint (mounts s (p_mount p)))) \<noteq> 0"
    and "mount_flag s (p_dentry p) \<Longrightarrow> dir_flag s (p_dentry p)
      \<and> (\<exists>m'. get_mount p s = Some m' \<and> m' \<noteq> 0 \<and> MNT_ROOT s m' \<in> P \<and> \<not> mount_flag s (p_dentry (MNT_ROOT s m')))"
  using assms unfolding path_ok_def Let_def by blast+

lemma vfs_wfD:
  assumes "vfs_wf C L P s"
  shows "heap_inv (v_heap s) C L" and "dentry_cache s \<in> C" and "inode_cache s \<in> C" and "record_cache s \<in> C"
    and "dentry_cache s \<noteq> inode_cache s" and "dentry_cache s \<noteq> record_cache s" and "inode_cache s \<noteq> record_cache s"
    and "MNT_ROOT s (root_mount s) \<in> P" and "p \<in> P \<Longrightarrow> path_ok P s p"
  using assms unfolding vfs_wf_def by auto

lemma dentry_not_null:
  assumes "vfs_wf C L P s" and "p \<in> P"
  shows "p_dentry p \<noteq> 0" and "d_inode (dentries s (p_dentry p)) \<noteq> 0"
  using slab.not_null [OF vfs_wfD(1,2) [OF assms(1)]] slab.not_null [OF vfs_wfD(1,3) [OF assms(1)]]
    path_okD(1,2) [OF vfs_wfD(9) [OF assms]] by blast+

text \<open>The buckets of a child.\<close>

lemma child_index_total: "\<exists>i. child_index name = Some i"
  using hashtable_index_pow2 [of 5 "str_to_key name (length name)"]
  by (auto simp: child_index_def table_sizes DENTRY_HASH_BITS_def)

definition unambiguous :: "path set \<Rightarrow> vfs \<Rightarrow> u8 list \<Rightarrow> bool" where
  "unambiguous P s seg = (\<forall>p\<in>P. \<forall>i. child_index seg = Some i \<longrightarrow>
     (\<forall>c\<in>set (d_tab (dentries s (p_dentry p)) i). prefix_match seg (d_name (dentries s c)) \<longrightarrow> d_name (dentries s c) = seg))"

definition child_named :: "vfs \<Rightarrow> u32 \<Rightarrow> u8 list \<Rightarrow> u32 option" where
  "child_named s d seg = List.find (\<lambda>c. d_name (dentries s c) = seg) (d_list (dentries s d))"

lemma find_child_exact:
  assumes wf: "vfs_wf C L P s" and p: "p \<in> P" and un: "unambiguous P s seg"
  shows "find_child_dentry s (p_dentry p) seg = Some (child_named s (p_dentry p) seg)"
proof -
  let ?x = "dentries s (p_dentry p)"
  note ok = vfs_wfD(9) [OF wf p]
  obtain i where i: "child_index seg = Some i" using child_index_total by blast
  have inb: "c \<in> set (d_tab ?x i) \<longleftrightarrow> c \<in> set (d_list ?x)" if "d_name (dentries s c) = seg" for c
    using path_okD(4,5) [OF ok] i that by force
  have pm: "prefix_match seg (d_name (dentries s c)) \<longleftrightarrow> d_name (dentries s c) = seg" if "c \<in> set (d_tab ?x i)" for c
    using un p i that by (auto simp: unambiguous_def prefix_match_def)
  have e: "List.find (\<lambda>c. prefix_match seg (d_name (dentries s c))) (d_tab ?x i) = List.find (\<lambda>c. d_name (dentries s c) = seg) (d_tab ?x i)"
    by (rule find_cong) (use pm in auto)
  have "List.find (\<lambda>c. d_name (dentries s c) = seg) (d_tab ?x i) = List.find (\<lambda>c. d_name (dentries s c) = seg) (d_list ?x)"
  proof (cases "List.find (\<lambda>c. d_name (dentries s c) = seg) (d_list ?x)")
    case None
    then have "List.find (\<lambda>c. d_name (dentries s c) = seg) (d_tab ?x i) = None" using inb by (auto simp: find_None_iff)
    then show ?thesis using None by simp
  next
    case (Some c)
    then have c: "d_name (dentries s c) = seg" "c \<in> set (d_list ?x)" by (auto simp: find_Some_iff)
    obtain c' where c': "List.find (\<lambda>c. d_name (dentries s c) = seg) (d_tab ?x i) = Some c'" "d_name (dentries s c') = seg" "c' \<in> set (d_tab ?x i)"
      using c inb [OF c(1)] by (cases "List.find (\<lambda>c. d_name (dentries s c) = seg) (d_tab ?x i)") (auto simp: find_None_iff find_Some_iff)
    then have "c' = c" using path_okD(6) [OF ok] inb [OF c'(2)] c by (auto dest: inj_onD)
    then show ?thesis using Some c' by simp
  qed
  then show ?thesis using i e by (simp add: find_child_dentry_def child_named_def)
qed

section \<open>Walking\<close>

definition enter :: "vfs \<Rightarrow> path \<Rightarrow> path" where
  "enter s p = (if mount_flag s (p_dentry p) then MNT_ROOT s (the (get_mount p s)) else p)"

definition up :: "vfs \<Rightarrow> path \<Rightarrow> path" where
  "up s p =
     (let q = (if d_parent (dentries s (p_dentry p)) = 0 \<and> p_mount p \<noteq> root_mount s
               then \<lparr>p_mount = m_parent (mounts s (p_mount p)), p_dentry = m_mountpoint (mounts s (p_mount p))\<rparr> else p)
      in if d_parent (dentries s (p_dentry q)) = 0 then q else q\<lparr>p_dentry := d_parent (dentries s (p_dentry q))\<rparr>)"

text \<open>
  The meaning of a list of segments, from a path that is not a mount point. A segment can only be
  applied to a directory.
\<close>

fun walk :: "vfs \<Rightarrow> path \<Rightarrow> u8 list list \<Rightarrow> path option" where
  "walk s p [] = Some p"
| "walk s p (seg # segs) =
     (if \<not> dir_flag s (p_dentry p) then None
      else if seg = [] \<or> seg = [46] then walk s p segs
      else if seg = [46, 46] then walk s (enter s (up s p)) segs
      else case child_named s (p_dentry p) seg of
          None \<Rightarrow> None
        | Some c \<Rightarrow> walk s (enter s (p\<lparr>p_dentry := c\<rparr>)) segs)"

text \<open>The segments of a path name; a separator at the end adds nothing.\<close>

function segments :: "u8 list \<Rightarrow> u8 list list" where
  "segments pth =
     (if pth = [] then []
      else segment pth # (if drop (length (segment pth)) pth = [] then [] else segments (drop (Suc (length (segment pth))) pth)))"
  by pat_completeness auto
termination
  by (relation "measure length") auto

declare segments.simps [simp del]

lemma segments_Nil [simp]: "segments [] = []"
  by (simp add: segments.simps)

lemma enter_in:
  assumes "vfs_wf C L P s" and "p \<in> P"
  shows "enter s p \<in> P" and "\<not> mount_flag s (p_dentry (enter s p))"
  using path_okD(9) [OF vfs_wfD(9) [OF assms]] assms(2) by (auto simp: enter_def)

lemma enter_id [simp]: "\<not> mount_flag s (p_dentry p) \<Longrightarrow> enter s p = p"
  by (simp add: enter_def)

lemma go_up_ok:
  assumes wf: "vfs_wf C L P s" and p: "p \<in> P"
  shows "go_up s p = Some (up s p)" and "up s p \<in> P"
proof -
  note ok = path_okD(7,8) [OF vfs_wfD(9) [OF wf p]]
  let ?q = "\<lparr>p_mount = m_parent (mounts s (p_mount p)), p_dentry = m_mountpoint (mounts s (p_mount p))\<rparr>"
  show "go_up s p = Some (up s p)"
  proof (cases "d_parent (dentries s (p_dentry p)) = 0 \<and> p_mount p \<noteq> root_mount s")
    case True
    have "leave_mounts s ?q = Some ?q" using ok(2) True by (subst leave_mounts.simps) simp
    then have "leave_mounts s p = Some ?q" using ok(2) True by (subst leave_mounts.simps) (simp add: Let_def)
    then show ?thesis using True by (simp add: go_up_def up_def Let_def)
  next
    case False
    then have "leave_mounts s p = Some p" by (subst leave_mounts.simps) (simp only: if_False)
    then show ?thesis using False by (auto simp: go_up_def up_def Let_def)
  qed
  show "up s p \<in> P"
  proof (cases "d_parent (dentries s (p_dentry p)) = 0 \<and> p_mount p \<noteq> root_mount s")
    case True
    then have q: "?q \<in> P" "d_parent (dentries s (p_dentry ?q)) \<noteq> 0" using ok(2) by simp_all
    have "?q\<lparr>p_dentry := d_parent (dentries s (p_dentry ?q))\<rparr> \<in> P" by (rule path_okD(7) [OF vfs_wfD(9) [OF wf q(1)] q(2)])
    then show ?thesis using True q(2) by (simp add: up_def)
  next
    case False
    then show ?thesis using ok(1) p by (auto simp: up_def Let_def)
  qed
qed

text \<open>States that agree on the name space: only the heap and dentries outside it may differ.\<close>

definition same_names :: "path set \<Rightarrow> vfs \<Rightarrow> vfs \<Rightarrow> bool" where
  "same_names P s s' = (\<exists>h D. s' = s\<lparr>v_heap := h, dentries := D\<rparr> \<and> (\<forall>p\<in>P. D (p_dentry p) = dentries s (p_dentry p)))"

lemma same_names_sel:
  assumes "same_names P s s'"
  shows "inodes s' = inodes s" "mounts s' = mounts s" "filesystems s' = filesystems s" "mount_hashtable s' = mount_hashtable s"
    "root_mount s' = root_mount s" "dentry_cache s' = dentry_cache s" "inode_cache s' = inode_cache s" "record_cache s' = record_cache s"
    "p \<in> P \<Longrightarrow> dentries s' (p_dentry p) = dentries s (p_dentry p)"
    "MNT_ROOT s' = MNT_ROOT s" "get_mount q s' = get_mount q s"
  using assms by (auto simp: same_names_def MNT_ROOT_def get_mount_def fun_eq_iff)

lemma same_names_flags:
  assumes "same_names P s s'" and "p \<in> P"
  shows "dir_flag s' (p_dentry p) = dir_flag s (p_dentry p)" and "mount_flag s' (p_dentry p) = mount_flag s (p_dentry p)"
  using same_names_sel [OF assms(1)] assms(2) by (simp_all add: dir_flag_def mount_flag_def)

lemma vfs_wf_same_names:
  assumes wf: "vfs_wf C L P s" and same: "same_names P s s'" and inv: "heap_inv (v_heap s') C L"
    and o: "\<forall>c\<in>C. objs (v_heap s') c = objs (v_heap s) c"
  shows "vfs_wf C L P s'"
  unfolding vfs_wf_def
proof (intro conjI ballI)
  note sel = same_names_sel [OF same] and fl = same_names_flags [OF same]
  show "heap_inv (v_heap s') C L" by (rule inv)
  show "{dentry_cache s', inode_cache s', record_cache s'} \<subseteq> C" "distinct [dentry_cache s', inode_cache s', record_cache s']"
    "MNT_ROOT s' (root_mount s') \<in> P"
    using vfs_wfD [OF wf] by (simp_all add: sel)
  fix p assume p: "p \<in> P"
  note ok = path_okD [OF vfs_wfD(9) [OF wf p]]
  have ob: "objs (v_heap s') (dentry_cache s) = objs (v_heap s) (dentry_cache s)" "objs (v_heap s') (inode_cache s) = objs (v_heap s) (inode_cache s)"
    using o vfs_wfD(2,3) [OF wf] by auto
  have ch: "dentries s' c = dentries s c" if "c \<in> set (d_tab (dentries s (p_dentry p)) i)" for c i
    using sel(9) [of "p\<lparr>p_dentry := c\<rparr>"] ok(4) [OF that] by simp
  have ch': "dentries s' c = dentries s c" if "c \<in> set (d_list (dentries s (p_dentry p)))" for c using ch that ok(5) by auto
  show "path_ok P s' p" unfolding path_ok_def Let_def
  proof (intro conjI)
    show "inj_on (\<lambda>c. d_name (dentries s' c)) (set (d_list (dentries s' (p_dentry p))))"
      using ok(6) inj_on_cong [of "set (d_list (dentries s (p_dentry p)))" "\<lambda>c. d_name (dentries s' c)" "\<lambda>c. d_name (dentries s c)"] ch'
      by (simp add: sel(9) [OF p])
    show "d_parent (dentries s' (p_dentry p)) = 0 \<and> p_mount p \<noteq> root_mount s' \<longrightarrow> m_parent (mounts s' (p_mount p)) \<noteq> 0
      \<and> \<lparr>p_mount = m_parent (mounts s' (p_mount p)), p_dentry = m_mountpoint (mounts s' (p_mount p))\<rparr> \<in> P
      \<and> mount_flag s' (m_mountpoint (mounts s' (p_mount p))) \<and> d_parent (dentries s' (m_mountpoint (mounts s' (p_mount p)))) \<noteq> 0"
      using ok(8) fl(2) [of "\<lparr>p_mount = m_parent (mounts s (p_mount p)), p_dentry = m_mountpoint (mounts s (p_mount p))\<rparr>"]
        sel(9) [of "\<lparr>p_mount = m_parent (mounts s (p_mount p)), p_dentry = m_mountpoint (mounts s (p_mount p))\<rparr>"]
      by (simp add: sel(9) [OF p] sel(2,5))
    show "mount_flag s' (p_dentry p) \<longrightarrow> dir_flag s' (p_dentry p)
        \<and> (\<exists>m'. get_mount p s' = Some m' \<and> m' \<noteq> 0 \<and> MNT_ROOT s' m' \<in> P \<and> \<not> mount_flag s' (p_dentry (MNT_ROOT s' m')))"
      using ok(9) fl(2) by (auto simp: fl [OF p] sel(10,11))
    show "p_dentry p \<in> objs (v_heap s') (dentry_cache s')" using ok(1) by (simp add: sel(6) ob)
    show "d_inode (dentries s' (p_dentry p)) \<in> objs (v_heap s') (inode_cache s')" using ok(2) by (simp add: sel(7) sel(9) [OF p] ob)
    show "dir_flag s' (p_dentry p) \<longrightarrow> in_ops (inodes s' (d_inode (dentries s' (p_dentry p)))) \<in> {Ramfs_inode_ops, Devfs_root_inode_ops}"
      unfolding fl(1) [OF p] sel(9) [OF p] sel(1) using ok(3) by blast
    show "\<forall>i. \<forall>c\<in>set (d_tab (dentries s' (p_dentry p)) i). p\<lparr>p_dentry := c\<rparr> \<in> P \<and> d_parent (dentries s' c) = p_dentry p
        \<and> child_index (d_name (dentries s' c)) = Some i"
      unfolding sel(9) [OF p] using ok(4) ch by simp
    show "set (d_list (dentries s' (p_dentry p))) = (\<Union>i. set (d_tab (dentries s' (p_dentry p)) i))" unfolding sel(9) [OF p] by (rule ok(5))
    show "d_parent (dentries s' (p_dentry p)) \<noteq> 0 \<longrightarrow> p\<lparr>p_dentry := d_parent (dentries s' (p_dentry p))\<rparr> \<in> P"
      unfolding sel(9) [OF p] using ok(7) by blast
  qed
qed

lemma same_names_refl [simp]: "same_names P s s"
  unfolding same_names_def by (rule exI [of _ "v_heap s"], rule exI [of _ "dentries s"]) simp

text \<open>A name that is not there costs a dentry for the time of the question.\<close>

definition miss_heap :: "vfs \<Rightarrow> heap option" where
  "miss_heap s = do { (h1, d) \<leftarrow> cache_alloc (dentry_cache s) (v_heap s); cache_free (dentry_cache s) d h1 }"

lemma ask_driver_ok:
  assumes wf: "vfs_wf C L P s" and p: "p \<in> P" "dir_flag s (p_dentry p)" and room: "cache_room (dentry_cache s) (v_heap s)"
  shows "\<exists>s'. ask_driver s p seg = Some (s', p\<lparr>p_dentry := 0\<rparr>, False) \<and> vfs_wf C L P s' \<and> same_names P s s' \<and> miss_heap s = Some (v_heap s')"
proof -
  obtain h1 d h2 where h: "cache_alloc (dentry_cache s) (v_heap s) = Some (h1, d)" "d \<noteq> 0" "d \<notin> objs (v_heap s) (dentry_cache s)"
    "cache_free (dentry_cache s) d h1 = Some h2" "heap_inv h2 C L" "\<forall>c\<in>C. objs h2 c = objs (v_heap s) c"
    using slab.alloc_free [OF vfs_wfD(1,2) [OF wf] room] by blast
  have fresh: "p_dentry q \<noteq> d" if "q \<in> P" for q using path_okD(1) [OF vfs_wfD(9) [OF wf that]] h(3) by auto
  let ?f = "\<lambda>x. x\<lparr>d_name := seg, d_inode := 0, d_flags := 0, d_parent := 0, d_tab := (\<lambda>_. []), d_list := []\<rparr>"
  let ?s1 = "upd_dentry d ?f (s\<lparr>v_heap := h1\<rparr>)"
  have a: "dentry_alloc seg s = Some (?s1, d)" using h(1) by (simp add: dentry_alloc_def v_alloc_def)
  have ops: "in_ops (inodes s (d_inode (dentries s (p_dentry p)))) \<in> {Ramfs_inode_ops, Devfs_root_inode_ops}"
    using path_okD(3) [OF vfs_wfD(9) [OF wf p(1)] p(2)] .
  have i: "d_inode (dentries ?s1 (p_dentry p)) = d_inode (dentries s (p_dentry p))" using fresh [OF p(1)] by (simp add: upd_dentry_def)
  have "ops_lookup (d_inode (dentries ?s1 (p_dentry p))) d ?s1 = Some (?s1\<lparr>dentries := (dentries ?s1)(d := (dentries ?s1 d)\<lparr>d_inode := 0\<rparr>)\<rparr>)
      \<or> ops_lookup (d_inode (dentries ?s1 (p_dentry p))) d ?s1 = Some (?s1\<lparr>dentries := dentries ?s1\<rparr>)"
    unfolding i using ops by (auto simp: ops_lookup_def ramfs_inode_lookup_def upd_dentry_def)
  then obtain D where o: "ops_lookup (d_inode (dentries ?s1 (p_dentry p))) d ?s1 = Some (?s1\<lparr>dentries := D\<rparr>)"
    "d_inode (D d) = 0" "\<forall>x. x \<noteq> d \<longrightarrow> D x = dentries s x"
    by (elim disjE that) (simp_all add: upd_dentry_def)
  let ?s' = "s\<lparr>v_heap := h2, dentries := D\<rparr>"
  have "ask_driver s p seg = Some (?s', p\<lparr>p_dentry := 0\<rparr>, False)"
    unfolding ask_driver_def a using o(1,2) h(4) by (simp add: dentry_free_def v_free_def upd_dentry_def)
  moreover have sn: "same_names P s ?s'" using o(3) fresh by (auto simp: same_names_def)
  moreover have "vfs_wf C L P ?s'" by (rule vfs_wf_same_names [OF wf sn]) (use h(5,6) in simp_all)
  moreover have "miss_heap s = Some (v_heap ?s')" using h(1,4) by (simp add: miss_heap_def)
  ultimately show ?thesis by blast
qed

text \<open>One segment.\<close>

lemma lookup_segment_ok:
  assumes wf: "vfs_wf C L P s" and p: "p \<in> P" "dir_flag s (p_dentry p)" "\<not> mount_flag s (p_dentry p)"
    and un: "unambiguous P s seg" and room: "walk s p (seg # segs) = None \<longrightarrow> cache_room (dentry_cache s) (v_heap s)"
  shows "(\<exists>q. lookup_segment s p seg = Some (s, q, True) \<and> q \<in> P \<and> walk s p (seg # segs) = walk s (enter s q) segs)
    \<or> (\<exists>s'. lookup_segment s p seg = Some (s', p\<lparr>p_dentry := 0\<rparr>, False) \<and> vfs_wf C L P s' \<and> same_names P s s' \<and> walk s p (seg # segs) = None)"
proof (cases "seg = [] \<or> seg = [46] \<or> seg = [46, 46]")
  case True
  then show ?thesis using p go_up_ok [OF wf p(1)] by (intro disjI1) (auto simp: lookup_segment_def)
next
  case False
  note f = find_child_exact [OF wf p(1) un]
  show ?thesis
  proof (cases "child_named s (p_dentry p) seg")
    case None
    then have "cache_room (dentry_cache s) (v_heap s)" using room False by simp
    then show ?thesis using None False f p(2) ask_driver_ok [OF wf p(1,2), of seg] by (intro disjI2) (auto simp: lookup_segment_def)
  next
    case (Some c)
    then have "c \<in> set (d_list (dentries s (p_dentry p)))" by (auto simp: child_named_def find_Some_iff)
    then have "p\<lparr>p_dentry := c\<rparr> \<in> P" using path_okD(4,5) [OF vfs_wfD(9) [OF wf p(1)]] by blast
    then show ?thesis using False f p(2) Some by (intro disjI1) (auto simp: lookup_segment_def)
  qed
qed

lemma segments_unfold:
  assumes "pth \<noteq> []"
  shows "segments pth = segment pth # (if drop (length (segment pth)) pth = [] then [] else segments (drop (Suc (length (segment pth))) pth))"
  using assms by (subst segments.simps) simp

lemma lookup_loop_done: "finished \<or> pth = [] \<or> p_dentry cwd = 0 \<Longrightarrow> lookup_loop s cwd pth finished = Some (s, cwd)"
  by (subst lookup_loop.simps) simp

lemma lookup_loop_enter:
  assumes wf: "vfs_wf C L P s" and p: "p \<in> P" and pth: "pth \<noteq> []"
  shows "lookup_loop s p pth False = lookup_loop s (enter s p) pth False"
proof (cases "mount_flag s (p_dentry p)")
  case True
  then obtain m where m: "dir_flag s (p_dentry p)" "get_mount p s = Some m" "m \<noteq> 0"
    using path_okD(9) [OF vfs_wfD(9) [OF wf p]] by blast
  then show ?thesis using True pth dentry_not_null [OF wf p] by (subst lookup_loop.simps) (simp add: enter_def)
qed simp

text \<open>The loop of \<^verbatim>\<open>vfs_lookup\<close> returns, with the result of the walk.\<close>

lemma lookup_loop_ok:
  assumes wf: "vfs_wf C L P s" and p: "p \<in> P" and un: "\<forall>seg\<in>set (segments pth). unambiguous P s seg"
    and room: "walk s (enter s p) (segments pth) = None \<longrightarrow> cache_room (dentry_cache s) (v_heap s)"
  shows "\<exists>s' q. lookup_loop s p pth False = Some (s', q)
    \<and> (case walk s (enter s p) (segments pth) of
         None \<Rightarrow> p_dentry q = 0 \<and> vfs_wf C L P s' \<and> same_names P s s'
       | Some r \<Rightarrow> s' = s \<and> q \<in> P \<and> enter s q = r)"
  using p un room
proof (induction "length pth" arbitrary: pth p rule: less_induct)
  case less
  show ?case
  proof (cases "pth = []")
    case True
    then show ?thesis using less.prems(1) by (simp add: lookup_loop_done)
  next
    case False
    let ?p = "enter s p" and ?seg = "segment pth"
    let ?rest = "drop (length ?seg) pth"
    have e: "?p \<in> P" "\<not> mount_flag s (p_dentry ?p)" by (rule enter_in [OF wf less.prems(1)])+
    note nn = dentry_not_null [OF wf e(1)]
    note sg = segments_unfold [OF False]
    have un: "unambiguous P s ?seg" using less.prems(2) sg by simp
    show ?thesis
    proof (cases "dir_flag s (p_dentry ?p)")
      case F: False
      then have "lookup_loop s ?p pth False = Some (s, ?p\<lparr>p_dentry := 0\<rparr>)" using False nn by (subst lookup_loop.simps) simp
      then show ?thesis using lookup_loop_enter [OF wf less.prems(1) False] wf F sg by simp
    next
      case d: True
      have st: "lookup_loop s ?p pth False = do {
          (s1, cwd1, go) \<leftarrow> lookup_segment s ?p ?seg;
          if go then lookup_loop s1 cwd1 (drop 1 ?rest) (?rest = []) else Some (s1, cwd1) }"
        using False nn d e(2) by (subst lookup_loop.simps) (simp add: Let_def)
      let ?segs = "if ?rest = [] then [] else segments (drop (Suc (length ?seg)) pth)"
      have "walk s ?p (?seg # ?segs) = None \<longrightarrow> cache_room (dentry_cache s) (v_heap s)" using less.prems(3) sg by simp
      from lookup_segment_ok [OF wf e(1) d e(2) un this] show ?thesis
      proof (elim disjE exE conjE)
        fix q assume q: "lookup_segment s ?p ?seg = Some (s, q, True)" "q \<in> P" "walk s ?p (?seg # ?segs) = walk s (enter s q) ?segs"
        show ?thesis
        proof (cases "?rest = []")
          case True
          then have "lookup_loop s ?p pth False = Some (s, q)" using st q(1) by (simp add: lookup_loop_done)
          then show ?thesis using lookup_loop_enter [OF wf less.prems(1) False] q True sg by (simp del: walk.simps(2))
        next
          case rest: False
          let ?pth' = "drop (Suc (length ?seg)) pth"
          have lt: "length ?pth' < length pth" using False by simp
          have u: "\<forall>seg\<in>set (segments ?pth'). unambiguous P s seg" using less.prems(2) sg rest by simp
          have "walk s (enter s q) (segments ?pth') = None \<longrightarrow> cache_room (dentry_cache s) (v_heap s)"
            using less.prems(3) sg q(3) rest by (simp del: walk.simps(2))
          from less.hyps [OF lt q(2) u this] obtain s' r where
            r: "lookup_loop s q ?pth' False = Some (s', r)" "case walk s (enter s q) (segments ?pth') of
              None \<Rightarrow> p_dentry r = 0 \<and> vfs_wf C L P s' \<and> same_names P s s' | Some x \<Rightarrow> s' = s \<and> r \<in> P \<and> enter s r = x"
            by blast
          have "lookup_loop s ?p pth False = Some (s', r)" using st q(1) r(1) rest by simp
          then show ?thesis using lookup_loop_enter [OF wf less.prems(1) False] q(3) r(2) rest sg by (simp del: walk.simps(2))
        qed
      next
        fix s' assume q: "lookup_segment s ?p ?seg = Some (s', ?p\<lparr>p_dentry := 0\<rparr>, False)" "vfs_wf C L P s'" "same_names P s s'"
          "walk s ?p (?seg # ?segs) = None"
        then have "lookup_loop s ?p pth False = Some (s', ?p\<lparr>p_dentry := 0\<rparr>)" using st by simp
        then show ?thesis using lookup_loop_enter [OF wf less.prems(1) False] q sg by (simp del: walk.simps(2))
      qed
    qed
  qed
qed

definition absolute :: "u8 list \<Rightarrow> bool" where
  "absolute pth = (pth \<noteq> [] \<and> hd pth = DIRECTORY_SEPARATOR)"

definition lookup_base :: "vfs \<Rightarrow> path \<Rightarrow> u8 list \<Rightarrow> path" where
  "lookup_base s start pth = (if absolute pth then MNT_ROOT s (root_mount s) else start)"

definition path_segments :: "u8 list \<Rightarrow> u8 list list" where
  "path_segments pth = segments (if absolute pth then tl pth else pth)"

definition names_to :: "vfs \<Rightarrow> path \<Rightarrow> u8 list \<Rightarrow> path option" where
  "names_to s start pth = walk s (enter s (lookup_base s start pth)) (path_segments pth)"

lemma vfs_lookup_ok:
  assumes wf: "vfs_wf C L P s" and p: "start \<in> P" and un: "\<forall>seg\<in>set (path_segments pth). unambiguous P s seg"
    and room: "names_to s start pth = None \<longrightarrow> cache_room (dentry_cache s) (v_heap s)"
  shows "\<exists>s'. vfs_lookup (Some start) pth s = Some (s', names_to s start pth) \<and> vfs_wf C L P s' \<and> same_names P s s'
    \<and> (names_to s start pth \<noteq> None \<longrightarrow> s' = s \<and> the (names_to s start pth) \<in> P)"
proof -
  let ?b = "lookup_base s start pth" and ?pth = "if absolute pth then tl pth else pth"
  have b: "?b \<in> P" using vfs_wfD(8) [OF wf] p by (simp add: lookup_base_def)
  have d: "vfs_lookup (Some start) pth s = do {
     (s1, cwd1) \<leftarrow> lookup_loop s ?b ?pth False;
     if p_dentry cwd1 = 0 then Some (s1, None)
     else if d_inode (dentries s1 (p_dentry cwd1)) = 0 then None
     else if mount_flag s1 (p_dentry cwd1)
     then do { m \<leftarrow> get_mount cwd1 s1; bug_on (m = 0); Some (s1, Some (MNT_ROOT s1 m)) }
     else Some (s1, Some cwd1) }"
    by (simp add: vfs_lookup_def absolute_def lookup_base_def Let_def)
  obtain s' q where l: "lookup_loop s ?b ?pth False = Some (s', q)"
    "case names_to s start pth of None \<Rightarrow> p_dentry q = 0 \<and> vfs_wf C L P s' \<and> same_names P s s' | Some r \<Rightarrow> s' = s \<and> q \<in> P \<and> enter s q = r"
    using lookup_loop_ok [OF wf b, of ?pth] un room unfolding path_segments_def names_to_def by blast
  show ?thesis
  proof (cases "names_to s start pth")
    case None
    then show ?thesis using l d by simp
  next
    case (Some r)
    then have q: "s' = s" "q \<in> P" "enter s q = r" using l(2) by simp_all
    note nn = dentry_not_null [OF wf q(2)] and fl = path_okD(9) [OF vfs_wfD(9) [OF wf q(2)]]
    have "vfs_lookup (Some start) pth s = Some (s, Some r)" using d l(1) q nn fl by (auto simp: enter_def)
    then show ?thesis using Some wf enter_in(1) [OF wf q(2)] q(3) by simp
  qed
qed

text \<open>
  With room for a dentry the lookup returns even where names are ambiguous: at a path of the name
  space or with nothing.
\<close>

lemma lookup_segment_returns:
  assumes wf: "vfs_wf C L P s" and p: "p \<in> P" "dir_flag s (p_dentry p)" and room: "cache_room (dentry_cache s) (v_heap s)"
  shows "(\<exists>q. lookup_segment s p seg = Some (s, q, True) \<and> q \<in> P)
    \<or> (\<exists>s'. lookup_segment s p seg = Some (s', p\<lparr>p_dentry := 0\<rparr>, False) \<and> vfs_wf C L P s' \<and> same_names P s s')"
proof (cases "seg = [] \<or> seg = [46] \<or> seg = [46, 46]")
  case True
  then show ?thesis using p go_up_ok [OF wf p(1)] by (intro disjI1) (auto simp: lookup_segment_def)
next
  case False
  obtain i where i: "child_index seg = Some i" using child_index_total by blast
  let ?t = "d_tab (dentries s (p_dentry p)) i"
  show ?thesis
  proof (cases "List.find (\<lambda>c. prefix_match seg (d_name (dentries s c))) ?t")
    case None
    then show ?thesis using False i ask_driver_ok [OF wf p room, of seg] by (intro disjI2) (auto simp: lookup_segment_def find_child_dentry_def)
  next
    case (Some c)
    then have "c \<in> set ?t" by (auto simp: find_Some_iff)
    then have "p\<lparr>p_dentry := c\<rparr> \<in> P" using path_okD(4) [OF vfs_wfD(9) [OF wf p(1)]] by blast
    then show ?thesis using Some False i by (intro disjI1) (auto simp: lookup_segment_def find_child_dentry_def)
  qed
qed

lemma lookup_loop_returns:
  assumes wf: "vfs_wf C L P s" and p: "p \<in> P" and room: "cache_room (dentry_cache s) (v_heap s)"
  shows "\<exists>s' q. lookup_loop s p pth False = Some (s', q) \<and> (p_dentry q = 0 \<and> vfs_wf C L P s' \<and> same_names P s s' \<or> s' = s \<and> q \<in> P)"
  using p
proof (induction "length pth" arbitrary: pth p rule: less_induct)
  case less
  show ?case
  proof (cases "pth = []")
    case True
    then show ?thesis using less.prems by (simp add: lookup_loop_done)
  next
    case False
    let ?p = "enter s p" and ?seg = "segment pth"
    let ?rest = "drop (length ?seg) pth"
    have e: "?p \<in> P" "\<not> mount_flag s (p_dentry ?p)" by (rule enter_in [OF wf less.prems])+
    note nn = dentry_not_null [OF wf e(1)]
    show ?thesis
    proof (cases "dir_flag s (p_dentry ?p)")
      case F: False
      then have "lookup_loop s ?p pth False = Some (s, ?p\<lparr>p_dentry := 0\<rparr>)" using False nn by (subst lookup_loop.simps) simp
      then show ?thesis using lookup_loop_enter [OF wf less.prems False] wf by simp
    next
      case d: True
      have st: "lookup_loop s p pth False = do {
          (s1, cwd1, go) \<leftarrow> lookup_segment s ?p ?seg;
          if go then lookup_loop s1 cwd1 (drop 1 ?rest) (?rest = []) else Some (s1, cwd1) }"
        using False nn d e(2) unfolding lookup_loop_enter [OF wf less.prems False] by (subst lookup_loop.simps) (simp add: Let_def)
      from lookup_segment_returns [OF wf e(1) d room, of ?seg] show ?thesis
      proof (elim disjE exE conjE)
        fix q assume q: "lookup_segment s ?p ?seg = Some (s, q, True)" "q \<in> P"
        show ?thesis
        proof (cases "?rest = []")
          case True
          then show ?thesis using st q by (simp add: lookup_loop_done)
        next
          case rest: False
          have "length (drop 1 ?rest) < length pth" using False by simp
          from less.hyps [OF this q(2)] show ?thesis using st q(1) rest by simp
        qed
      qed (use st in simp)
    qed
  qed
qed

lemma vfs_lookup_returns:
  assumes wf: "vfs_wf C L P s" and p: "start \<in> P" and room: "cache_room (dentry_cache s) (v_heap s)"
  shows "\<exists>s' r. vfs_lookup (Some start) pth s = Some (s', r) \<and> vfs_wf C L P s' \<and> same_names P s s'"
proof -
  let ?b = "lookup_base s start pth" and ?pth = "if absolute pth then tl pth else pth"
  have b: "?b \<in> P" using vfs_wfD(8) [OF wf] p by (simp add: lookup_base_def)
  have d: "vfs_lookup (Some start) pth s = do {
     (s1, cwd1) \<leftarrow> lookup_loop s ?b ?pth False;
     if p_dentry cwd1 = 0 then Some (s1, None)
     else if d_inode (dentries s1 (p_dentry cwd1)) = 0 then None
     else if mount_flag s1 (p_dentry cwd1)
     then do { m \<leftarrow> get_mount cwd1 s1; bug_on (m = 0); Some (s1, Some (MNT_ROOT s1 m)) }
     else Some (s1, Some cwd1) }"
    by (simp add: vfs_lookup_def absolute_def lookup_base_def Let_def)
  obtain s' q where l: "lookup_loop s ?b ?pth False = Some (s', q)"
    "p_dentry q = 0 \<and> vfs_wf C L P s' \<and> same_names P s s' \<or> s' = s \<and> q \<in> P"
    using lookup_loop_returns [OF wf b room] by blast
  show ?thesis
  proof (cases "p_dentry q = 0")
    case True
    then show ?thesis using d l wf by auto
  next
    case False
    then have q: "s' = s" "q \<in> P" using l(2) by simp_all
    note nn = dentry_not_null [OF wf q(2)] and fl = path_okD(9) [OF vfs_wfD(9) [OF wf q(2)]]
    show ?thesis using d l(1) q nn fl wf by auto
  qed
qed

section \<open>Adding a name\<close>

definition with_child :: "path set \<Rightarrow> u32 \<Rightarrow> u32 \<Rightarrow> path set" where
  "with_child P w new = P \<union> (\<lambda>p. p\<lparr>p_dentry := new\<rparr>) ` {p \<in> P. p_dentry p = w}"

text \<open>\<open>child_added s s' w new i name\<close>: \<open>s'\<close> has a new child \<open>new\<close> with inode \<open>i\<close> in the directory \<open>w\<close>.\<close>

definition child_added :: "vfs \<Rightarrow> vfs \<Rightarrow> u32 \<Rightarrow> u32 \<Rightarrow> u32 \<Rightarrow> u8 list \<Rightarrow> bool" where
  "child_added s s' w new i name = (
     new \<notin> objs (v_heap s) (dentry_cache s) \<and> i \<notin> objs (v_heap s) (inode_cache s)
     \<and> objs (v_heap s') (dentry_cache s) = insert new (objs (v_heap s) (dentry_cache s))
     \<and> objs (v_heap s') (inode_cache s) = insert i (objs (v_heap s) (inode_cache s))
     \<and> (\<forall>d. d \<noteq> new \<and> d \<noteq> w \<longrightarrow> dentries s' d = dentries s d)
     \<and> (\<forall>k. child_index name = Some k \<longrightarrow> dentries s' w
          = (dentries s w)\<lparr>d_tab := (d_tab (dentries s w))(k := new # d_tab (dentries s w) k), d_list := new # d_list (dentries s w)\<rparr>)
     \<and> d_inode (dentries s' new) = i \<and> d_parent (dentries s' new) = w \<and> d_name (dentries s' new) = name
     \<and> d_tab (dentries s' new) = (\<lambda>_. []) \<and> d_list (dentries s' new) = []
     \<and> (\<forall>j. j \<noteq> i \<longrightarrow> inodes s' j = inodes s j) \<and> \<not> mount_flag s' new
     \<and> (dir_flag s' new \<longrightarrow> in_ops (inodes s' i) = Ramfs_inode_ops)
     \<and> mounts s' = mounts s \<and> filesystems s' = filesystems s \<and> mount_hashtable s' = mount_hashtable s \<and> root_mount s' = root_mount s
     \<and> dentry_cache s' = dentry_cache s \<and> inode_cache s' = inode_cache s \<and> record_cache s' = record_cache s)"

lemma child_addedD:
  assumes "child_added s s' w new i name"
  shows "new \<notin> objs (v_heap s) (dentry_cache s)" and "i \<notin> objs (v_heap s) (inode_cache s)"
    and "objs (v_heap s') (dentry_cache s) = insert new (objs (v_heap s) (dentry_cache s))"
    and "objs (v_heap s') (inode_cache s) = insert i (objs (v_heap s) (inode_cache s))"
    and "d \<noteq> new \<Longrightarrow> d \<noteq> w \<Longrightarrow> dentries s' d = dentries s d"
    and "child_index name = Some k \<Longrightarrow> dentries s' w
          = (dentries s w)\<lparr>d_tab := (d_tab (dentries s w))(k := new # d_tab (dentries s w) k), d_list := new # d_list (dentries s w)\<rparr>"
    and "d_inode (dentries s' new) = i" and "d_parent (dentries s' new) = w" and "d_name (dentries s' new) = name"
    and "d_tab (dentries s' new) = (\<lambda>_. [])" and "d_list (dentries s' new) = []"
    and "j \<noteq> i \<Longrightarrow> inodes s' j = inodes s j" and "\<not> mount_flag s' new"
    and "dir_flag s' new \<Longrightarrow> in_ops (inodes s' i) = Ramfs_inode_ops"
    and "mounts s' = mounts s" "filesystems s' = filesystems s" "mount_hashtable s' = mount_hashtable s" "root_mount s' = root_mount s"
      "dentry_cache s' = dentry_cache s" "inode_cache s' = inode_cache s" "record_cache s' = record_cache s"
  using assms unfolding child_added_def by blast+

lemma child_added_old:
  assumes wf: "vfs_wf C L P s" and w: "wd \<in> P" "w = p_dentry wd" and a: "child_added s s' w new i name" and p: "p \<in> P"
  shows "p_dentry p \<noteq> new" and "d_inode (dentries s' (p_dentry p)) = d_inode (dentries s (p_dentry p))"
    and "d_parent (dentries s' (p_dentry p)) = d_parent (dentries s (p_dentry p))" and "d_name (dentries s' (p_dentry p)) = d_name (dentries s (p_dentry p))"
    and "dir_flag s' (p_dentry p) = dir_flag s (p_dentry p)" and "mount_flag s' (p_dentry p) = mount_flag s (p_dentry p)"
    and "inodes s' (d_inode (dentries s (p_dentry p))) = inodes s (d_inode (dentries s (p_dentry p)))"
proof -
  note ok = path_okD(1,2) [OF vfs_wfD(9) [OF wf p]]
  show n: "p_dentry p \<noteq> new" using ok(1) child_addedD(1) [OF a] by auto
  obtain k where k: "child_index name = Some k" using child_index_total by blast
  show i: "d_inode (dentries s' (p_dentry p)) = d_inode (dentries s (p_dentry p))"
    and "d_parent (dentries s' (p_dentry p)) = d_parent (dentries s (p_dentry p))" and "d_name (dentries s' (p_dentry p)) = d_name (dentries s (p_dentry p))"
    using child_addedD(5) [OF a n] child_addedD(6) [OF a k] by (cases "p_dentry p = w"; simp)+
  show q: "inodes s' (d_inode (dentries s (p_dentry p))) = inodes s (d_inode (dentries s (p_dentry p)))"
    using ok(2) child_addedD(2) [OF a] by (intro child_addedD(12) [OF a]) auto
  show "dir_flag s' (p_dentry p) = dir_flag s (p_dentry p)" "mount_flag s' (p_dentry p) = mount_flag s (p_dentry p)"
    by (simp_all add: dir_flag_def mount_flag_def i q)
qed

lemma get_mount_cong: "mounts s' = mounts s \<Longrightarrow> mount_hashtable s' = mount_hashtable s \<Longrightarrow> get_mount p s' = get_mount p s"
  by (simp add: get_mount_def)

lemma MNT_ROOT_cong: "mounts s' = mounts s \<Longrightarrow> filesystems s' = filesystems s \<Longrightarrow> MNT_ROOT s' = MNT_ROOT s"
  by (simp add: MNT_ROOT_def fun_eq_iff)

lemma child_added_children:
  assumes wf: "vfs_wf C L P s" and w: "wd \<in> P" "w = p_dentry wd" and a: "child_added s s' w new i name" and nn: "child_named s w name = None"
    and p: "p \<in> P"
  shows "\<forall>j. \<forall>c\<in>set (d_tab (dentries s' (p_dentry p)) j). p\<lparr>p_dentry := c\<rparr> \<in> with_child P w new \<and> d_parent (dentries s' c) = p_dentry p
      \<and> child_index (d_name (dentries s' c)) = Some j"
    and "set (d_list (dentries s' (p_dentry p))) = (\<Union>j. set (d_tab (dentries s' (p_dentry p)) j))"
    and "inj_on (\<lambda>c. d_name (dentries s' c)) (set (d_list (dentries s' (p_dentry p))))"
proof -
  note ok = path_okD [OF vfs_wfD(9) [OF wf p]] and old = child_added_old [OF wf w a]
  obtain k where k: "child_index name = Some k" using child_index_total by blast
  have ch: "p\<lparr>p_dentry := c\<rparr> \<in> with_child P w new \<and> d_parent (dentries s' c) = p_dentry p \<and> child_index (d_name (dentries s' c)) = Some j"
    and nc: "d_name (dentries s' c) = d_name (dentries s c)"
    if "c \<in> set (d_tab (dentries s (p_dentry p)) j)" for c j
    using ok(4) [OF that] old(3,4) [of "p\<lparr>p_dentry := c\<rparr>"] by (simp_all add: with_child_def)
  have nm: "d_name (dentries s' c) = d_name (dentries s c)" if "c \<in> set (d_list (dentries s (p_dentry p)))" for c using nc ok(5) that by auto
  have inj: "inj_on (\<lambda>c. d_name (dentries s' c)) (set (d_list (dentries s (p_dentry p))))"
    using ok(6) inj_on_cong [of "set (d_list (dentries s (p_dentry p)))" "\<lambda>c. d_name (dentries s' c)" "\<lambda>c. d_name (dentries s c)"] nm by simp
  note same = child_addedD(5) [OF a old(1) [OF p]] and chg = child_addedD(6) [OF a k]
  show "\<forall>j. \<forall>c\<in>set (d_tab (dentries s' (p_dentry p)) j). p\<lparr>p_dentry := c\<rparr> \<in> with_child P w new \<and> d_parent (dentries s' c) = p_dentry p
      \<and> child_index (d_name (dentries s' c)) = Some j"
  proof (cases "p_dentry p = w")
    case True
    have "p\<lparr>p_dentry := new\<rparr> \<in> with_child P w new" using p True by (auto simp: with_child_def)
    then show ?thesis using True ch chg child_addedD(8,9) [OF a] k by (auto split: if_splits)
  qed (use ch same in auto)
  show "set (d_list (dentries s' (p_dentry p))) = (\<Union>j. set (d_tab (dentries s' (p_dentry p)) j))"
  proof (cases "p_dentry p = w")
    case True
    have "(\<Union>j. set (((d_tab (dentries s w))(k := new # d_tab (dentries s w) k)) j)) = insert new (\<Union>j. set (d_tab (dentries s w) j))"
      by (auto split: if_splits)
    then show ?thesis using True chg ok(5) by simp
  qed (use ok(5) same in auto)
  show "inj_on (\<lambda>c. d_name (dentries s' c)) (set (d_list (dentries s' (p_dentry p))))"
  proof (cases "p_dentry p = w")
    case True
    have "d_name (dentries s c) \<noteq> name" if "c \<in> set (d_list (dentries s w))" for c
      using nn that by (auto simp: child_named_def find_None_iff)
    then have "name \<notin> (\<lambda>c. d_name (dentries s' c)) ` set (d_list (dentries s w))" using nm True by auto
    then show ?thesis using True chg child_addedD(9) [OF a] inj by auto
  qed (use inj same in auto)
qed

lemma child_added_wf:
  assumes wf: "vfs_wf C L P s" and w: "wd \<in> P" "w = p_dentry wd" and a: "child_added s s' w new i name" and nn: "child_named s w name = None"
    and h: "heap_inv (v_heap s') C L"
  shows "vfs_wf C L (with_child P w new) s'"
  unfolding vfs_wf_def
proof (intro conjI ballI)
  note D = child_addedD [OF a] and old = child_added_old [OF wf w a]
  have G: "get_mount q s' = get_mount q s" for q by (rule get_mount_cong) (fact D)+
  have M: "MNT_ROOT s' = MNT_ROOT s" by (rule MNT_ROOT_cong) (fact D)+
  have sub: "P \<subseteq> with_child P w new" by (auto simp: with_child_def)
  show "heap_inv (v_heap s') C L" by (rule h)
  show "{dentry_cache s', inode_cache s', record_cache s'} \<subseteq> C" "distinct [dentry_cache s', inode_cache s', record_cache s']"
    "MNT_ROOT s' (root_mount s') \<in> with_child P w new"
    using vfs_wfD [OF wf] sub by (auto simp: D(18-21) M)
  fix p assume "p \<in> with_child P w new"
  then consider "p \<in> P" | q where "q \<in> P" "p_dentry q = w" "p = q\<lparr>p_dentry := new\<rparr>" by (auto simp: with_child_def)
  then show "path_ok (with_child P w new) s' p"
  proof cases
    case 1
    note ok = path_okD [OF vfs_wfD(9) [OF wf 1]]
    let ?q = "\<lparr>p_mount = m_parent (mounts s (p_mount p)), p_dentry = m_mountpoint (mounts s (p_mount p))\<rparr>"
    show ?thesis unfolding path_ok_def Let_def
    proof (intro conjI)
      show "p_dentry p \<in> objs (v_heap s') (dentry_cache s')" "d_inode (dentries s' (p_dentry p)) \<in> objs (v_heap s') (inode_cache s')"
        using ok(1,2) by (simp_all add: D(3,4,19,20) old(2) [OF 1])
      show "dir_flag s' (p_dentry p) \<longrightarrow> in_ops (inodes s' (d_inode (dentries s' (p_dentry p)))) \<in> {Ramfs_inode_ops, Devfs_root_inode_ops}"
        unfolding old(2,5,7) [OF 1] using ok(3) by blast
      show "d_parent (dentries s' (p_dentry p)) \<noteq> 0 \<longrightarrow> p\<lparr>p_dentry := d_parent (dentries s' (p_dentry p))\<rparr> \<in> with_child P w new"
        unfolding old(3) [OF 1] using ok(7) sub by blast
      show "d_parent (dentries s' (p_dentry p)) = 0 \<and> p_mount p \<noteq> root_mount s' \<longrightarrow> m_parent (mounts s' (p_mount p)) \<noteq> 0
        \<and> \<lparr>p_mount = m_parent (mounts s' (p_mount p)), p_dentry = m_mountpoint (mounts s' (p_mount p))\<rparr> \<in> with_child P w new
        \<and> mount_flag s' (m_mountpoint (mounts s' (p_mount p))) \<and> d_parent (dentries s' (m_mountpoint (mounts s' (p_mount p)))) \<noteq> 0"
        using ok(8) old(3,6) [of ?q] sub by (auto simp: D(15,18) old(3) [OF 1])
      show "mount_flag s' (p_dentry p) \<longrightarrow> dir_flag s' (p_dentry p)
          \<and> (\<exists>m'. get_mount p s' = Some m' \<and> m' \<noteq> 0 \<and> MNT_ROOT s' m' \<in> with_child P w new \<and> \<not> mount_flag s' (p_dentry (MNT_ROOT s' m')))"
        using ok(9) old(6) sub by (auto simp: old(5,6) [OF 1] G M)
    qed (fact child_added_children [OF wf w a nn 1])+
  next
    case 2
    have "d_inode (dentries s' new) \<in> objs (v_heap s') (inode_cache s')" "new \<in> objs (v_heap s') (dentry_cache s')"
      by (simp_all add: D(3,4,7,19,20))
    moreover have "w \<noteq> 0" using dentry_not_null(1) [OF wf w(1)] w(2) by simp
    moreover have "q\<lparr>p_dentry := w\<rparr> = q" using 2(2) by (cases q) simp
    then have "q\<lparr>p_dentry := w\<rparr> \<in> with_child P w new" using 2(1) sub by auto
    ultimately show ?thesis using D(7,8,10,11,13,14) by (simp add: path_ok_def Let_def 2(3))
  qed
qed

text \<open>The memory a new file takes: a dentry, an inode and, for a regular file, a record.\<close>

definition create_room :: "vfs \<Rightarrow> u32 \<Rightarrow> heap \<Rightarrow> bool" where
  "create_room s mode h = (case cache_alloc (dentry_cache s) h of None \<Rightarrow> False | Some (h1, _) \<Rightarrow>
     case cache_alloc (inode_cache s) h1 of None \<Rightarrow> False | Some (h2, _) \<Rightarrow>
       S_ISREG mode \<longrightarrow> cache_alloc (record_cache s) h2 \<noteq> None)"

definition new_dentry :: "vfs \<Rightarrow> u32 \<Rightarrow> u8 list \<Rightarrow> dentry" where
  "new_dentry s d name = (dentries s d)\<lparr>d_name := name, d_inode := 0, d_flags := 0, d_parent := 0, d_tab := (\<lambda>_. []), d_list := []\<rparr>"

text \<open>Making an inode for a dentry and hanging the dentry into its directory.\<close>

lemma create_in_dir:
  assumes wf: "vfs_wf C L P s" and w: "wd \<in> P" "in_ops (inodes s (d_inode (dentries s (p_dentry wd)))) = Ramfs_inode_ops"
    and nn: "child_named s (p_dentry wd) name = None" and mode: "S_ISREG mode \<or> S_ISDIR mode" and ino: "global_ino_count s \<noteq> 0"
    and room: "create_room s mode (v_heap s)"
  shows "\<exists>i s3 new s4 s'. dentry_alloc name s = Some (s3, new)
    \<and> ops_create (d_inode (dentries s3 (p_dentry wd))) new mode s3 = Some (s4, 0) \<and> validate_inode new s4 = Some ()
    \<and> dentry_activate new (p_dentry wd) s4 = Some s'
    \<and> child_added s s' (p_dentry wd) new i name \<and> heap_inv (v_heap s') C L \<and> in_mode (inodes s' i) = mode
    \<and> (dir_flag s' new \<longleftrightarrow> \<not> S_ISREG mode)"
proof -
  let ?w = "p_dentry wd"
  obtain h1 d h2 i where a: "cache_alloc (dentry_cache s) (v_heap s) = Some (h1, d)" "cache_alloc (inode_cache s) h1 = Some (h2, i)"
    and r: "S_ISREG mode \<Longrightarrow> \<exists>h3 r. cache_alloc (record_cache s) h2 = Some (h3, r)"
    using room by (fastforce simp: create_room_def split: option.splits)
  note D = vfs_wfD [OF wf]
  note A1 = cache_alloc_new [OF D(1,2) a(1)]
  note A2 = cache_alloc_new [OF A1(1) D(3) a(2)]
  have o2: "objs h2 (dentry_cache s) = insert d (objs (v_heap s) (dentry_cache s))" "objs h2 (inode_cache s) = insert i (objs (v_heap s) (inode_cache s))"
    and i: "i \<notin> objs (v_heap s) (inode_cache s)"
    using A1(3,4) A2(2,3,4) D(2,3,5) by auto
  have wn: "?w \<noteq> d" "?w \<noteq> 0" using path_okD(1) [OF D(9) [OF w(1)]] A1(2) dentry_not_null(1) [OF wf w(1)] by auto
  obtain k where k: "child_index name = Some k" using child_index_total by blast
  let ?s3 = "upd_dentry d (\<lambda>_. new_dentry s d name) (s\<lparr>v_heap := h1\<rparr>)"
  have s3: "dentry_alloc name s = Some (?s3, d)" using a(1) by (simp add: dentry_alloc_def v_alloc_def upd_dentry_def new_dentry_def)
  have in3: "d_inode (dentries ?s3 ?w) = d_inode (dentries s ?w)" using wn by (simp add: upd_dentry_def)
  have iw: "i \<noteq> d_inode (dentries s ?w)" using path_okD(2) [OF D(9) [OF w(1)]] i by auto
  show ?thesis
  proof (cases "S_ISREG mode")
    case True
    obtain h3 q where q: "cache_alloc (record_cache s) h2 = Some (h3, q)" using r [OF True] by blast
    note A3 = cache_alloc_new [OF A2(1) D(4) q]
    have o3: "objs h3 (dentry_cache s) = objs h2 (dentry_cache s)" "objs h3 (inode_cache s) = objs h2 (inode_cache s)"
      using A3(4) D(2,3,6,7) by auto
    show ?thesis
      apply (rule exI [of _ i])
      using s3 a(2) q True w(2) wn k A1(2,5) A3(1) o2 o3 i ino iw
      apply (simp add: in3 ops_create_def ramfs_inode_create_def ramfs_create_internal_def inode_alloc_def v_alloc_def upd_dentry_def upd_inode_def
        validate_inode_def dentry_activate_def Let_def child_added_def new_dentry_def dir_flag_def mount_flag_def)
      done
  next
    case False
    show ?thesis
      apply (rule exI [of _ i])
      using s3 a(2) False mode w(2) wn k A1(2,5) A2(1) o2 i ino iw
      apply (simp add: in3 ops_create_def ramfs_inode_create_def ramfs_create_internal_def inode_alloc_def v_alloc_def upd_dentry_def upd_inode_def
        validate_inode_def dentry_activate_def Let_def child_added_def new_dentry_def dir_flag_def mount_flag_def INODE_FLAG_DIRECTORY_def INODE_FLAG_MOUNTPOINT_def)
      done
  qed
qed

section \<open>Creating and finding again\<close>

definition plain_name :: "u8 list \<Rightarrow> bool" where
  "plain_name name = (name \<noteq> [] \<and> name \<noteq> [46] \<and> name \<noteq> [46, 46] \<and> DIRECTORY_SEPARATOR \<notin> set name)"

lemma last_segment_loop_plain: "DIRECTORY_SEPARATOR \<notin> set xs \<Longrightarrow> last_segment_loop xs i seg = seg"
  by (induction xs arbitrary: i) auto

lemma last_segment_loop_sep:
  assumes "DIRECTORY_SEPARATOR \<notin> set name" and "name \<noteq> []"
  shows "last_segment_loop (dir @ DIRECTORY_SEPARATOR # name) i seg = Suc (i + length dir)"
  using assms by (induction dir arbitrary: i seg) (auto simp: last_segment_loop_plain)

lemma last_segment_plain: "plain_name name \<Longrightarrow> last_segment name = 0"
  by (simp add: last_segment_def plain_name_def last_segment_loop_plain)

lemma last_segment_sep: "plain_name name \<Longrightarrow> last_segment (dir @ DIRECTORY_SEPARATOR # name) = Suc (length dir)"
  by (simp add: last_segment_def plain_name_def last_segment_loop_sep)

lemma segment_plain: "DIRECTORY_SEPARATOR \<notin> set name \<Longrightarrow> segment name = name"
  by (auto simp: segment_def takeWhile_eq_all_conv)

lemma segments_plain: "plain_name name \<Longrightarrow> segments name = [name]"
  by (subst segments.simps) (simp add: plain_name_def segment_plain)

lemma path_segments_plain: "plain_name name \<Longrightarrow> path_segments name = [name] \<and> \<not> absolute name"
  using segments_plain [of name] by (cases name) (auto simp: path_segments_def absolute_def plain_name_def)

lemma segments_sep:
  assumes "plain_name name"
  shows "dir \<noteq> [] \<Longrightarrow> last dir \<noteq> DIRECTORY_SEPARATOR \<Longrightarrow> segments (dir @ DIRECTORY_SEPARATOR # name) = segments dir @ [name]"
proof (induction "length dir" arbitrary: dir rule: less_induct)
  case less
  let ?n = "length (segment dir)"
  have sg: "segment (dir @ DIRECTORY_SEPARATOR # name) = segment dir"
    by (simp add: segment_def takeWhile_tail)
  have le: "?n \<le> length dir" by (simp add: segment_def length_takeWhile_le)
  note u = segments_unfold [OF less.prems(1)] and u' = segments_unfold [of "dir @ DIRECTORY_SEPARATOR # name", unfolded sg]
  show ?case
  proof (cases "drop ?n dir = []")
    case True
    then have "?n = length dir" using le by simp
    then show ?thesis using u u' True segments_plain [OF assms] by simp
  next
    case False
    have hd: "hd (drop ?n dir) = DIRECTORY_SEPARATOR"
      using False hd_dropWhile [of "\<lambda>c. c \<noteq> DIRECTORY_SEPARATOR" dir] by (simp add: segment_def dropWhile_eq_drop)
    let ?r = "drop (Suc ?n) dir"
    have ne: "?r \<noteq> []"
    proof
      assume "?r = []"
      then have "tl (drop ?n dir) = []" by (simp only: tl_drop drop_Suc)
      then have "drop ?n dir = [hd (drop ?n dir)]" using False by (cases "drop ?n dir") simp_all
      then have "last dir = DIRECTORY_SEPARATOR" using hd False by (metis last_drop last_snoc append_Nil drop_eq_Nil linorder_not_le)
      then show False using less.prems(2) by simp
    qed
    have "length ?r < length dir" using less.prems(1) by simp
    moreover have "last ?r \<noteq> DIRECTORY_SEPARATOR" using less.prems(2) ne by simp
    ultimately have "segments (?r @ DIRECTORY_SEPARATOR # name) = segments ?r @ [name]" using less.hyps ne by blast
    moreover have "drop (Suc ?n) (dir @ DIRECTORY_SEPARATOR # name) = ?r @ DIRECTORY_SEPARATOR # name" using ne by simp
    ultimately show ?thesis using u u' False by (simp split: if_splits)
  qed
qed

lemma path_segments_sep:
  assumes "plain_name name" and "dir \<noteq> []" and "last dir \<noteq> DIRECTORY_SEPARATOR"
  shows "path_segments (dir @ DIRECTORY_SEPARATOR # name) = path_segments dir @ [name]"
    and "absolute (dir @ DIRECTORY_SEPARATOR # name) = absolute dir"
proof -
  show a: "absolute (dir @ DIRECTORY_SEPARATOR # name) = absolute dir" using assms(2) by (simp add: absolute_def)
  have "tl dir \<noteq> [] \<and> last (tl dir) \<noteq> DIRECTORY_SEPARATOR" if "absolute dir"
    using assms(2,3) that by (cases dir) (auto simp: absolute_def split: if_splits)
  then show "path_segments (dir @ DIRECTORY_SEPARATOR # name) = path_segments dir @ [name]"
    using a segments_sep [OF assms(1), of dir] segments_sep [OF assms(1), of "tl dir"] assms(2,3) by (simp add: path_segments_def)
qed

lemma walk_append: "walk s p (xs @ ys) = (case walk s p xs of None \<Rightarrow> None | Some q \<Rightarrow> walk s q ys)"
  by (induction s p xs rule: walk.induct) (auto split: option.splits)

lemma child_named_mem:
  assumes "vfs_wf C L P s" and "p \<in> P" and "child_named s (p_dentry p) seg = Some c"
  shows "p\<lparr>p_dentry := c\<rparr> \<in> P" and "c \<in> set (d_list (dentries s (p_dentry p)))" and "d_name (dentries s c) = seg"
proof -
  show c: "c \<in> set (d_list (dentries s (p_dentry p)))" "d_name (dentries s c) = seg" using assms(3) by (auto simp: child_named_def find_Some_iff)
  then show "p\<lparr>p_dentry := c\<rparr> \<in> P" using path_okD(4,5) [OF vfs_wfD(9) [OF assms(1,2)]] by blast
qed

lemma walk_in:
  assumes wf: "vfs_wf C L P s"
  shows "p \<in> P \<Longrightarrow> \<not> mount_flag s (p_dentry p) \<Longrightarrow> walk s p segs = Some q \<Longrightarrow> q \<in> P \<and> \<not> mount_flag s (p_dentry q)"
proof (induction segs arbitrary: p)
  case (Cons seg segs)
  have d: "dir_flag s (p_dentry p)" using Cons.prems(3) by (auto split: if_splits)
  consider (stay) "seg = [] \<or> seg = [46]" | (up) "seg = [46, 46]" | (down) "\<not> (seg = [] \<or> seg = [46])" "seg \<noteq> [46, 46]" by blast
  then obtain r where "r \<in> P" "\<not> mount_flag s (p_dentry r)" "walk s r segs = Some q"
  proof cases
    case stay
    then show ?thesis using that [of p] Cons.prems d by simp
  next
    case up
    have "up s p \<in> P" by (rule go_up_ok(2) [OF wf Cons.prems(1)])
    then show ?thesis using that [of "enter s (up s p)"] enter_in [OF wf] Cons.prems(3) d up by simp
  next
    case down
    then obtain c where c: "child_named s (p_dentry p) seg = Some c" "walk s (enter s (p\<lparr>p_dentry := c\<rparr>)) segs = Some q"
      using Cons.prems(3) d by (auto split: option.splits)
    have "p\<lparr>p_dentry := c\<rparr> \<in> P" by (rule child_named_mem(1) [OF wf Cons.prems(1) c(1)])
    then show ?thesis using that c(2) enter_in [OF wf] by blast
  qed
  then show ?case by (rule Cons.IH)
qed simp

text \<open>
  Walks look only at the name space: if every path of \<open>P\<close> looks the same in two states, so do the walks,
  as far as the children they pass are found in both.
\<close>

lemma walk_transfer:
  assumes wf: "vfs_wf C L P s"
    and fl: "\<And>p. p \<in> P \<Longrightarrow> dir_flag s' (p_dentry p) = dir_flag s (p_dentry p) \<and> enter s' p = enter s p \<and> up s' p = up s p"
    and ch: "\<And>p seg c. p \<in> P \<Longrightarrow> child_named s (p_dentry p) seg = Some c \<Longrightarrow> child_named s' (p_dentry p) seg = Some c"
  shows "p \<in> P \<Longrightarrow> walk s p segs = Some q \<Longrightarrow> walk s' p segs = Some q"
proof (induction segs arbitrary: p)
  case (Cons seg segs)
  have d: "dir_flag s (p_dentry p)" using Cons.prems(2) by (auto split: if_splits)
  consider (stay) "seg = [] \<or> seg = [46]" | (up) "seg = [46, 46]" | (down) "\<not> (seg = [] \<or> seg = [46])" "seg \<noteq> [46, 46]" by blast
  then show ?case
  proof cases
    case stay
    then show ?thesis using Cons d fl by simp
  next
    case up
    have "up s p \<in> P" by (rule go_up_ok(2) [OF wf Cons.prems(1)])
    then show ?thesis using Cons d fl up enter_in(1) [OF wf] by simp
  next
    case down
    then obtain c where c: "child_named s (p_dentry p) seg = Some c" "walk s (enter s (p\<lparr>p_dentry := c\<rparr>)) segs = Some q"
      using Cons.prems(2) d by (auto split: option.splits)
    have m: "p\<lparr>p_dentry := c\<rparr> \<in> P" by (rule child_named_mem(1) [OF wf Cons.prems(1) c(1)])
    then have "walk s' (enter s (p\<lparr>p_dentry := c\<rparr>)) segs = Some q" using Cons.IH c(2) enter_in(1) [OF wf] by blast
    then show ?thesis using down d fl [OF Cons.prems(1)] fl [OF m] ch [OF Cons.prems(1) c(1)] by simp
  qed
qed simp

lemma up_cong:
  assumes wf: "vfs_wf C L P s" and p: "p \<in> P" and m: "mounts s' = mounts s" "root_mount s' = root_mount s"
    and par: "\<And>q. q \<in> P \<Longrightarrow> d_parent (dentries s' (p_dentry q)) = d_parent (dentries s (p_dentry q))"
  shows "up s' p = up s p"
proof (cases "d_parent (dentries s (p_dentry p)) = 0 \<and> p_mount p \<noteq> root_mount s")
  case True
  let ?q = "\<lparr>p_mount = m_parent (mounts s (p_mount p)), p_dentry = m_mountpoint (mounts s (p_mount p))\<rparr>"
  have "?q \<in> P" using path_okD(8) [OF vfs_wfD(9) [OF wf p]] True by blast
  from par [OF this] show ?thesis using True par [OF p] m by (simp add: up_def Let_def)
next
  case False
  then show ?thesis using par [OF p] m by (auto simp: up_def Let_def)
qed

lemma enter_cong:
  assumes "mounts s' = mounts s" and "filesystems s' = filesystems s" and "mount_hashtable s' = mount_hashtable s"
    and "mount_flag s' (p_dentry p) = mount_flag s (p_dentry p)"
  shows "enter s' p = enter s p"
  using assms get_mount_cong [OF assms(1,3)] MNT_ROOT_cong [OF assms(1,2)] by (simp add: enter_def)

lemma child_named_same_names:
  assumes wf: "vfs_wf C L P s" and same: "same_names P s s'" and p: "p \<in> P"
  shows "child_named s' (p_dentry p) seg = child_named s (p_dentry p) seg"
proof -
  have "dentries s' c = dentries s c" if "c \<in> set (d_list (dentries s (p_dentry p)))" for c
    using that same_names_sel(9) [OF same, of "p\<lparr>p_dentry := c\<rparr>"] path_okD(4,5) [OF vfs_wfD(9) [OF wf p]] by auto
  then show ?thesis unfolding child_named_def same_names_sel(9) [OF same p] by (intro find_cong) auto
qed

lemma walk_same_names:
  assumes wf: "vfs_wf C L P s" and same: "same_names P s s'" and p: "p \<in> P" "walk s p segs = Some q"
  shows "walk s' p segs = Some q"
proof (rule walk_transfer [OF wf _ _ p])
  fix r assume r: "r \<in> P"
  note sel = same_names_sel [OF same]
  show "dir_flag s' (p_dentry r) = dir_flag s (p_dentry r) \<and> enter s' r = enter s r \<and> up s' r = up s r"
    using same_names_flags [OF same r] enter_cong [OF sel(2-4)] up_cong [OF wf r sel(2,5)] sel(9) by simp
  show "child_named s' (p_dentry r) seg = Some c" if "child_named s (p_dentry r) seg = Some c" for seg c
    using that child_named_same_names [OF wf same r] by simp
qed

lemma walk_child_added:
  assumes wf: "vfs_wf C L P s" and w: "wd \<in> P" "w = p_dentry wd" and a: "child_added s s' w new i name" and nn: "child_named s w name = None"
    and p: "p \<in> P" "walk s p segs = Some q"
  shows "walk s' p segs = Some q"
proof (rule walk_transfer [OF wf _ _ p])
  fix r assume r: "r \<in> P"
  note D = child_addedD(15-18) [OF a] and old = child_added_old [OF wf w a]
  show "dir_flag s' (p_dentry r) = dir_flag s (p_dentry r) \<and> enter s' r = enter s r \<and> up s' r = up s r"
    using old(5,6) [OF r] enter_cong [OF D(1-3)] up_cong [OF wf r D(1,4)] old(3) by simp
  show "child_named s' (p_dentry r) seg = Some c" if c: "child_named s (p_dentry r) seg = Some c" for seg c
  proof -
    obtain k where k: "child_index name = Some k" using child_index_total by blast
    have nm: "d_name (dentries s' x) = d_name (dentries s x)" if "x \<in> set (d_list (dentries s (p_dentry r)))" for x
      using that old(4) [of "r\<lparr>p_dentry := x\<rparr>"] path_okD(4,5) [OF vfs_wfD(9) [OF wf r]] by auto
    then have f: "List.find (\<lambda>x. d_name (dentries s' x) = seg) (d_list (dentries s (p_dentry r))) = Some c"
      using c unfolding child_named_def by (subst find_cong [where Q = "\<lambda>x. d_name (dentries s x) = seg"]) auto
    show ?thesis
    proof (cases "p_dentry r = w")
      case True
      then have "seg \<noteq> name" using c nn by auto
      then show ?thesis using f True child_addedD(6) [OF a k] child_addedD(9) [OF a] by (simp add: child_named_def)
    qed (use f child_addedD(5) [OF a old(1) [OF r]] in \<open>simp add: child_named_def\<close>)
  qed
qed

lemma lookup_missing:
  assumes wf: "vfs_wf C L P s" and p: "p \<in> P" "dir_flag s (p_dentry p)" "\<not> mount_flag s (p_dentry p)"
    and n: "plain_name name" "unambiguous P s name" "child_named s (p_dentry p) name = None" and room: "cache_room (dentry_cache s) (v_heap s)"
  shows "\<exists>s'. vfs_lookup (Some p) name s = Some (s', None) \<and> vfs_wf C L P s' \<and> same_names P s s' \<and> miss_heap s = Some (v_heap s')"
proof -
  obtain s' where s': "ask_driver s p name = Some (s', p\<lparr>p_dentry := 0\<rparr>, False)" "vfs_wf C L P s'" "same_names P s s'" "miss_heap s = Some (v_heap s')"
    using ask_driver_ok [OF wf p(1,2) room] by blast
  have "lookup_segment s p name = Some (s', p\<lparr>p_dentry := 0\<rparr>, False)"
    using s'(1) n find_child_exact [OF wf p(1) n(2)] by (simp add: lookup_segment_def plain_name_def)
  then have "lookup_loop s p name False = Some (s', p\<lparr>p_dentry := 0\<rparr>)"
    using n(1) p(2,3) dentry_not_null [OF wf p(1)] by (subst lookup_loop.simps) (simp add: plain_name_def segment_plain Let_def)
  moreover have "(name \<noteq> [] \<and> hd name = DIRECTORY_SEPARATOR) = False" using path_segments_plain [OF n(1)] by (simp add: absolute_def)
  ultimately have "vfs_lookup (Some p) name s = Some (s', None)" by (simp only: vfs_lookup_def Let_def) simp
  then show ?thesis using s' by blast
qed

text \<open>There is memory for the lookup that precedes the creation and for the creation.\<close>

definition file_room :: "vfs \<Rightarrow> u32 \<Rightarrow> bool" where
  "file_room s mode = (case miss_heap s of None \<Rightarrow> False | Some h \<Rightarrow> create_room s mode h)"

lemma file_room_dentry:
  assumes wf: "vfs_wf C L P s" and "file_room s mode"
  shows "cache_room (dentry_cache s) (v_heap s)"
proof -
  have "\<exists>x. cache_alloc (dentry_cache s) (v_heap s) = Some x"
    using assms(2) by (auto simp: file_room_def miss_heap_def split: option.splits elim: bind_eq_SomeD)
  then show ?thesis using cache_alloc_needs [OF vfs_wfD(1,2) [OF wf]] by (auto simp: cache_room_def)
qed

text \<open>A directory in which a file of the given name can be made.\<close>

definition can_create :: "path set \<Rightarrow> vfs \<Rightarrow> path \<Rightarrow> u8 list \<Rightarrow> u32 \<Rightarrow> bool" where
  "can_create P s wd name mode = (dir_flag s (p_dentry wd) \<and> \<not> mount_flag s (p_dentry wd)
     \<and> in_ops (inodes s (d_inode (dentries s (p_dentry wd)))) = Ramfs_inode_ops
     \<and> plain_name name \<and> unambiguous P s name \<and> child_named s (p_dentry wd) name = None
     \<and> (S_ISREG mode \<or> S_ISDIR mode) \<and> global_ino_count s \<noteq> 0 \<and> file_room s mode)"

lemma vfs_create_at:
  assumes wf: "vfs_wf C L P s" and wd: "wd \<in> P" and can: "can_create P s wd name mode"
    and get: "get_path_wd start pth s = Some (s, Some (wd, name))" "pth \<noteq> []"
  shows "\<exists>s2 s' new i. vfs_create start pth mode s = Some (s', 0, Some (wd\<lparr>p_dentry := new\<rparr>)) \<and> vfs_wf C L P s2 \<and> same_names P s s2
    \<and> child_added s2 s' (p_dentry wd) new i name \<and> child_named s2 (p_dentry wd) name = None \<and> vfs_wf C L (with_child P (p_dentry wd) new) s'
    \<and> in_mode (inodes s' i) = mode \<and> (dir_flag s' new \<longleftrightarrow> \<not> S_ISREG mode)"
proof -
  let ?w = "p_dentry wd"
  note c = can [unfolded can_create_def]
  obtain h where mh: "miss_heap s = Some h" "create_room s mode h" using c by (auto simp: file_room_def split: option.splits)
  have rm: "cache_room (dentry_cache s) (v_heap s)" by (rule file_room_dentry [OF wf, of mode]) (use c in simp)
  obtain s2 where l: "vfs_lookup (Some wd) name s = Some (s2, None)" "vfs_wf C L P s2" "same_names P s s2" "v_heap s2 = h"
    using lookup_missing [OF wf wd _ _ _ _ _ rm] c mh(1) by auto
  note sel = same_names_sel [OF l(3)]
  have ng: "global_ino_count s2 = global_ino_count s" using l(3) by (auto simp: same_names_def)
  have room: "create_room s2 mode (v_heap s2)" using mh(2) l(4) by (simp add: create_room_def sel(6-8) cong: option.case_cong)
  have nn: "child_named s2 ?w name = None" using child_named_same_names [OF wf l(3) wd] c by simp
  have ops: "in_ops (inodes s2 (d_inode (dentries s2 ?w))) = Ramfs_inode_ops" using c by (simp add: sel(1) sel(9) [OF wd])
  have md: "S_ISREG mode \<or> S_ISDIR mode" and g0: "global_ino_count s2 \<noteq> 0" using c ng by simp_all
  from create_in_dir [OF l(2) wd ops nn md g0 room]
  obtain i s3 new s4 s' where m: "dentry_alloc name s2 = Some (s3, new)" "ops_create (d_inode (dentries s3 ?w)) new mode s3 = Some (s4, 0)"
    "validate_inode new s4 = Some ()" "dentry_activate new ?w s4 = Some s'" "child_added s2 s' ?w new i name" "heap_inv (v_heap s') C L"
    "in_mode (inodes s' i) = mode" "dir_flag s' new \<longleftrightarrow> \<not> S_ISREG mode"
    by blast
  have "vfs_wf C L (with_child P ?w new) s'" by (rule child_added_wf [OF l(2) wd refl m(5) nn m(6)])
  moreover have "vfs_create start pth mode s = Some (s', 0, Some (wd\<lparr>p_dentry := new\<rparr>))"
    using get l(1) m(1-4) by (simp add: vfs_create_def negative_def)
  ultimately show ?thesis using l(2,3) m(5,7,8) nn by blast
qed

lemma unambiguous_same_names:
  assumes wf: "vfs_wf C L P s" and same: "same_names P s s'" and un: "unambiguous P s seg"
  shows "unambiguous P s' seg"
  unfolding unambiguous_def
proof (intro ballI allI impI)
  fix p i c assume a: "p \<in> P" "child_index seg = Some i" "c \<in> set (d_tab (dentries s' (p_dentry p)) i)" "prefix_match seg (d_name (dentries s' c))"
  have c: "c \<in> set (d_tab (dentries s (p_dentry p)) i)" using a(1,3) same_names_sel(9) [OF same a(1)] by simp
  then have "dentries s' c = dentries s c"
    using same_names_sel(9) [OF same, of "p\<lparr>p_dentry := c\<rparr>"] path_okD(4) [OF vfs_wfD(9) [OF wf a(1)] c] by simp
  then show "d_name (dentries s' c) = seg" using un a c by (auto simp: unambiguous_def)
qed

text \<open>The new name does not make another name ambiguous unless it has it as a prefix.\<close>

lemma unambiguous_child_added:
  assumes wf: "vfs_wf C L P s" and w: "wd \<in> P" "w = p_dentry wd" and a: "child_added s s' w new i name"
    and un: "unambiguous P s seg" and pf: "prefix_match seg name \<Longrightarrow> seg = name"
  shows "unambiguous (with_child P w new) s' seg"
  unfolding unambiguous_def
proof (intro ballI allI impI)
  fix p j c assume p: "p \<in> with_child P w new" and j: "child_index seg = Some j" and c: "c \<in> set (d_tab (dentries s' (p_dentry p)) j)"
    and m: "prefix_match seg (d_name (dentries s' c))"
  obtain k where k: "child_index name = Some k" using child_index_total by blast
  have pP: "p \<in> P" using p c child_addedD(10) [OF a] by (auto simp: with_child_def)
  note old = child_added_old [OF wf w a]
  have "c = new \<or> c \<in> set (d_tab (dentries s (p_dentry p)) j)"
    using c child_addedD(5) [OF a old(1) [OF pP]] child_addedD(6) [OF a k] by (cases "p_dentry p = w") (auto split: if_splits)
  then show "d_name (dentries s' c) = seg"
  proof
    assume "c = new"
    then show ?thesis using m pf child_addedD(9) [OF a] by simp
  next
    assume d: "c \<in> set (d_tab (dentries s (p_dentry p)) j)"
    have "d_name (dentries s' c) = d_name (dentries s c)"
      using old(4) [of "p\<lparr>p_dentry := c\<rparr>"] path_okD(4) [OF vfs_wfD(9) [OF wf pP] d] by simp
    then show ?thesis using un pP j d m by (auto simp: unambiguous_def)
  qed
qed

section \<open>The root file system\<close>

definition boot_heap :: "vfs \<Rightarrow> heap option" where
  "boot_heap s = do {
     (h1, _) \<leftarrow> cache_alloc (fs_cache s) (v_heap s);
     (h2, _) \<leftarrow> cache_alloc (dentry_cache s) h1;
     (h3, _) \<leftarrow> cache_alloc (inode_cache s) h2;
     (h4, _) \<leftarrow> cache_alloc (mount_cache s) h3;
     Some h4 }"

definition boot_ok :: "u32 set \<Rightarrow> (nat \<times> nat) set \<Rightarrow> u8 list \<Rightarrow> vfs \<Rightarrow> bool" where
  "boot_ok C L name s = (heap_inv (v_heap s) C L \<and> {dentry_cache s, inode_cache s, record_cache s, fs_cache s, mount_cache s} \<subseteq> C
     \<and> distinct [dentry_cache s, inode_cache s, record_cache s, fs_cache s, mount_cache s]
     \<and> (case find_fs_type name s of None \<Rightarrow> False | Some ty \<Rightarrow> ty \<noteq> 0 \<and> ft_driver (type_descs s ty) = Ramfs_driver) \<and> boot_heap s \<noteq> None)"

lemma root_dir_mode [simp]: "\<not> S_ISREG (S_IFDIR OR 0x1ED)" "S_ISDIR (S_IFDIR OR 0x1ED)"
  by (simp_all add: S_ISREG_def S_ISDIR_def S_IFDIR_def S_IFREG_def S_IFMT_def)

lemma root_mount_ok:
  assumes b: "boot_ok C L name s"
  shows "\<exists>s'. vfs_root_mount name s = Some (s', False) \<and> vfs_wf C L {MNT_ROOT s' (root_mount s')} s'
    \<and> (let w = p_dentry (MNT_ROOT s' (root_mount s')) in dir_flag s' w \<and> \<not> mount_flag s' w \<and> d_list (dentries s' w) = []
      \<and> in_ops (inodes s' (d_inode (dentries s' w))) = Ramfs_inode_ops)
    \<and> global_ino_count s' = global_ino_count s + 1 \<and> boot_heap s = Some (v_heap s')
    \<and> dentry_cache s' = dentry_cache s \<and> inode_cache s' = inode_cache s \<and> record_cache s' = record_cache s"
proof -
  note b' = b [unfolded boot_ok_def]
  obtain ty where ty: "find_fs_type name s = Some ty" "ty \<noteq> 0" "ft_driver (type_descs s ty) = Ramfs_driver" using b' by (auto split: option.splits)
  obtain h1 f h2 d h3 i h4 m where a: "cache_alloc (fs_cache s) (v_heap s) = Some (h1, f)" "cache_alloc (dentry_cache s) h1 = Some (h2, d)"
    "cache_alloc (inode_cache s) h2 = Some (h3, i)" "cache_alloc (mount_cache s) h3 = Some (h4, m)"
    using b' by (auto simp: boot_heap_def split: Option.bind_splits)
  have C: "heap_inv (v_heap s) C L" "fs_cache s \<in> C" "dentry_cache s \<in> C" "inode_cache s \<in> C" "mount_cache s \<in> C" "record_cache s \<in> C" using b' by auto
  note A1 = cache_alloc_new [OF C(1,2) a(1)]
  note A2 = cache_alloc_new [OF A1(1) C(3) a(2)]
  note A3 = cache_alloc_new [OF A2(1) C(4) a(3)]
  note A4 = cache_alloc_new [OF A3(1) C(5) a(4)]
  have o: "d \<in> objs h4 (dentry_cache s)" "i \<in> objs h4 (inode_cache s)"
    using A2(3) A3(3) A3(4) [OF C(3)] A4(4) [OF C(3)] A4(4) [OF C(4)] b' by auto
  let ?s1 = "upd_fs f (\<lambda>x. x\<lparr>fs_type := ty\<rparr>) (s\<lparr>v_heap := h1\<rparr>)"
  have "\<exists>s4. vfs_fs_create name s = Some (s4, f) \<and> v_heap s4 = h3 \<and> fs_root (filesystems s4 f) = d \<and> d_inode (dentries s4 d) = i
      \<and> d_parent (dentries s4 d) = 0 \<and> d_tab (dentries s4 d) = (\<lambda>_. []) \<and> d_list (dentries s4 d) = []
      \<and> in_ops (inodes s4 i) = Ramfs_inode_ops \<and> in_flags (inodes s4 i) = INODE_FLAG_DIRECTORY
      \<and> dentry_cache s4 = dentry_cache s \<and> inode_cache s4 = inode_cache s \<and> record_cache s4 = record_cache s \<and> mount_cache s4 = mount_cache s
      \<and> global_ino_count s4 = global_ino_count s + 1"
    using ty a(1-3) A1(5) A2(5)
    by (simp add: vfs_fs_create_def type_create_def fs_create_nodev_def fs_alloc_def v_alloc_def ramfs_fill_def dentry_alloc_def
        ramfs_create_internal_def inode_alloc_def upd_fs_def upd_dentry_def upd_inode_def upd_type_def fs_add_def Let_def)
  then obtain s4 where s4: "vfs_fs_create name s = Some (s4, f)" "v_heap s4 = h3" "fs_root (filesystems s4 f) = d" "d_inode (dentries s4 d) = i"
      "d_parent (dentries s4 d) = 0" "d_tab (dentries s4 d) = (\<lambda>_. [])" "d_list (dentries s4 d) = []"
      "in_ops (inodes s4 i) = Ramfs_inode_ops" "in_flags (inodes s4 i) = INODE_FLAG_DIRECTORY"
      "dentry_cache s4 = dentry_cache s" "inode_cache s4 = inode_cache s" "record_cache s4 = record_cache s" "mount_cache s4 = mount_cache s"
      "global_ino_count s4 = global_ino_count s + 1"
    by blast
  let ?s' = "upd_mount m (\<lambda>_. \<lparr>m_parent = 0, m_fs = f, m_mountpoint = 0\<rparr>) (s4\<lparr>v_heap := h4\<rparr>)\<lparr>root_mount := m\<rparr>"
  have r: "vfs_root_mount name s = Some (?s', False)"
    using s4(1,2,13) a(4) A1(5) A4(5) by (simp add: vfs_root_mount_def mount_alloc_def v_alloc_def)
  have root: "MNT_ROOT ?s' (root_mount ?s') = \<lparr>p_mount = m, p_dentry = d\<rparr>" using s4(3) by (simp add: MNT_ROOT_def upd_mount_def)
  have fl: "dir_flag ?s' d" "\<not> mount_flag ?s' d"
    using s4(4,9) by (simp_all add: dir_flag_def mount_flag_def upd_mount_def INODE_FLAG_DIRECTORY_def INODE_FLAG_MOUNTPOINT_def)
  have "vfs_wf C L {MNT_ROOT ?s' (root_mount ?s')} ?s'"
    unfolding root vfs_wf_def using A4(1) C b' s4 o fl by (simp add: path_ok_def Let_def root) (simp add: upd_mount_def)
  moreover have "d_list (dentries ?s' d) = []" "in_ops (inodes ?s' (d_inode (dentries ?s' d))) = Ramfs_inode_ops" "global_ino_count ?s' = global_ino_count s + 1"
    "boot_heap s = Some (v_heap ?s')" "dentry_cache ?s' = dentry_cache s" "inode_cache ?s' = inode_cache s" "record_cache ?s' = record_cache s"
    using s4 a by (simp_all add: upd_mount_def boot_heap_def)
  ultimately have "vfs_root_mount name s = Some (?s', False) \<and> vfs_wf C L {MNT_ROOT ?s' (root_mount ?s')} ?s'
    \<and> (let w = p_dentry (MNT_ROOT ?s' (root_mount ?s')) in dir_flag ?s' w \<and> \<not> mount_flag ?s' w \<and> d_list (dentries ?s' w) = []
      \<and> in_ops (inodes ?s' (d_inode (dentries ?s' w))) = Ramfs_inode_ops)
    \<and> global_ino_count ?s' = global_ino_count s + 1 \<and> boot_heap s = Some (v_heap ?s')
    \<and> dentry_cache ?s' = dentry_cache s \<and> inode_cache ?s' = inode_cache s \<and> record_cache ?s' = record_cache s"
    using r fl unfolding root Let_def by simp
  then show ?thesis by blast
qed


text \<open>A machine at the start: the RAM file system is registered, nothing is mounted.\<close>

definition ramfs_name :: "u8 list" where
  "ramfs_name = [0x72, 0x61, 0x6D, 0x66, 0x73]"

definition start_vfs :: vfs where
  "start_vfs = (let d0 = \<lparr>d_fs = 0, d_name = [], d_flags = 0, d_inode = 0, d_parent = 0, d_tab = (\<lambda>_. []), d_list = []\<rparr>;
      i0 = \<lparr>in_fs = 0, in_ops = Ramfs_inode_ops, in_flags = 0, in_dev = 0, in_ino = 0, in_mode = 0, in_nlink = 0, in_uid = 0, in_gid = 0,
        in_rdev = 0, in_size = 0, in_atime = 0, in_mtime = 0, in_ctime = 0, in_blkshift = 0, in_blocks = 0, in_private = 0\<rparr>
    in \<lparr>v_heap = small_heap, dentries = (\<lambda>_. d0), inodes = (\<lambda>_. i0), mounts = (\<lambda>_. \<lparr>m_parent = 0, m_fs = 0, m_mountpoint = 0\<rparr>),
      filesystems = (\<lambda>_. \<lparr>fs_type = 0, fs_root = 0\<rparr>), type_descs = (\<lambda>_. \<lparr>ft_name = ramfs_name, ft_driver = Ramfs_driver, ft_instances = []\<rparr>),
      records = (\<lambda>_. record_create), devices = (\<lambda>_. \<lparr>dv_name = [], dv_dentry = 0, dv_type = CHAR_DEV, dv_dev = 0\<rparr>),
      fs_types = (\<lambda>_. [64]), mount_hashtable = (\<lambda>_. []), root_mount = 0, global_ino_count = 1,
      dentry_cache = 9, inode_cache = 10, fs_cache = 11, mount_cache = 7, record_cache = 8,
      devfs_fs = 0, devfs_pending = [], devfs_devices = []\<rparr>)"

lemma start_sel:
  "v_heap start_vfs = small_heap" "dentry_cache start_vfs = 9" "inode_cache start_vfs = 10" "record_cache start_vfs = 8"
  "fs_cache start_vfs = 11" "mount_cache start_vfs = 7" "global_ino_count start_vfs = 1"
  by (simp_all add: start_vfs_def Let_def)

lemma boot_plenty:
  assumes "heap_inv (v_heap s) C L" and "{dentry_cache s, inode_cache s, fs_cache s, mount_cache s} \<subseteq> C" and "plenty (Suc (Suc (Suc (Suc n)))) (v_heap s)"
  shows "\<exists>h. boot_heap s = Some h \<and> plenty n h"
proof -
  have C: "fs_cache s \<in> C" "dentry_cache s \<in> C" "inode_cache s \<in> C" "mount_cache s \<in> C" using assms(2) by auto
  obtain h1 f where a1: "cache_alloc (fs_cache s) (v_heap s) = Some (h1, f)" "plenty (Suc (Suc (Suc n))) h1" using alloc_plenty [OF assms(1) C(1) assms(3)] by blast
  note i1 = cache_alloc_new(1) [OF assms(1) C(1) a1(1)]
  obtain h2 d where a2: "cache_alloc (dentry_cache s) h1 = Some (h2, d)" "plenty (Suc (Suc n)) h2" using alloc_plenty [OF i1 C(2) a1(2)] by blast
  note i2 = cache_alloc_new(1) [OF i1 C(2) a2(1)]
  obtain h3 i where a3: "cache_alloc (inode_cache s) h2 = Some (h3, i)" "plenty (Suc n) h3" using alloc_plenty [OF i2 C(3) a2(2)] by blast
  note i3 = cache_alloc_new(1) [OF i2 C(3) a3(1)]
  obtain h4 m where "cache_alloc (mount_cache s) h3 = Some (h4, m)" "plenty n h4" using alloc_plenty [OF i3 C(4) a3(2)] by blast
  then show ?thesis using a1 a2 a3 by (simp add: boot_heap_def)
qed

lemma file_plenty:
  assumes wf: "vfs_wf C L P s" and p: "plenty 4 (v_heap s)"
  shows "file_room s mode"
proof -
  note D = vfs_wfD(1-4) [OF wf]
  have p': "plenty (Suc (Suc (Suc (Suc 0)))) (v_heap s)" using p by (simp add: eval_nat_numeral)
  obtain h1 d where a1: "cache_alloc (dentry_cache s) (v_heap s) = Some (h1, d)" "plenty (Suc (Suc (Suc 0))) h1" using alloc_plenty [OF D(1,2) p'] by blast
  note n1 = cache_alloc_new [OF D(1,2) a1(1)]
  obtain h2 where a2: "cache_free (dentry_cache s) d h1 = Some h2" "heap_inv h2 C L" "plenty (Suc (Suc (Suc 0))) h2"
    using free_plenty [OF n1(1) D(2), of d] n1(3) a1(2) by blast
  obtain h3 d' where a3: "cache_alloc (dentry_cache s) h2 = Some (h3, d')" "plenty (Suc (Suc 0)) h3" using alloc_plenty [OF a2(2) D(2) a2(3)] by blast
  note i3 = cache_alloc_new(1) [OF a2(2) D(2) a3(1)]
  obtain h4 i where a4: "cache_alloc (inode_cache s) h3 = Some (h4, i)" "plenty (Suc 0) h4" using alloc_plenty [OF i3 D(3) a3(2)] by blast
  note i4 = cache_alloc_new(1) [OF i3 D(3) a4(1)]
  obtain h5 r where "cache_alloc (record_cache s) h4 = Some (h5, r)" using alloc_plenty [OF i4 D(4) a4(2)] by blast
  then show ?thesis using a1 a2 a3 a4 by (simp add: file_room_def miss_heap_def create_room_def)
qed

lemma start_ok: "boot_ok (set [3, 4, 5, 6, 7, 8, 9, 10, 11]) {} ramfs_name start_vfs"
proof -
  obtain h where "boot_heap start_vfs = Some h"
    using boot_plenty [of start_vfs "set [3, 4, 5, 6, 7, 8, 9, 10, 11]" "{}" 4] small_heap_inv small_heap_plenty
    by (auto simp: start_sel eval_nat_numeral)
  moreover obtain i where i: "type_index ramfs_name = Some i"
    using hashtable_index_pow2 [of 4 "str_to_key ramfs_name (length ramfs_name)"]
    by (auto simp: type_index_def table_sizes)
  have "find_fs_type ramfs_name start_vfs = Some 64"
    by (simp add: find_fs_type_def i first_or_null_def) (simp add: start_vfs_def Let_def)
  moreover have "ft_driver (type_descs start_vfs 64) = Ramfs_driver" by (simp add: start_vfs_def Let_def)
  ultimately show ?thesis using small_heap_inv \<open>find_fs_type ramfs_name start_vfs = Some 64\<close> by (simp add: boot_ok_def start_sel)
qed

text \<open>
  C15: Mounting the root file system at start-up returns when the caches have a file system, a dentry, an
  inode and a mount to give; the name space it leaves is well formed and consists of an empty directory
  of the RAM file system.
\<close>

theorem root_mount_well_formed:
  assumes "boot_ok C L name s"
  shows "\<exists>s'. vfs_root_mount name s = Some (s', False) \<and> vfs_wf C L {MNT_ROOT s' (root_mount s')} s'
    \<and> dir_flag s' (p_dentry (MNT_ROOT s' (root_mount s'))) \<and> d_list (dentries s' (p_dentry (MNT_ROOT s' (root_mount s')))) = []"
  using root_mount_ok [OF assms] unfolding Let_def by blast

theorem root_mount_well_formed_witness: "\<exists>s'. vfs_root_mount ramfs_name start_vfs = Some (s', False) \<and> vfs_wf (set [3, 4, 5, 6, 7, 8, 9, 10, 11]) {} {MNT_ROOT s' (root_mount s')} s'"
  using root_mount_well_formed [OF start_ok] by blast


lemma root_plain:
  assumes "vfs_root_mount ramfs_name start_vfs = Some (s, False)"
  shows "plenty 4 (v_heap s)" and "global_ino_count s = 2"
    and "vfs_wf (set [3, 4, 5, 6, 7, 8, 9, 10, 11]) {} {MNT_ROOT s (root_mount s)} s"
    and "dir_flag s (p_dentry (MNT_ROOT s (root_mount s)))" and "\<not> mount_flag s (p_dentry (MNT_ROOT s (root_mount s)))"
    and "in_ops (inodes s (d_inode (dentries s (p_dentry (MNT_ROOT s (root_mount s)))))) = Ramfs_inode_ops"
    and "d_list (dentries s (p_dentry (MNT_ROOT s (root_mount s)))) = []" and "unambiguous {MNT_ROOT s (root_mount s)} s seg"
proof -
  note r = root_mount_ok [OF start_ok, unfolded assms Let_def, simplified]
  obtain h where "boot_heap start_vfs = Some h" "plenty 4 h"
    using boot_plenty [of start_vfs "set [3, 4, 5, 6, 7, 8, 9, 10, 11]" "{}" 4] small_heap_inv small_heap_plenty
    by (auto simp: start_sel eval_nat_numeral)
  then show "plenty 4 (v_heap s)" using r by simp
  show "global_ino_count s = 2" using r by (simp add: start_sel)
  show wf: "vfs_wf (set [3, 4, 5, 6, 7, 8, 9, 10, 11]) {} {MNT_ROOT s (root_mount s)} s" using r by simp
  show "dir_flag s (p_dentry (MNT_ROOT s (root_mount s)))" "\<not> mount_flag s (p_dentry (MNT_ROOT s (root_mount s)))"
    "in_ops (inodes s (d_inode (dentries s (p_dentry (MNT_ROOT s (root_mount s)))))) = Ramfs_inode_ops"
    and l: "d_list (dentries s (p_dentry (MNT_ROOT s (root_mount s)))) = []" using r by simp_all
  show "unambiguous {MNT_ROOT s (root_mount s)} s seg"
    using path_okD(5) [OF vfs_wfD(9) [OF wf]] l by (auto simp: unambiguous_def)
qed



lemma root_can_create:
  assumes "vfs_root_mount ramfs_name start_vfs = Some (s, False)" and "plain_name name"
  shows "can_create {MNT_ROOT s (root_mount s)} s (MNT_ROOT s (root_mount s)) name 0x81ED"
  using root_plain [OF assms(1)] assms(2) file_plenty [OF root_plain(3) [OF assms(1)] root_plain(1) [OF assms(1)]]
  by (simp add: can_create_def child_named_def S_ISREG_def S_IFREG_def S_IFMT_def)


lemma lookup_first_match:
  assumes wf: "vfs_wf C L P s" and p: "p \<in> P" "dir_flag s (p_dentry p)" "\<not> mount_flag s (p_dentry p)" and pl: "plain_name seg"
    and f: "find_child_dentry s (p_dentry p) seg = Some (Some c)" and c: "c \<in> set (d_list (dentries s (p_dentry p)))"
  shows "vfs_lookup (Some p) seg s = Some (s, Some (enter s (p\<lparr>p_dentry := c\<rparr>)))"
proof -
  have m: "p\<lparr>p_dentry := c\<rparr> \<in> P" using path_okD(4,5) [OF vfs_wfD(9) [OF wf p(1)]] c by blast
  have "lookup_segment s p seg = Some (s, p\<lparr>p_dentry := c\<rparr>, True)" using f pl by (simp add: lookup_segment_def plain_name_def)
  then have l: "lookup_loop s p seg False = Some (s, p\<lparr>p_dentry := c\<rparr>)"
    using pl p(2,3) dentry_not_null [OF wf p(1)] by (subst lookup_loop.simps) (simp add: plain_name_def segment_plain Let_def lookup_loop_done)
  have "(seg \<noteq> [] \<and> hd seg = DIRECTORY_SEPARATOR) = False" using path_segments_plain [OF pl] by (simp add: absolute_def)
  then show ?thesis using l dentry_not_null [OF wf m] path_okD(9) [OF vfs_wfD(9) [OF wf m]]
    by (simp only: vfs_lookup_def Let_def) (auto simp: enter_def)
qed

text \<open>
  C16: The search for a child compares only as many bytes as the segment has. Where a longer name hashes to
  the bucket of one of its prefixes, the prefix is found although no child has that name, and
  creating a file of that name fails with \<^verbatim>\<open>EEXIST\<close> and the path of the other file.
\<close>

theorem longer_name_answers_to_prefix:
  assumes wf: "vfs_wf C L P s" and p: "p \<in> P" "dir_flag s (p_dentry p)" "\<not> mount_flag s (p_dentry p)" and pl: "plain_name seg"
    and c: "child_index seg = Some i" "d_tab (dentries s (p_dentry p)) i = c # cs" "d_name (dentries s c) = seg @ rest"
  shows "vfs_lookup (Some p) seg s = Some (s, Some (enter s (p\<lparr>p_dentry := c\<rparr>)))
    \<and> vfs_create p seg mode s = Some (s, - EEXIST, Some (enter s (p\<lparr>p_dentry := c\<rparr>)))"
proof -
  have "c \<in> set (d_list (dentries s (p_dentry p)))" using path_okD(5) [OF vfs_wfD(9) [OF wf p(1)]] c(2) by (auto intro: exI [of _ i])
  moreover have "find_child_dentry s (p_dentry p) seg = Some (Some c)" using c by (simp add: find_child_dentry_def prefix_match_def)
  ultimately have l: "vfs_lookup (Some p) seg s = Some (s, Some (enter s (p\<lparr>p_dentry := c\<rparr>)))" using lookup_first_match [OF wf p pl] by blast
  moreover have "get_path_wd p seg s = Some (s, Some (p, seg))" using last_segment_plain [OF pl] by (simp add: get_path_wd_def)
  moreover have "seg \<noteq> []" using pl by (simp add: plain_name_def)
  ultimately show ?thesis by (simp add: vfs_create_def)
qed

definition host :: "u8 list" where "host = [0x68, 0x6F, 0x73, 0x74]"
definition hostname :: "u8 list" where "hostname = [0x68, 0x6F, 0x73, 0x74, 0x6E, 0x61, 0x6D, 0x65]"

lemma host_bucket: "child_index host = Some 5" "child_index hostname = Some 5"
  by code_simp+

theorem longer_name_answers_to_prefix_witness:
  "\<exists>s s' p. vfs_root_mount ramfs_name start_vfs = Some (s, False) \<and> vfs_create (MNT_ROOT s (root_mount s)) hostname 0x81ED s = Some (s', 0, Some p)
    \<and> vfs_lookup (Some (MNT_ROOT s (root_mount s))) host s' = Some (s', Some p)"
proof -
  obtain s where s: "vfs_root_mount ramfs_name start_vfs = Some (s, False)" using root_mount_ok [OF start_ok] by blast
  let ?p = "MNT_ROOT s (root_mount s)"
  note r = root_plain [OF s]
  have pl: "plain_name hostname" "plain_name host" by (simp_all add: plain_name_def hostname_def host_def DIRECTORY_SEPARATOR_def)
  have g: "get_path_wd ?p hostname s = Some (s, Some (?p, hostname))" using last_segment_plain [OF pl(1)] by (simp add: get_path_wd_def)
  obtain s2 s' new i where c: "vfs_create ?p hostname 0x81ED s = Some (s', 0, Some (?p\<lparr>p_dentry := new\<rparr>))" "vfs_wf (set [3, 4, 5, 6, 7, 8, 9, 10, 11]) {} {?p} s2"
    "same_names {?p} s s2" "child_added s2 s' (p_dentry ?p) new i hostname" "vfs_wf (set [3, 4, 5, 6, 7, 8, 9, 10, 11]) {} (with_child {?p} (p_dentry ?p) new) s'"
    using vfs_create_at [OF r(3) _ root_can_create [OF s pl(1)] g] pl(1) by (auto simp: plain_name_def)
  have pc: "?p \<in> with_child {?p} (p_dentry ?p) new" by (simp add: with_child_def)
  have fl: "dir_flag s' (p_dentry ?p)" "\<not> mount_flag s' (p_dentry ?p)"
    using child_added_old(5,6) [OF c(2) _ refl c(4), of ?p] same_names_flags [OF c(3), of ?p] r(4,5) by auto
  note D = child_addedD [OF c(4)]
  have t: "d_tab (dentries s' (p_dentry ?p)) 5 = new # d_tab (dentries s2 (p_dentry ?p)) 5" using D(6) [OF host_bucket(2)] by simp
  have "d_name (dentries s' new) = host @ [0x6E, 0x61, 0x6D, 0x65]" using D(9) by (simp add: host_def hostname_def)
  from longer_name_answers_to_prefix [OF c(5) pc fl pl(2) host_bucket(1) t this] show ?thesis using s c(1) D(13) by auto
qed

text \<open>
  C17: A path name of one segment with a leading separator is created in the starting directory and not in
  the root: the part before the last separator is empty, and the empty path name is the starting
  directory.
\<close>

theorem absolute_create_uses_start:
  assumes wf: "vfs_wf C L P s" and st: "start \<in> P" and can: "can_create P s start name mode"
  shows "\<exists>s' new. vfs_create start (DIRECTORY_SEPARATOR # name) mode s = Some (s', 0, Some (start\<lparr>p_dentry := new\<rparr>))
    \<and> d_parent (dentries s' new) = p_dentry start \<and> d_name (dentries s' new) = name"
proof -
  have pl: "plain_name name" "\<not> mount_flag s (p_dentry start)" using can by (simp_all add: can_create_def)
  have "vfs_lookup (Some start) [] s = Some (s, Some start)"
    using pl(2) dentry_not_null [OF wf st] by (simp add: vfs_lookup_def lookup_loop_done)
  then have g: "get_path_wd start (DIRECTORY_SEPARATOR # name) s = Some (s, Some (start, name))"
    using last_segment_sep [OF pl(1), of "[]"] by (simp add: get_path_wd_def Let_def)
  show ?thesis using vfs_create_at [OF wf st can g] child_addedD(8,9) by blast
qed

theorem absolute_create_uses_start_witness:
  "\<exists>s s' p. vfs_root_mount ramfs_name start_vfs = Some (s, False) \<and> vfs_create (MNT_ROOT s (root_mount s)) (DIRECTORY_SEPARATOR # host) 0x81ED s = Some (s', 0, Some p)"
proof -
  obtain s where s: "vfs_root_mount ramfs_name start_vfs = Some (s, False)" using root_mount_ok [OF start_ok] by blast
  have pl: "plain_name host" by (simp add: plain_name_def host_def DIRECTORY_SEPARATOR_def)
  show ?thesis using s absolute_create_uses_start [OF root_plain(3) [OF s] _ root_can_create [OF s pl]] by blast
qed

end
