(* ===== verification/Console.thy ===== *)
theory Console
  imports String_Lib Boot_Memory
begin

text \<open>
  The text console of \<^verbatim>\<open>driver/console/vram.c\<close>: the cursor, the interpretation of characters and
  escape sequences, scrolling, and the cursor registers of the video controller. The video memory and
  the buffer of an escape sequence lie in the flat byte memory of \<^theory_text>\<open>String_Lib\<close>. Shown: as long as no
  sequence moves the cursor down or forward, a write has exactly the effect of an abstract terminal of
  25 rows of 80 cells, changes no other memory and leaves the hardware cursor where the next character
  goes.
\<close>

section \<open>Data\<close>

definition CONSOLE_WIDTH :: u32 where "CONSOLE_WIDTH = 80"
definition CONSOLE_HEIGHT :: u32 where "CONSOLE_HEIGHT = 25"
definition TABSTOP_WIDTH :: u32 where "TABSTOP_WIDTH = 8"
definition ESCSEQ_BUFF_SIZE :: u32 where "ESCSEQ_BUFF_SIZE = 128"

definition CSI_SINGLE :: u8 where "CSI_SINGLE = 0x9B"
definition CSI_DOUBLE_PARTA :: u8 where "CSI_DOUBLE_PARTA = 0x1B"
definition CSI_DOUBLE_PARTB :: u8 where "CSI_DOUBLE_PARTB = 0x5B"

definition ASCII_BELL :: u8 where "ASCII_BELL = 7"
definition ASCII_BACKSPACE :: u8 where "ASCII_BACKSPACE = 8"
definition ASCII_TAB :: u8 where "ASCII_TAB = 9"

definition PORTOFF_ADDR :: u16 where "PORTOFF_ADDR = 0"
definition PORTOFF_DATA :: u16 where "PORTOFF_DATA = 1"

definition REG_CURSOR_START :: u8 where "REG_CURSOR_START = 0x0A"
definition REG_CURSOR_END :: u8 where "REG_CURSOR_END = 0x0B"
definition REG_CURSOR_HI :: u8 where "REG_CURSOR_HI = 0x0E"
definition REG_CURSOR_LO :: u8 where "REG_CURSOR_LO = 0x0F"

datatype term_state = TERM_NORMAL | TERM_ESCSEQ | TERM_EXPECT_CSI_PARTB

text \<open>
  The last three fields are the hardware behind the ports: the register the video controller has
  selected, its registers, and how often the speaker was started.
\<close>

record console =
  con_port :: u16
  con_vram :: u32
  con_row :: u32
  con_col :: u32
  con_color :: u8
  con_state :: term_state
  escseq_buff :: u32
  escseq_buff_front :: u32
  con_lockup :: bool
  crtc_sel :: u8
  crtc_regs :: "u8 \<Rightarrow> u8"
  con_beeps :: nat

section \<open>The cursor registers\<close>

text \<open>
  The controller answers at two ports: the number written to the first selects the register that
  reads and writes of the second access.
\<close>

definition outb :: "u16 \<Rightarrow> u8 \<Rightarrow> console \<Rightarrow> console" where
  "outb p v con =
     (if p = con_port con then con\<lparr>crtc_sel := v\<rparr>
      else if p = con_port con + 1 then con\<lparr>crtc_regs := (crtc_regs con)(crtc_sel con := v)\<rparr>
      else con)"

definition inb :: "u16 \<Rightarrow> console \<Rightarrow> u8" where
  "inb p con = (if p = con_port con then crtc_sel con else crtc_regs con (crtc_sel con))"

definition select_reg :: "u8 \<Rightarrow> console \<Rightarrow> console" where
  "select_reg reg con = outb (con_port con + PORTOFF_ADDR) reg con"

definition get_val :: "console \<Rightarrow> u8" where
  "get_val con = inb (con_port con + PORTOFF_DATA) con"

definition put_val :: "u8 \<Rightarrow> console \<Rightarrow> console" where
  "put_val v con = outb (con_port con + PORTOFF_DATA) v con"

definition set_reg :: "u8 \<Rightarrow> u8 \<Rightarrow> console \<Rightarrow> console" where
  "set_reg reg v con = put_val v (select_reg reg con)"

definition set_reg_bits :: "u8 \<Rightarrow> u8 \<Rightarrow> u8 \<Rightarrow> console \<Rightarrow> console" where
  "set_reg_bits reg msk v con =
     (let con1 = select_reg reg con; prev = (if msk \<noteq> 0xFF then get_val con1 else 0)
      in put_val ((prev AND NOT msk) OR (v AND msk)) con1)"

definition CURSOR_BLINK_SLOW :: u8 where "CURSOR_BLINK_SLOW = 0x40"
definition CURSOR_BLINK_FAST :: u8 where "CURSOR_BLINK_FAST = 0x40"

definition cursor_enable :: "u8 \<Rightarrow> u8 \<Rightarrow> u8 \<Rightarrow> console \<Rightarrow> console" where
  "cursor_enable top_scanline bot_scanline blink con =
     set_reg_bits REG_CURSOR_END 0x1F (bot_scanline AND 0x1F)
       (set_reg_bits REG_CURSOR_START 0x7F ((top_scanline AND 0x1F) OR (blink AND 0x60)) con)"

definition do_refresh_cursor :: "console \<Rightarrow> console" where
  "do_refresh_cursor con =
     (let pos = ucast (con_row con * CONSOLE_WIDTH + con_col con) :: u16
      in set_reg_bits REG_CURSOR_HI 0x3F (ucast (drop_bit 8 pos AND 0xFF))
           (set_reg_bits REG_CURSOR_LO 0xFF (ucast (pos AND 0xFF)) con))"

section \<open>Writing to the video memory\<close>

definition vram_put :: "console \<Rightarrow> u32 \<Rightarrow> u8 \<Rightarrow> byte_mem \<Rightarrow> byte_mem" where
  "vram_put con i v m = m(con_vram con + i := v)"

text \<open>The loops that blank \<open>n\<close> cells from the byte offset \<open>off\<close> on.\<close>

fun blank_loop :: "console \<Rightarrow> u32 \<Rightarrow> u32 \<Rightarrow> nat \<Rightarrow> byte_mem \<Rightarrow> byte_mem" where
  "blank_loop con off i 0 m = m"
| "blank_loop con off i (Suc n) m =
     blank_loop con off (i + 1) n
       (vram_put con (off + (i * 2 + 1)) (con_color con) (vram_put con (off + i * 2) 32 m))"

definition do_clear :: "console \<Rightarrow> byte_mem \<Rightarrow> console \<times> byte_mem" where
  "do_clear con m =
     (let con1 = con\<lparr>con_row := 0, con_col := 0\<rparr>
      in (do_refresh_cursor con1, blank_loop con1 0 0 (unat (CONSOLE_WIDTH * CONSOLE_HEIGHT)) m))"

function erase_row :: "bool \<Rightarrow> console \<Rightarrow> int \<Rightarrow> int \<Rightarrow> byte_mem \<Rightarrow> byte_mem" where
  "erase_row to_end con r c m =
     (if 0 \<le> c \<and> c < 80
      then erase_row to_end con r (c + (if to_end then 1 else - 1))
             (vram_put con (word_of_int ((r * 80 + c) * 2 + 1)) (con_color con)
               (vram_put con (word_of_int ((r * 80 + c) * 2)) 32 m))
      else m)"
  by pat_completeness auto
termination
  by (relation "measure (\<lambda>(to_end, con, r, c, m). nat (if to_end then 80 - c else c + 1))") auto

function erase_loop :: "bool \<Rightarrow> console \<Rightarrow> int \<Rightarrow> int \<Rightarrow> byte_mem \<Rightarrow> byte_mem" where
  "erase_loop to_end con r c m =
     (if 0 \<le> r \<and> r < 25
      then erase_loop to_end con (r + (if to_end then 1 else - 1)) (if to_end then 0 else 79)
             (erase_row to_end con r c m)
      else m)"
  by pat_completeness auto
termination
  by (relation "measure (\<lambda>(to_end, con, r, c, m). nat (if to_end then 25 - r else r + 1))") auto

definition do_erase :: "bool \<Rightarrow> console \<Rightarrow> byte_mem \<Rightarrow> byte_mem" where
  "do_erase to_end con m = erase_loop to_end con (sint (con_row con)) (sint (con_col con)) m"

section \<open>Moving the cursor\<close>

definition cursor_up :: "u32 \<Rightarrow> console \<Rightarrow> console" where
  "cursor_up amt con = do_refresh_cursor (con\<lparr>con_row := con_row con - MIN_u (con_row con) amt\<rparr>)"

definition cursor_down :: "u32 \<Rightarrow> console \<Rightarrow> console" where
  "cursor_down amt con = do_refresh_cursor (con\<lparr>con_row := con_row con + MAX_u (CONSOLE_HEIGHT - con_row con) amt\<rparr>)"

definition cursor_forward :: "u32 \<Rightarrow> console \<Rightarrow> console" where
  "cursor_forward amt con = do_refresh_cursor (con\<lparr>con_col := con_col con + MAX_u (CONSOLE_WIDTH - con_col con) amt\<rparr>)"

definition cursor_back :: "u32 \<Rightarrow> console \<Rightarrow> console" where
  "cursor_back amt con = do_refresh_cursor (con\<lparr>con_col := con_col con - MIN_u (con_col con) amt\<rparr>)"

definition cursor_position :: "u32 \<Rightarrow> u32 \<Rightarrow> console \<Rightarrow> console" where
  "cursor_position r c con =
     (let r1 = (if r > 0 then r - 1 else r); c1 = (if c > 0 then c - 1 else c)
      in do_refresh_cursor (con\<lparr>con_row := MIN_u r1 (CONSOLE_HEIGHT - 1), con_col := MIN_u c1 (CONSOLE_WIDTH - 1)\<rparr>))"

definition vram_color :: "u8 \<Rightarrow> console \<Rightarrow> console" where
  "vram_color c con = con\<lparr>con_color := c\<rparr>"

definition vram_clear :: "console \<Rightarrow> byte_mem \<Rightarrow> console \<times> byte_mem" where
  "vram_clear con m = do_clear con m"

section \<open>Characters\<close>

definition fix_pos_overflow :: "console \<Rightarrow> byte_mem \<Rightarrow> console \<times> byte_mem" where
  "fix_pos_overflow con m =
     (let con1 = (if con_col con = CONSOLE_WIDTH then con\<lparr>con_col := 0, con_row := con_row con + 1\<rparr> else con)
      in if con_row con1 = CONSOLE_HEIGHT
         then let m1 = memmove (con_vram con1) (con_vram con1 + CONSOLE_WIDTH * 2) ((CONSOLE_HEIGHT - 1) * CONSOLE_WIDTH * 2) m
              in (con1\<lparr>con_row := CONSOLE_HEIGHT - 1\<rparr>,
                  blank_loop con1 ((CONSOLE_HEIGHT - 1) * CONSOLE_WIDTH * 2) 0 (unat CONSOLE_WIDTH) m1)
         else (con1, m))"

definition beep :: "console \<Rightarrow> console" where
  "beep con = con\<lparr>con_beeps := con_beeps con + 1\<rparr>"

function tab_loop :: "u32 \<Rightarrow> u32" where
  "tab_loop c = (if c mod TABSTOP_WIDTH \<noteq> 0 \<and> c < CONSOLE_WIDTH - 1 then tab_loop (c + 1) else c)"
  by pat_completeness auto
termination
  by (relation "measure (\<lambda>c. 80 - unat c)") (auto simp: CONSOLE_WIDTH_def word_less_nat_alt unat_word_ariths)

definition process_char :: "u8 \<Rightarrow> console \<Rightarrow> byte_mem \<Rightarrow> console \<times> byte_mem" where
  "process_char c con m =
     (if c = ASCII_BELL then (beep con, m)
      else if c = ASCII_BACKSPACE then (cursor_back 1 con, m)
      else if c = ASCII_TAB then
        (let con1 = con\<lparr>con_col := con_col con + 1\<rparr>
         in if con_col con1 = CONSOLE_WIDTH then fix_pos_overflow con1 m
            else (con1\<lparr>con_col := tab_loop (con_col con1)\<rparr>, m))
      else if c = 10 then fix_pos_overflow (con\<lparr>con_col := 0, con_row := con_row con + 1\<rparr>) m
      else if c = 13 then (con\<lparr>con_col := 0\<rparr>, m)
      else
        (let i = (con_row con * CONSOLE_WIDTH + con_col con) * 2
         in fix_pos_overflow (con\<lparr>con_col := con_col con + 1\<rparr>)
              (vram_put con (i + 1) (con_color con) (vram_put con i c m))))"

definition vram_putc :: "u8 \<Rightarrow> console \<Rightarrow> byte_mem \<Rightarrow> console \<times> byte_mem" where
  "vram_putc c con m = process_char c con m"

section \<open>Escape sequences\<close>

text \<open>
  \<open>read_args\<close> is the loop of \<^verbatim>\<open>read_escseq_args\<close> over the bytes of the buffer that are left; \<open>at_n\<close> says
  whether \<^verbatim>\<open>v\<close> still points to \<^verbatim>\<open>n\<close>. The numbers wrap at 32 bits. The command is 0 if there is none.
\<close>

fun read_args :: "u8 list \<Rightarrow> u32 \<Rightarrow> bool \<Rightarrow> u32 \<Rightarrow> u32 \<Rightarrow> u32 \<times> u32 \<times> u8" where
  "read_args [] tmp at_n n m = (n, m, 0)"
| "read_args (d # ds) tmp at_n n m =
     (if isdigit (sint d) then read_args ds ((if tmp = - 1 then 0 else tmp) * 10 + (ucast d - 48)) at_n n m
      else let n1 = (if tmp \<noteq> - 1 \<and> at_n then tmp else n); m1 = (if tmp \<noteq> - 1 \<and> \<not> at_n then tmp else m)
           in if d = 59 \<and> at_n then read_args ds (- 1) False n1 m1 else (n1, m1, d))"

definition read_escseq_args :: "console \<Rightarrow> byte_mem \<Rightarrow> u32 \<times> u32 \<times> u8" where
  "read_escseq_args con m =
     read_args (map (\<lambda>i. m (escseq_buff con + of_nat i)) [0..<unat (escseq_buff_front con)]) (- 1) True (- 1) (- 1)"

definition dflt :: "u32 \<Rightarrow> u32 \<Rightarrow> u32" where
  "dflt n d = (if n = - 1 then d else n)"

definition execute_escseq :: "u8 \<Rightarrow> u32 \<Rightarrow> u32 \<Rightarrow> console \<Rightarrow> byte_mem \<Rightarrow> console \<times> byte_mem" where
  "execute_escseq c n k con m =
     (if c = 0 then (con, m)
      else if c = 65 then (cursor_up (dflt n 1) con, m)
      else if c = 66 then (cursor_down (dflt n 1) con, m)
      else if c = 67 then (cursor_forward (dflt n 1) con, m)
      else if c = 68 then (cursor_back (dflt n 1) con, m)
      else if c = 72 then (cursor_position (dflt n 0) (dflt k 0) con, m)
      else if c = 74 then
        (if dflt n 0 = 1 then (con, do_erase False con m)
         else if dflt n 0 = 2 then do_clear con m
         else (con, do_erase True con m))
      else (con, m))"

definition interpret_escseq :: "console \<Rightarrow> byte_mem \<Rightarrow> console \<times> byte_mem" where
  "interpret_escseq con m = (let (n, k, c) = read_escseq_args con m in execute_escseq c n k con m)"

definition is_terminating_char :: "u8 \<Rightarrow> bool" where
  "is_terminating_char c = (sint (0x40 :: u8) \<le> sint c \<and> sint c \<le> sint (0x7E :: u8))"

definition put_escseq_buff :: "u8 \<Rightarrow> console \<Rightarrow> byte_mem \<Rightarrow> (console \<times> byte_mem) option" where
  "put_escseq_buff c con m = do {
     bug_on (escseq_buff con = 0);
     let m1 = m(escseq_buff con + escseq_buff_front con := c);
     let con1 = con\<lparr>escseq_buff_front := escseq_buff_front con + 1\<rparr>;
     let (con2, m2) = (if is_terminating_char c then interpret_escseq con1 m1 else (con1, m1));
     Some (if is_terminating_char c \<or> escseq_buff_front con2 = ESCSEQ_BUFF_SIZE
           then con2\<lparr>escseq_buff_front := 0, con_state := TERM_NORMAL\<rparr> else con2, m2) }"

definition vram_handle :: "u8 \<Rightarrow> console \<Rightarrow> byte_mem \<Rightarrow> (console \<times> byte_mem) option" where
  "vram_handle c con m = (case con_state con of
     TERM_NORMAL \<Rightarrow>
       if c = CSI_SINGLE then Some (con\<lparr>con_state := TERM_ESCSEQ\<rparr>, m)
       else if c = CSI_DOUBLE_PARTA then Some (con\<lparr>con_state := TERM_EXPECT_CSI_PARTB\<rparr>, m)
       else Some (vram_putc c con m)
   | TERM_EXPECT_CSI_PARTB \<Rightarrow>
       if c = CSI_DOUBLE_PARTB then Some (con\<lparr>con_state := TERM_ESCSEQ\<rparr>, m)
       else let (con1, m1) = vram_putc CSI_DOUBLE_PARTA (con\<lparr>con_state := TERM_NORMAL\<rparr>) m
            in Some (vram_putc c con1 m1)
   | TERM_ESCSEQ \<Rightarrow> put_escseq_buff c con m)"

text \<open>The string handed to the console is given by its bytes.\<close>

fun vram_write_loop :: "u8 list \<Rightarrow> console \<Rightarrow> byte_mem \<Rightarrow> (console \<times> byte_mem) option" where
  "vram_write_loop [] con m = Some (con, m)"
| "vram_write_loop (c # cs) con m = do { (con1, m1) \<leftarrow> vram_handle c con m; vram_write_loop cs con1 m1 }"

definition vram_write :: "u8 list \<Rightarrow> console \<Rightarrow> byte_mem \<Rightarrow> (console \<times> byte_mem) option" where
  "vram_write str con m = do { (con1, m1) \<leftarrow> vram_write_loop str con m; Some (do_refresh_cursor con1, m1) }"

definition vram_cursor :: "console \<Rightarrow> console" where
  "vram_cursor con = do_refresh_cursor con"

definition vram_puts :: "u32 \<Rightarrow> console \<Rightarrow> byte_mem \<Rightarrow> (console \<times> byte_mem) option" where
  "vram_puts str con m = do { n \<leftarrow> strlen m str; vram_write (map (\<lambda>i. m (str + of_nat i)) [0..<unat n]) con m }"

section \<open>Start-up\<close>

text \<open>\<open>bda_port\<close> is the port that the BIOS data area names.\<close>

definition vram_early_init :: "u16 \<Rightarrow> console \<Rightarrow> byte_mem \<Rightarrow> console \<times> byte_mem" where
  "vram_early_init bda_port con m =
     vram_clear (cursor_enable 14 15 CURSOR_BLINK_SLOW
       (con\<lparr>con_row := 0, con_col := 0, con_color := 7, con_state := TERM_NORMAL, escseq_buff := 0,
            escseq_buff_front := 0, con_vram := BIOS_VRAM, con_port := bda_port\<rparr>)) m"

definition vram_init :: "console \<Rightarrow> heap \<Rightarrow> (heap \<times> console) option" where
  "vram_init con h = do {
     (h1, p) \<leftarrow> kmalloc ESCSEQ_BUFF_SIZE h;
     Some (h1, con\<lparr>escseq_buff := p, escseq_buff_front := 0\<rparr>) }"

definition console_early_init :: "u16 \<Rightarrow> console \<Rightarrow> byte_mem \<Rightarrow> console \<times> byte_mem" where
  "console_early_init bda_port con m = vram_early_init bda_port (con\<lparr>con_lockup := False\<rparr>) m"

definition console_lockup :: "console \<Rightarrow> console" where
  "console_lockup con = con\<lparr>con_lockup := True\<rparr>"

definition console_char_write :: "u8 list \<Rightarrow> console \<Rightarrow> byte_mem \<Rightarrow> (console \<times> byte_mem \<times> nat) option" where
  "console_char_write str con m = do {
     (con1, m1) \<leftarrow> (if \<not> con_lockup con then vram_write str con m else Some (con, m));
     Some (con1, m1, length str) }"

section \<open>An abstract terminal\<close>

type_synonym cell = "u8 \<times> u8"

text \<open>The cells of the screen row by row, each a character and its colour.\<close>

record terminal =
  at_cells :: "cell list"
  at_row :: nat
  at_col :: nat
  at_color :: u8
  at_beeps :: nat

datatype command =
    Char u8 | Up u32 | Down u32 | Forward u32 | Back u32 | Position u32 u32
  | Erase_Above | Erase_Below | Clear | Ignored

definition at_pos :: "terminal \<Rightarrow> nat" where
  "at_pos t = at_row t * 80 + at_col t"

definition at_blank :: "terminal \<Rightarrow> cell" where
  "at_blank t = (32, at_color t)"

definition new_line :: "terminal \<Rightarrow> terminal" where
  "new_line t =
     (if at_row t = 24 then t\<lparr>at_cells := drop 80 (at_cells t) @ replicate 80 (at_blank t), at_col := 0\<rparr>
      else t\<lparr>at_row := at_row t + 1, at_col := 0\<rparr>)"

definition advance :: "terminal \<Rightarrow> terminal" where
  "advance t = (if at_col t = 79 then new_line t else t\<lparr>at_col := at_col t + 1\<rparr>)"

definition show_char :: "u8 \<Rightarrow> terminal \<Rightarrow> terminal" where
  "show_char c t =
     (if c = 7 then t\<lparr>at_beeps := at_beeps t + 1\<rparr>
      else if c = 8 then t\<lparr>at_col := at_col t - 1\<rparr>
      else if c = 9 then (if at_col t = 79 then new_line t else t\<lparr>at_col := min 79 (8 * ((at_col t + 8) div 8))\<rparr>)
      else if c = 10 then new_line t
      else if c = 13 then t\<lparr>at_col := 0\<rparr>
      else advance (t\<lparr>at_cells := (at_cells t)[at_pos t := (c, at_color t)]\<rparr>))"

fun perform :: "command \<Rightarrow> terminal \<Rightarrow> terminal" where
  "perform (Char c) t = show_char c t"
| "perform (Up n) t = t\<lparr>at_row := at_row t - unat n\<rparr>"
| "perform (Down n) t = t\<lparr>at_row := min 24 (at_row t + unat n)\<rparr>"
| "perform (Forward n) t = t\<lparr>at_col := min 79 (at_col t + unat n)\<rparr>"
| "perform (Back n) t = t\<lparr>at_col := at_col t - unat n\<rparr>"
| "perform (Position r c) t = t\<lparr>at_row := min 24 (unat r - 1), at_col := min 79 (unat c - 1)\<rparr>"
| "perform Erase_Above t = t\<lparr>at_cells := replicate (at_pos t + 1) (at_blank t) @ drop (at_pos t + 1) (at_cells t)\<rparr>"
| "perform Erase_Below t = t\<lparr>at_cells := take (at_pos t) (at_cells t) @ replicate (2000 - at_pos t) (at_blank t)\<rparr>"
| "perform Clear t = t\<lparr>at_cells := replicate 2000 (at_blank t), at_row := 0, at_col := 0\<rparr>"
| "perform Ignored t = t"

datatype parser = Text | Escape | Sequence "u8 list"

text \<open>A number is read digit by digit; the all-ones word stands for a number that was left out.\<close>

definition number :: "u8 list \<Rightarrow> u32" where
  "number ds = foldl (\<lambda>t d. (if t = - 1 then 0 else t) * 10 + (ucast d - 48)) (- 1) ds"

definition digit :: "u8 \<Rightarrow> bool" where
  "digit d = isdigit (sint d)"

text \<open>A sequence is a number, perhaps a semicolon and a second number, and a command letter.\<close>

definition sequence_args :: "u8 list \<Rightarrow> u32 \<times> u32 \<times> u8" where
  "sequence_args bs =
     (let n = number (takeWhile digit bs); r = dropWhile digit bs
      in if r \<noteq> [] \<and> hd r = 59
         then let k = number (takeWhile digit (tl r)); q = dropWhile digit (tl r)
              in if q = [] then (n, - 1, 0) else (n, k, hd q)
         else if r = [] then (- 1, - 1, 0) else (n, - 1, hd r))"

definition command_of :: "u8 \<Rightarrow> u32 \<Rightarrow> u32 \<Rightarrow> command" where
  "command_of c n k =
     (if c = 65 then Up (dflt n 1) else if c = 66 then Down (dflt n 1)
      else if c = 67 then Forward (dflt n 1) else if c = 68 then Back (dflt n 1)
      else if c = 72 then Position (dflt n 0) (dflt k 0)
      else if c = 74 then (if dflt n 0 = 1 then Erase_Above else if dflt n 0 = 2 then Clear else Erase_Below)
      else Ignored)"

definition sequence_command :: "u8 list \<Rightarrow> command" where
  "sequence_command bs = (let (n, k, c) = sequence_args bs in command_of c n k)"

fun parse_byte :: "parser \<Rightarrow> u8 \<Rightarrow> parser \<times> command list" where
  "parse_byte Text c = (if c = 0x9B then (Sequence [], []) else if c = 0x1B then (Escape, []) else (Text, [Char c]))"
| "parse_byte Escape c = (if c = 0x5B then (Sequence [], []) else (Text, [Char 0x1B, Char c]))"
| "parse_byte (Sequence bs) c =
     (if is_terminating_char c then (Text, [sequence_command (bs @ [c])])
      else if length bs = 127 then (Text, []) else (Sequence (bs @ [c]), []))"

fun parse :: "parser \<Rightarrow> u8 list \<Rightarrow> parser \<times> command list" where
  "parse p [] = (p, [])"
| "parse p (c # cs) = (let (q, xs) = parse_byte p c; (r, ys) = parse q cs in (r, xs @ ys))"

section \<open>Cells in memory\<close>

definition cell_at :: "u32 \<Rightarrow> byte_mem \<Rightarrow> nat \<Rightarrow> cell" where
  "cell_at v m i = (m (v + of_nat (2 * i)), m (v + of_nat (2 * i + 1)))"

definition on_screen :: "u32 \<Rightarrow> u32 \<Rightarrow> bool" where
  "on_screen v x = (unat (x - v) < 4000)"

text \<open>\<open>paints\<close>: the cells in \<open>P\<close> become \<open>b\<close>, the other cells and the rest of memory stay.\<close>

definition paints :: "u32 \<Rightarrow> (nat \<Rightarrow> bool) \<Rightarrow> cell \<Rightarrow> byte_mem \<Rightarrow> byte_mem \<Rightarrow> bool" where
  "paints v P b m m' = ((\<forall>i<2000. cell_at v m' i = (if P i then b else cell_at v m i))
     \<and> (\<forall>x. \<not> on_screen v x \<longrightarrow> m' x = m x))"

lemma paints_none: "(\<And>i. i < 2000 \<Longrightarrow> \<not> P i) \<Longrightarrow> paints v P b m m"
  by (simp add: paints_def)

lemma paints_trans:
  assumes "paints v P b m m1" and "paints v Q b m1 m2" and "\<And>i. i < 2000 \<Longrightarrow> R i = (P i \<or> Q i)"
  shows "paints v R b m m2"
  using assms by (auto simp: paints_def)

lemma off_eq:
  fixes v :: u32
  assumes "i < 4000" "j < 4000"
  shows "v + of_nat i = v + of_nat j \<longleftrightarrow> i = j"
proof -
  have "unat (of_nat i :: u32) = i" "unat (of_nat j :: u32) = j" using assms by (simp_all add: unat_of_nat take_bit_nat_eq_self)
  then show ?thesis by (metis add_left_cancel)
qed

lemma off_on_screen: "i < 4000 \<Longrightarrow> on_screen v (v + of_nat i)"
  by (simp add: on_screen_def unat_of_nat take_bit_nat_eq_self)

lemma paints_one:
  assumes "j < 2000"
  shows "paints v (\<lambda>i. i = j) (c, d) m (m(v + of_nat (2 * j) := c, v + of_nat (2 * j + 1) := d))"
proof -
  have "cell_at v (m(v + of_nat (2 * j) := c, v + of_nat (2 * j + 1) := d)) i = (if i = j then (c, d) else cell_at v m i)"
    if "i < 2000" for i
  proof -
    have a: "v + of_nat (2 * i) = v + of_nat (2 * j) \<longleftrightarrow> i = j" "v + of_nat (2 * i + 1) = v + of_nat (2 * j + 1) \<longleftrightarrow> i = j"
      "v + of_nat (2 * i) \<noteq> v + of_nat (2 * j + 1)" "v + of_nat (2 * i + 1) \<noteq> v + of_nat (2 * j)"
      using that assms by (subst off_eq; simp; presburger)+
    show ?thesis unfolding cell_at_def fun_upd_apply using a by simp
  qed
  moreover have "\<not> on_screen v x \<longrightarrow> x \<noteq> v + of_nat (2 * j) \<and> x \<noteq> v + of_nat (2 * j + 1)" for x
    using off_on_screen [of "2 * j" v] off_on_screen [of "2 * j + 1" v] assms by auto
  ultimately show ?thesis by (simp add: paints_def)
qed

declare erase_row.simps [simp del] erase_loop.simps [simp del] tab_loop.simps [simp del]

lemma vput2:
  "vram_put con i d (vram_put con j c m) = m(con_vram con + j := c, con_vram con + i := d)"
  by (simp add: vram_put_def)

lemma blank_loop_paints:
  assumes "k + j + n \<le> 2000"
  shows "paints (con_vram con) (\<lambda>i. k + j \<le> i \<and> i < k + j + n) (32, con_color con) m (blank_loop con (of_nat (2 * k)) (of_nat j) n m)"
  using assms
proof (induction n arbitrary: j m)
  case 0
  then show ?case by (simp add: paints_none)
next
  case (Suc n)
  let ?m1 = "m(con_vram con + of_nat (2 * (k + j)) := 32, con_vram con + of_nat (2 * (k + j) + 1) := con_color con)"
  have e: "of_nat (2 * k) + of_nat j * 2 = (of_nat (2 * (k + j)) :: u32)"
    "of_nat (2 * k) + (of_nat j * 2 + 1) = (of_nat (2 * (k + j) + 1) :: u32)"
    by (simp_all add: algebra_simps)
  have s: "blank_loop con (of_nat (2 * k)) (of_nat j) (Suc n) m = blank_loop con (of_nat (2 * k)) (of_nat (j + 1)) n ?m1"
    unfolding blank_loop.simps vput2 e by (simp add: add.commute)
  have p: "paints (con_vram con) (\<lambda>i. k + (j + 1) \<le> i \<and> i < k + (j + 1) + n) (32, con_color con) ?m1
      (blank_loop con (of_nat (2 * k)) (of_nat (j + 1)) n ?m1)"
    using Suc by (intro Suc.IH) simp
  show ?case unfolding s
    by (rule paints_trans [OF paints_one p])  (use Suc.prems in auto)
qed

lemma erase_row_below:
  assumes "c \<le> 80" and "r < 25"
  shows "paints (con_vram con) (\<lambda>i. r * 80 + c \<le> i \<and> i < r * 80 + 80) (32, con_color con) m
    (erase_row True con (int r) (int c) m)"
  using assms(1)
proof (induction "80 - c" arbitrary: c m)
  case 0
  then show ?case by (subst erase_row.simps) (simp add: paints_none)
next
  case (Suc n)
  let ?j = "r * 80 + c"
  let ?m1 = "m(con_vram con + of_nat (2 * ?j) := 32, con_vram con + of_nat (2 * ?j + 1) := con_color con)"
  have "(int r * 80 + int c) * 2 = int (2 * ?j)" "int (2 * ?j) + 1 = int (2 * ?j + 1)" by simp_all
  then have e: "(word_of_int ((int r * 80 + int c) * 2) :: u32) = of_nat (2 * ?j)"
    "(word_of_int ((int r * 80 + int c) * 2 + 1) :: u32) = of_nat (2 * ?j + 1)"
    by (simp_all only: of_int_of_nat_eq)
  have s: "erase_row True con (int r) (int c) m = erase_row True con (int r) (int (c + 1)) ?m1"
    using Suc.hyps(2) by (subst erase_row.simps) (simp only: vput2 e, simp add: add.commute, arith)
  have p: "paints (con_vram con) (\<lambda>i. r * 80 + (c + 1) \<le> i \<and> i < r * 80 + 80) (32, con_color con) ?m1
      (erase_row True con (int r) (int (c + 1)) ?m1)"
    using Suc by (intro Suc.hyps) auto
  show ?case unfolding s
    by (rule paints_trans [OF paints_one p])  (use Suc assms(2) in auto)
qed

lemma erase_row_above:
  assumes "c \<le> 80" and "r < 25"
  shows "paints (con_vram con) (\<lambda>i. r * 80 \<le> i \<and> i < r * 80 + c) (32, con_color con) m
    (erase_row False con (int r) (int c - 1) m)"
  using assms(1)
proof (induction c arbitrary: m)
  case 0
  then show ?case by (subst erase_row.simps) (simp add: paints_none)
next
  case (Suc c)
  let ?j = "r * 80 + c"
  let ?m1 = "m(con_vram con + of_nat (2 * ?j) := 32, con_vram con + of_nat (2 * ?j + 1) := con_color con)"
  have "(int r * 80 + int c) * 2 = int (2 * ?j)" "int (2 * ?j) + 1 = int (2 * ?j + 1)" by simp_all
  then have e: "(word_of_int ((int r * 80 + int c) * 2) :: u32) = of_nat (2 * ?j)"
    "(word_of_int ((int r * 80 + int c) * 2 + 1) :: u32) = of_nat (2 * ?j + 1)"
    by (simp_all only: of_int_of_nat_eq)
  have c: "int (Suc c) - 1 = int c" by simp
  have s: "erase_row False con (int r) (int c) m = erase_row False con (int r) (int c - 1) ?m1"
    using Suc by (subst erase_row.simps) (simp only: vput2 e, simp)
  have p: "paints (con_vram con) (\<lambda>i. r * 80 \<le> i \<and> i < r * 80 + c) (32, con_color con) ?m1
      (erase_row False con (int r) (int c - 1) ?m1)"
    using Suc by (intro Suc.IH) auto
  show ?case unfolding c s
    by (rule paints_trans [OF paints_one p])  (use Suc assms(2) in auto)
qed

lemma erase_loop_below:
  assumes "r \<le> 25" and "c \<le> 80"
  shows "paints (con_vram con) (\<lambda>i. r * 80 + c \<le> i) (32, con_color con) m (erase_loop True con (int r) (int c) m)"
  using assms
proof (induction "25 - r" arbitrary: r c m)
  case 0
  then show ?case by (subst erase_loop.simps) (simp add: paints_none)
next
  case (Suc n)
  have s: "erase_loop True con (int r) (int c) m = erase_loop True con (int (r + 1)) (int 0) (erase_row True con (int r) (int c) m)"
    using Suc.hyps(2) by (subst erase_loop.simps) (simp add: add.commute, arith)
  have p: "paints (con_vram con) (\<lambda>i. (r + 1) * 80 + 0 \<le> i) (32, con_color con) (erase_row True con (int r) (int c) m)
      (erase_loop True con (int (r + 1)) (int 0) (erase_row True con (int r) (int c) m))"
    using Suc by (intro Suc.hyps) auto
  show ?case unfolding s
    by (rule paints_trans [OF erase_row_below p])  (use Suc in auto)
qed

lemma erase_loop_above:
  assumes "r \<le> 25" and "c \<le> 80"
  shows "paints (con_vram con) (\<lambda>i. 0 < r \<and> i < (r - 1) * 80 + c) (32, con_color con) m (erase_loop False con (int r - 1) (int c - 1) m)"
  using assms
proof (induction r arbitrary: c m)
  case 0
  then show ?case by (subst erase_loop.simps) (simp add: paints_none)
next
  case (Suc r)
  have r: "int (Suc r) - 1 = int r" by simp
  have s: "erase_loop False con (int r) (int c - 1) m = erase_loop False con (int r - 1) (int 80 - 1) (erase_row False con (int r) (int c - 1) m)"
    using Suc by (subst erase_loop.simps) simp
  have p: "paints (con_vram con) (\<lambda>i. 0 < r \<and> i < (r - 1) * 80 + 80) (32, con_color con) (erase_row False con (int r) (int c - 1) m)
      (erase_loop False con (int r - 1) (int 80 - 1) (erase_row False con (int r) (int c - 1) m))"
    using Suc by (intro Suc.IH) auto
  show ?case unfolding r s
    by (rule paints_trans [OF erase_row_above p])  (use Suc in \<open>auto simp: not_less\<close>)
qed

section \<open>Refinement of the screen\<close>

definition screen_ok :: "console \<Rightarrow> bool" where
  "screen_ok con = (unat (con_row con) < 25 \<and> unat (con_col con) < 80 \<and> unat (con_vram con) + 4000 \<le> 2 ^ 32)"

definition cells :: "u32 \<Rightarrow> byte_mem \<Rightarrow> cell list" where
  "cells v m = map (cell_at v m) [0..<2000]"

definition term_of :: "console \<Rightarrow> byte_mem \<Rightarrow> terminal" where
  "term_of con m = \<lparr>at_cells = cells (con_vram con) m, at_row = unat (con_row con), at_col = unat (con_col con),
     at_color = con_color con, at_beeps = con_beeps con\<rparr>"

definition con_fixed :: "console \<Rightarrow> console \<Rightarrow> bool" where
  "con_fixed con con' = (con_port con' = con_port con \<and> con_vram con' = con_vram con \<and> escseq_buff con' = escseq_buff con
     \<and> escseq_buff_front con' = escseq_buff_front con \<and> con_state con' = con_state con \<and> con_lockup con' = con_lockup con)"

definition con_refines :: "console \<Rightarrow> byte_mem \<Rightarrow> (terminal \<Rightarrow> terminal) \<Rightarrow> console \<times> byte_mem \<Rightarrow> bool" where
  "con_refines con m f r = (case r of (con', m') \<Rightarrow> screen_ok con' \<and> con_fixed con con'
     \<and> term_of con' m' = f (term_of con m) \<and> (\<forall>x. \<not> on_screen (con_vram con) x \<longrightarrow> m' x = m x))"

lemma con_refinesI:
  assumes "screen_ok con'" "con_fixed con con'" "term_of con' m' = f (term_of con m)"
    and "\<And>x. \<not> on_screen (con_vram con) x \<Longrightarrow> m' x = m x"
  shows "con_refines con m f (con', m')"
  using assms by (simp add: con_refines_def)

lemma con_refines_comp:
  assumes "con_refines con m f (con1, m1)" and "con_refines con1 m1 g r"
  shows "con_refines con m (\<lambda>t. g (f t)) r"
  using assms by (auto simp: con_refines_def con_fixed_def)

lemma cells_length [simp]: "length (cells v m) = 2000"
  by (simp add: cells_def)

lemma cells_nth: "i < 2000 \<Longrightarrow> cells v m ! i = cell_at v m i"
  by (simp add: cells_def)

lemma paints_cells:
  assumes "paints v P b m m'" and "length cs = 2000" and "\<And>i. i < 2000 \<Longrightarrow> cs ! i = (if P i then b else cell_at v m i)"
  shows "cells v m' = cs"
  by (rule nth_equalityI) (use assms in \<open>auto simp: cells_nth paints_def\<close>)

lemma refresh_sel [simp]:
  "con_port (do_refresh_cursor con) = con_port con" "con_vram (do_refresh_cursor con) = con_vram con"
  "con_row (do_refresh_cursor con) = con_row con" "con_col (do_refresh_cursor con) = con_col con"
  "con_color (do_refresh_cursor con) = con_color con" "con_state (do_refresh_cursor con) = con_state con"
  "escseq_buff (do_refresh_cursor con) = escseq_buff con" "escseq_buff_front (do_refresh_cursor con) = escseq_buff_front con"
  "con_lockup (do_refresh_cursor con) = con_lockup con" "con_beeps (do_refresh_cursor con) = con_beeps con"
  by (simp_all add: do_refresh_cursor_def set_reg_bits_def select_reg_def put_val_def outb_def Let_def)

definition cursor_shown :: "console \<Rightarrow> bool" where
  "cursor_shown con =
     (unat (crtc_regs con REG_CURSOR_HI AND 0x3F) * 256 + unat (crtc_regs con REG_CURSOR_LO)
        = unat (con_row con) * 80 + unat (con_col con))"

lemma refresh_regs:
  "crtc_regs (do_refresh_cursor con) REG_CURSOR_LO = ucast (con_row con * 80 + con_col con)"
  "crtc_regs (do_refresh_cursor con) REG_CURSOR_HI AND 0x3F
     = ucast (drop_bit 8 (ucast (con_row con * 80 + con_col con) :: u16)) AND 0x3F"
proof -
  have "(0xFF :: u16) = mask 8" by (simp add: mask_eq_exp_minus_1)
  then have a: "ucast ((p::u16) AND 0xFF) = (ucast p :: u8)" for p
    by (simp only: flip: take_bit_eq_mask) (rule bit_word_eqI, auto simp: bit_simps)
  have b: "(p AND NOT 0x3F OR q AND 0x3F) AND 0x3F = (q :: u8) AND 0x3F" for p q
    by (rule bit_word_eqI) (auto simp: bit_simps)
  have c: "ucast (ucast (q :: u32) :: u16) = (ucast q :: u8)" for q
    by (rule bit_word_eqI) (auto simp: bit_simps)
  have "(255 :: u8) = - 1" by simp
  then have d: "(w :: u8) AND 255 = w" for w by (simp only: and.right_neutral)
  have p: "con_port con + 1 \<noteq> con_port con" by simp
  show "crtc_regs (do_refresh_cursor con) REG_CURSOR_LO = ucast (con_row con * 80 + con_col con)"
    by (simp add: do_refresh_cursor_def set_reg_bits_def select_reg_def put_val_def outb_def Let_def a c d
      PORTOFF_ADDR_def PORTOFF_DATA_def REG_CURSOR_LO_def REG_CURSOR_HI_def CONSOLE_WIDTH_def p)
  show "crtc_regs (do_refresh_cursor con) REG_CURSOR_HI AND 0x3F
     = ucast (drop_bit 8 (ucast (con_row con * 80 + con_col con) :: u16)) AND 0x3F"
    using b by (simp add: do_refresh_cursor_def set_reg_bits_def select_reg_def put_val_def outb_def Let_def a
      PORTOFF_ADDR_def PORTOFF_DATA_def REG_CURSOR_LO_def REG_CURSOR_HI_def CONSOLE_WIDTH_def p)
qed

lemma refresh_shows:
  assumes "screen_ok con"
  shows "cursor_shown (do_refresh_cursor con)"
proof -
  let ?p = "con_row con * 80 + con_col con"
  have u: "unat ?p = unat (con_row con) * 80 + unat (con_col con)" and l: "unat ?p < 2000"
    using assms by (simp_all add: screen_ok_def unat_word_ariths)
  have q: "unat (ucast ?p :: u16) = unat ?p" using l by (simp add: unat_ucast take_bit_nat_eq_self)
  have d: "unat (drop_bit 8 (ucast ?p :: u16)) = unat ?p div 256" by (simp add: unat_drop_bit q)
  have m: "(w AND 0x3F :: u8) = take_bit 6 w" for w
    by (simp add: take_bit_eq_mask mask_eq_exp_minus_1)
  have "unat (ucast (drop_bit 8 (ucast ?p :: u16)) AND (0x3F :: u8)) = unat ?p div 256"
    using l by (simp only: m unat_take_bit unat_ucast d) (simp add: take_bit_nat_eq_self)
  moreover have "unat (ucast ?p :: u8) = unat ?p mod 256" by (simp add: unat_ucast take_bit_eq_mod)
  ultimately show ?thesis unfolding cursor_shown_def refresh_regs refresh_sel using u
    by (simp add: div_mult_mod_eq)
qed

lemma scroll_cells:
  assumes "unat v + 4000 \<le> 2 ^ 32"
  shows "i < 1920 \<Longrightarrow> cell_at v (memmove v (v + 160) 3840 m) i = cell_at v m (i + 80)"
    and "\<not> on_screen v x \<Longrightarrow> memmove v (v + 160) 3840 m x = m x"
proof -
  have "unat (v + 160) = unat v + 160" using assms by (simp add: unat_word_ariths)
  then have e: "memmove v (v + 160) 3840 m = (\<lambda>x. if unat (x - v) < 3840 then m (v + 160 + (x - v)) else m x)"
    using memmove_ok [of v 3840 "v + 160"] assms by simp
  have k: "memmove v (v + 160) 3840 m (v + of_nat j) = m (v + of_nat (j + 160))" if "j < 3840" for j
  proof -
    have "unat (v + of_nat j - v) = j" using that by (simp add: unat_of_nat take_bit_nat_eq_self)
    moreover have "v + 160 + (v + of_nat j - v) = v + of_nat (j + 160)" by simp
    ultimately show ?thesis unfolding e using that by (simp add: add.assoc add.commute add.left_commute)
  qed
  show "cell_at v (memmove v (v + 160) 3840 m) i = cell_at v m (i + 80)" if "i < 1920"
  proof -
    have "2 * i + 160 = 2 * (i + 80)" "2 * i + 1 + 160 = 2 * (i + 80) + 1" by simp_all
    then show ?thesis unfolding cell_at_def using that k [of "2 * i"] k [of "2 * i + 1"] by simp
  qed
  show "memmove v (v + 160) 3840 m x = m x" if "\<not> on_screen v x"
    using that by (simp add: e on_screen_def)
qed

lemma scroll_ok:
  fixes m :: byte_mem
  assumes v: "unat (con_vram con) + 4000 \<le> 2 ^ 32"
  defines "m1 \<equiv> memmove (con_vram con) (con_vram con + 160) 3840 m"
  shows "cells (con_vram con) (blank_loop con 3840 0 80 m1) = drop 80 (cells (con_vram con) m) @ replicate 80 (32, con_color con)"
    and "\<not> on_screen (con_vram con) x \<Longrightarrow> blank_loop con 3840 0 80 m1 x = m x"
proof -
  have p: "paints (con_vram con) (\<lambda>i. 1920 \<le> i \<and> i < 2000) (32, con_color con) m1 (blank_loop con 3840 0 80 m1)"
    using blank_loop_paints [of 1920 0 80 con m1] by simp
  show "cells (con_vram con) (blank_loop con 3840 0 80 m1) = drop 80 (cells (con_vram con) m) @ replicate 80 (32, con_color con)"
    by (rule paints_cells [OF p]) (auto simp: nth_append cells_nth scroll_cells(1) [OF v] m1_def add.commute)
  show "blank_loop con 3840 0 80 m1 x = m x" if "\<not> on_screen (con_vram con) x"
    using p that scroll_cells(2) [OF v that] by (simp add: paints_def m1_def)
qed

lemma con_width [simp]: "CONSOLE_WIDTH = 80" "CONSOLE_HEIGHT = 25" "TABSTOP_WIDTH = 8"
  by (simp_all add: CONSOLE_WIDTH_def CONSOLE_HEIGHT_def TABSTOP_WIDTH_def)

lemma blank_loop_cong:
  "con_vram c = con_vram d \<Longrightarrow> con_color c = con_color d \<Longrightarrow> blank_loop c off i n m = blank_loop d off i n m"
  by (induction n arbitrary: i m) (simp_all add: vram_put_def)

lemma new_line_ok:
  assumes s: "screen_ok con" and c: "unat (con_col con') = 0" and r: "con_row con' = con_row con + 1"
    and e: "con_fixed con con'" "con_color con' = con_color con" "con_beeps con' = con_beeps con"
  shows "con_refines con m new_line (fix_pos_overflow con' m)"
proof -
  have c0: "con_col con' \<noteq> 80" "con_col con' = 0" using c by (auto simp: word_unat_eq_iff)
  have v: "unat (con_vram con) + 4000 \<le> 2 ^ 32" "con_vram con' = con_vram con" using s e by (simp_all add: screen_ok_def con_fixed_def)
  have u: "unat (con_row con') = unat (con_row con) + 1" using s r by (simp add: screen_ok_def unat_word_ariths)
  have q: "con_row con' = 25 \<longleftrightarrow> unat (con_row con) = 24" using u by (simp add: word_unat_eq_iff)
  show ?thesis
  proof (cases "unat (con_row con) = 24")
    case True
    then have f: "fix_pos_overflow con' m = (con'\<lparr>con_row := 24\<rparr>, blank_loop con 3840 0 80 (memmove (con_vram con) (con_vram con + 160) 3840 m))"
      using c0(1) q v(2) e(2) by (simp add: fix_pos_overflow_def Let_def blank_loop_cong [of con' con])
    show ?thesis unfolding f
      by (rule con_refinesI) (use s e True c c0 v(2) scroll_ok [OF v(1), where m = m] in
        \<open>simp_all add: screen_ok_def con_fixed_def term_of_def new_line_def at_blank_def\<close>)
  next
    case False
    then have f: "fix_pos_overflow con' m = (con', m)" using c0(1) q by (simp add: fix_pos_overflow_def Let_def)
    show ?thesis unfolding f
      by (rule con_refinesI) (use s e False c c0 v(2) u in
        \<open>simp_all add: screen_ok_def con_fixed_def term_of_def new_line_def\<close>)
  qed
qed

lemma advance_ok:
  assumes s: "screen_ok con"
  shows "con_refines con m advance (fix_pos_overflow (con\<lparr>con_col := con_col con + 1\<rparr>) m)"
proof -
  have u: "unat (con_col con + 1) = unat (con_col con) + 1" using s by (simp add: screen_ok_def unat_word_ariths)
  have q: "con_col con + 1 = 80 \<longleftrightarrow> unat (con_col con) = 79" using u by (simp add: word_unat_eq_iff)
  show ?thesis
  proof (cases "unat (con_col con) = 79")
    case True
    let ?c = "con\<lparr>con_col := 0, con_row := con_row con + 1\<rparr>"
    have "fix_pos_overflow (con\<lparr>con_col := con_col con + 1\<rparr>) m = fix_pos_overflow ?c m"
      using True q by (simp add: fix_pos_overflow_def Let_def)
    moreover have "con_refines con m new_line (fix_pos_overflow ?c m)"
      by (rule new_line_ok [OF s]) (simp_all add: con_fixed_def)
    moreover have "advance (term_of con m) = new_line (term_of con m)" using True by (simp add: advance_def term_of_def)
    ultimately show ?thesis by (simp add: con_refines_def)
  next
    case False
    have "con_row con \<noteq> 25" using s by (auto simp: screen_ok_def)
    then have f: "fix_pos_overflow (con\<lparr>con_col := con_col con + 1\<rparr>) m = (con\<lparr>con_col := con_col con + 1\<rparr>, m)"
      using False q by (simp add: fix_pos_overflow_def Let_def)
    show ?thesis unfolding f
      by (rule con_refinesI) (use s False u in \<open>simp_all add: screen_ok_def con_fixed_def term_of_def advance_def\<close>)
  qed
qed

lemma tab_loop_ok:
  assumes "0 < unat c" "unat c \<le> 79"
  shows "unat (tab_loop c) = min 79 (8 * ((unat c + 7) div 8))"
  using assms
proof (induction "79 - unat c" arbitrary: c)
  case 0
  then have "unat c = 79" by simp
  then show ?case by (subst tab_loop.simps) (simp add: word_less_nat_alt)
next
  case (Suc n)
  have m: "c mod 8 \<noteq> 0 \<longleftrightarrow> unat c mod 8 \<noteq> 0" by (simp add: word_unat_eq_iff unat_mod)
  have l: "c < 79" and u: "unat (c + 1) = unat c + 1" using Suc.hyps(2) by (simp_all add: word_less_nat_alt unat_word_ariths)
  show ?case
  proof (cases "unat c mod 8 = 0")
    case True
    then have "tab_loop c = c" using m by (subst tab_loop.simps) simp
    then show ?thesis using True Suc.prems by (auto elim!: dvdE simp: mod_eq_0_iff_dvd)
  next
    case False
    have "unat (tab_loop (c + 1)) = min 79 (8 * ((unat (c + 1) + 7) div 8))"
      using Suc.hyps(2) u by (intro Suc.hyps(1)) auto
    moreover have "tab_loop c = tab_loop (c + 1)" using False m l by (subst tab_loop.simps) simp
    moreover have "(8 + unat c) div 8 = (unat c + 7) div 8" using False by presburger
    ultimately show ?thesis by (simp add: u)
  qed
qed

lemma put_char_ok:
  assumes s: "screen_ok con"
  defines "i \<equiv> (con_row con * CONSOLE_WIDTH + con_col con) * 2"
  shows "con_refines con m (\<lambda>t. t\<lparr>at_cells := (at_cells t)[at_pos t := (c, at_color t)]\<rparr>)
    (con, vram_put con (i + 1) (con_color con) (vram_put con i c m))"
proof -
  let ?p = "unat (con_row con) * 80 + unat (con_col con)"
  have p: "?p < 2000" using s by (simp add: screen_ok_def)
  have i: "i = of_nat (2 * ?p)" "i + 1 = of_nat (2 * ?p + 1)" by (simp_all add: i_def algebra_simps)
  have q: "paints (con_vram con) (\<lambda>i. i = ?p) (c, con_color con) m (vram_put con (i + 1) (con_color con) (vram_put con i c m))"
    unfolding vput2 i(1) i(2) [unfolded i(1)] by (rule paints_one [OF p])
  have "cells (con_vram con) (vram_put con (i + 1) (con_color con) (vram_put con i c m)) = (cells (con_vram con) m)[?p := (c, con_color con)]"
    by (rule paints_cells [OF q]) (auto simp: cells_nth nth_list_update)
  moreover have "vram_put con (i + 1) (con_color con) (vram_put con i c m) x = m x" if "\<not> on_screen (con_vram con) x" for x
    using q that by (simp add: paints_def)
  ultimately show ?thesis
    by (intro con_refinesI) (use s in \<open>simp_all add: con_fixed_def term_of_def at_pos_def\<close>)
qed

lemma min_diff: "unat (a - MIN_u a b) = unat a - unat b"
  by (auto simp: MIN_u_def word_less_nat_alt unat_sub word_le_nat_alt)

lemma back_ok: "screen_ok con \<Longrightarrow> con_refines con m (\<lambda>t. t\<lparr>at_col := at_col t - unat n\<rparr>) (cursor_back n con, m)"
  by (rule con_refinesI) (simp_all add: cursor_back_def screen_ok_def con_fixed_def term_of_def min_diff less_imp_diff_less)

lemmas ascii = ASCII_BELL_def ASCII_BACKSPACE_def ASCII_TAB_def

lemma process_char_ok:
  assumes s: "screen_ok con"
  shows "con_refines con m (show_char c) (process_char c con m)"
proof -
  have sp: "con_refines con m (\<lambda>t. t\<lparr>at_col := at_col t - 1\<rparr>) (cursor_back 1 con, m)" using back_ok [OF s, of m 1] by simp
  consider (bell) "c = 7" | (bs) "c = 8" | (tab) "c = 9" | (nl) "c = 10" | (cr) "c = 13"
    | (char) "c \<noteq> 7" "c \<noteq> 8" "c \<noteq> 9" "c \<noteq> 10" "c \<noteq> 13" by blast
  then show ?thesis
  proof cases
    case bell
    then show ?thesis using s
      by (simp add: process_char_def ascii beep_def con_refines_def screen_ok_def con_fixed_def term_of_def show_char_def)
  next
    case bs
    then show ?thesis using sp
      by (simp add: process_char_def ascii show_char_def con_refines_def)
  next
    case tab
    have u: "unat (con_col con + 1) = unat (con_col con) + 1" using s by (simp add: screen_ok_def unat_word_ariths)
    have q: "con_col con + 1 = 80 \<longleftrightarrow> unat (con_col con) = 79" using u by (simp add: word_unat_eq_iff)
    show ?thesis
    proof (cases "unat (con_col con) = 79")
      case True
      then show ?thesis using tab advance_ok [OF s, of m] q
        by (simp add: process_char_def ascii show_char_def con_refines_def
          advance_def term_of_def)
    next
      case False
      then have t: "unat (tab_loop (con_col con + 1)) = min 79 (8 * ((unat (con_col con) + 8) div 8))"
        using s tab_loop_ok [of "con_col con + 1"] u by (simp add: screen_ok_def add.commute)
      show ?thesis using tab False q s t
        by (simp add: process_char_def ascii show_char_def con_refines_def
          term_of_def screen_ok_def con_fixed_def)
    qed
  next
    case nl
    have "con_refines con m new_line (fix_pos_overflow (con\<lparr>con_col := 0, con_row := con_row con + 1\<rparr>) m)"
      by (rule new_line_ok [OF s]) (simp_all add: con_fixed_def)
    then show ?thesis using nl
      by (simp add: process_char_def ascii show_char_def con_refines_def)
  next
    case cr
    then show ?thesis using s
      by (simp add: process_char_def ascii con_refines_def screen_ok_def con_fixed_def
        term_of_def show_char_def)
  next
    case char
    from con_refines_comp [OF put_char_ok [OF s, of m c] advance_ok [OF s]] char show ?thesis
      by (simp add: process_char_def ascii show_char_def con_refines_def Let_def)
  qed
qed

fun leaves_screen :: "command \<Rightarrow> bool" where
  "leaves_screen (Down n) = True"
| "leaves_screen (Forward n) = True"
| "leaves_screen _ = False"

lemma sint_small:
  assumes "unat (x :: u32) < 2147483648"
  shows "sint x = int (unat x)"
proof -
  have u: "int (unat x) = uint x" by (rule uint_nat [symmetric])
  have "uint x < 2147483648" using assms by (simp only: flip: u)
  then have "signed_take_bit 31 (uint x) = uint x" by (intro signed_take_bit_int_eq_self order_trans [OF _ uint_ge_0 [of x]]) simp_all
  then show ?thesis by (simp add: sint_uint)
qed

lemma erase_ok:
  assumes s: "screen_ok con"
  shows "con_refines con m (perform (if e then Erase_Below else Erase_Above)) (con, do_erase e con m)"
proof -
  let ?r = "unat (con_row con)" and ?c = "unat (con_col con)" and ?v = "con_vram con"
  have b: "?r < 25" "?c < 80" using s by (simp_all add: screen_ok_def)
  have p: "paints ?v (\<lambda>i. if e then ?r * 80 + ?c \<le> i else i < ?r * 80 + ?c + 1) (32, con_color con) m (do_erase e con m)"
    using erase_loop_below [of ?r ?c con m] erase_loop_above [of "?r + 1" "?c + 1" con m] b
    by (cases e) (simp_all add: do_erase_def sint_small add.assoc)
  have "cells ?v (do_erase e con m) = at_cells (perform (if e then Erase_Below else Erase_Above) (term_of con m))"
    by (rule paints_cells [OF p]) (use b in \<open>auto simp: term_of_def at_pos_def at_blank_def cells_nth nth_append less_Suc_eq_le simp del: replicate_Suc\<close>)
  moreover have "do_erase e con m x = m x" if "\<not> on_screen ?v x" for x using p that by (simp add: paints_def)
  ultimately show ?thesis
    by (intro con_refinesI) (use s in \<open>simp_all add: con_fixed_def term_of_def\<close>)
qed

lemma clear_ok:
  assumes s: "screen_ok con"
  shows "con_refines con m (perform Clear) (do_clear con m)"
proof -
  let ?con = "con\<lparr>con_row := 0, con_col := 0\<rparr>" and ?v = "con_vram con"
  have n: "unat (CONSOLE_WIDTH * CONSOLE_HEIGHT) = 2000" by simp
  have p: "paints ?v (\<lambda>i. i < 2000) (32, con_color con) m (blank_loop ?con 0 0 2000 m)"
    using blank_loop_paints [of 0 0 2000 ?con m] by simp
  have c: "cells ?v (blank_loop ?con 0 0 2000 m) = replicate 2000 (32, con_color con)"
    by (rule paints_cells [OF p]) simp_all
  have o: "blank_loop ?con 0 0 2000 m x = m x" if "\<not> on_screen ?v x" for x using p that by (simp add: paints_def)
  show ?thesis unfolding do_clear_def Let_def n
    by (rule con_refinesI) (use s c o in \<open>simp_all add: screen_ok_def con_fixed_def term_of_def at_blank_def\<close>)
qed

lemma position_ok:
  assumes "screen_ok con"
  shows "con_refines con m (perform (Position r c)) (cursor_position r c con, m)"
proof -
  have d: "unat (x - 1) = unat x - 1" if "x \<noteq> 0" for x :: u32
    using that by (rule unat_minus_one)
  have k: "unat (MIN_u x 24) = min 24 (unat x)" "unat (MIN_u x 79) = min 79 (unat x)" for x
    by (auto simp: MIN_u_def word_less_nat_alt)
  show ?thesis
    by (rule con_refinesI; cases "r = 0"; cases "c = 0")
      (use assms in \<open>simp_all add: cursor_position_def Let_def screen_ok_def con_fixed_def term_of_def k d min_less_iff_disj word_neq_0_conv [symmetric]\<close>)
qed

lemma execute_ok:
  assumes s: "screen_ok con" and l: "\<not> leaves_screen (command_of c n k)"
  shows "con_refines con m (perform (command_of c n k)) (execute_escseq c n k con m)"
proof -
  have id: "con_refines con m (perform Ignored) (con, m)"
    by (rule con_refinesI) (use s in \<open>simp_all add: con_fixed_def\<close>)
  have up: "con_refines con m (perform (Up j)) (cursor_up j con, m)" for j
    by (rule con_refinesI) (use s in \<open>simp_all add: cursor_up_def screen_ok_def con_fixed_def term_of_def min_diff less_imp_diff_less\<close>)
  have bk: "con_refines con m (perform (Back j)) (cursor_back j con, m)" for j
    using back_ok [OF s, of m j] by (simp add: con_refines_def)
  show ?thesis
    using l id up bk position_ok [OF s, of m] clear_ok [OF s, of m] erase_ok [OF s, of m True] erase_ok [OF s, of m False]
    by (auto simp: execute_escseq_def command_of_def)
qed

lemma read_args_split:
  "read_args bs t b n k =
     (let u = foldl (\<lambda>t d. (if t = - 1 then 0 else t) * 10 + (ucast d - 48)) t (takeWhile digit bs); r = dropWhile digit bs;
          n1 = (if u \<noteq> - 1 \<and> b then u else n); k1 = (if u \<noteq> - 1 \<and> \<not> b then u else k)
      in if r = [] then (n, k, 0)
         else if hd r = 59 \<and> b then read_args (tl r) (- 1) False n1 k1 else (n1, k1, hd r))"
proof (induction bs arbitrary: t)
  case (Cons a bs)
  show ?case
  proof (cases "digit a")
    case True
    then show ?thesis using Cons.IH [of "(if t = - 1 then 0 else t) * 10 + (ucast a - 48)"]
      by (simp add: digit_def [of a] Let_def split del: if_split)
  qed (simp add: digit_def [of a] Let_def)
qed simp

lemma read_args_ok: "read_args bs (- 1) True (- 1) (- 1) = sequence_args bs"
  by (simp add: read_args_split [of bs "- 1" True] read_args_split [of "tl (dropWhile digit bs)" "- 1" False] sequence_args_def number_def Let_def)

section \<open>Refinement of the input\<close>

definition con_ok :: "console \<Rightarrow> bool" where
  "con_ok con = (screen_ok con \<and> escseq_buff con \<noteq> 0
     \<and> (\<forall>i<128. \<not> on_screen (con_vram con) (escseq_buff con + of_nat i))
     \<and> unat (escseq_buff_front con) < 128 \<and> (con_state con \<noteq> TERM_ESCSEQ \<longrightarrow> escseq_buff_front con = 0))"

definition parser_of :: "console \<Rightarrow> byte_mem \<Rightarrow> parser" where
  "parser_of con m = (case con_state con of TERM_NORMAL \<Rightarrow> Text | TERM_EXPECT_CSI_PARTB \<Rightarrow> Escape
     | TERM_ESCSEQ \<Rightarrow> Sequence (map (\<lambda>i. m (escseq_buff con + of_nat i)) [0..<unat (escseq_buff_front con)]))"

definition in_escseq :: "console \<Rightarrow> u32 \<Rightarrow> bool" where
  "in_escseq con x = (unat (x - escseq_buff con) < 128)"

definition con_same :: "console \<Rightarrow> console \<Rightarrow> bool" where
  "con_same con con' = (con_port con' = con_port con \<and> con_vram con' = con_vram con
     \<and> escseq_buff con' = escseq_buff con \<and> con_lockup con' = con_lockup con)"

definition con_does :: "console \<Rightarrow> byte_mem \<Rightarrow> command list \<Rightarrow> parser \<Rightarrow> console \<Rightarrow> byte_mem \<Rightarrow> bool" where
  "con_does con m xs p con' m' = (con_ok con' \<and> con_same con con' \<and> parser_of con' m' = p
     \<and> term_of con' m' = fold perform xs (term_of con m)
     \<and> (\<forall>x. \<not> on_screen (con_vram con) x \<and> \<not> in_escseq con x \<longrightarrow> m' x = m x))"

lemma con_does_trans:
  assumes "con_does con m xs p con1 m1" and "con_does con1 m1 ys q con2 m2"
  shows "con_does con m (xs @ ys) q con2 m2"
  using assms by (auto simp: con_does_def con_same_def in_escseq_def)

lemma con_does_refines:
  assumes "con_ok con" and "con_refines con m f (con', m')" and "f (term_of con m) = fold perform xs (term_of con m)"
    and "con_state con \<noteq> TERM_ESCSEQ"
  shows "con_does con m xs (parser_of con m) con' m'"
  using assms by (auto simp: con_does_def con_refines_def con_ok_def con_fixed_def con_same_def parser_of_def split: term_state.splits)

lemma term_of_cong:
  assumes "\<And>x. on_screen (con_vram con) x \<Longrightarrow> m' x = m x"
  shows "term_of con m' = term_of con m"
proof -
  have "cell_at (con_vram con) m' i = cell_at (con_vram con) m i" if "i < 2000" for i
    unfolding cell_at_def using that assms off_on_screen [of "2 * i" "con_vram con"] off_on_screen [of "2 * i + 1" "con_vram con"] by simp
  then show ?thesis by (simp add: term_of_def cells_def)
qed

text \<open>The write of a byte into the buffer of the sequence.\<close>

lemma store_byte:
  fixes m :: byte_mem and c :: u8
  assumes ok: "con_ok con" and st: "con_state con = TERM_ESCSEQ"
  defines "m1 \<equiv> m(escseq_buff con + escseq_buff_front con := c)" and "con1 \<equiv> con\<lparr>escseq_buff_front := escseq_buff_front con + 1\<rparr>"
  shows "map (\<lambda>i. m1 (escseq_buff con1 + of_nat i)) [0..<unat (escseq_buff_front con1)]
      = map (\<lambda>i. m (escseq_buff con + of_nat i)) [0..<unat (escseq_buff_front con)] @ [c]"
    and "term_of con1 m1 = term_of con m" and "unat (escseq_buff_front con1) = unat (escseq_buff_front con) + 1"
    and "\<not> in_escseq con x \<Longrightarrow> m1 x = m x" and "screen_ok con1"
proof -
  let ?n = "unat (escseq_buff_front con)"
  have f: "?n < 128" and o: "\<And>i. i < 128 \<Longrightarrow> \<not> on_screen (con_vram con) (escseq_buff con + of_nat i)" and s: "screen_ok con"
    using ok by (simp_all add: con_ok_def)
  have a: "escseq_buff con + escseq_buff_front con = escseq_buff con + of_nat ?n" by simp
  show u: "unat (escseq_buff_front con1) = ?n + 1" using f by (simp add: con1_def unat_word_ariths)
  have e: "escseq_buff con + of_nat i = escseq_buff con + of_nat ?n \<longleftrightarrow> i = ?n" if "i \<le> ?n" for i
    using that f by (subst off_eq) simp_all
  have g: "m1 (escseq_buff con + of_nat i) = (if i = ?n then c else m (escseq_buff con + of_nat i))" if "i \<le> ?n" for i
    unfolding m1_def a fun_upd_apply e [OF that] by (rule refl)
  show "map (\<lambda>i. m1 (escseq_buff con1 + of_nat i)) [0..<unat (escseq_buff_front con1)]
      = map (\<lambda>i. m (escseq_buff con + of_nat i)) [0..<?n] @ [c]"
    unfolding u using g [of ?n] by (simp add: con1_def g)
  have "term_of con m1 = term_of con m"
    by (rule term_of_cong) (use o [OF f] in \<open>auto simp: m1_def\<close>)
  then show "term_of con1 m1 = term_of con m" by (simp add: con1_def term_of_def)
  show "m1 x = m x" if "\<not> in_escseq con x" using that f by (auto simp: m1_def in_escseq_def)
  show "screen_ok con1" using s by (simp add: con1_def screen_ok_def)
qed

lemma handle_text_ok:
  assumes ok: "con_ok con" and st: "con_state con \<noteq> TERM_ESCSEQ"
    and p: "parse_byte (parser_of con m) c = (p, xs)"
  shows "\<exists>con' m'. vram_handle c con m = Some (con', m') \<and> con_does con m xs p con' m'"
proof -
  have s: "screen_ok con" using ok by (simp add: con_ok_def)
  have id: "con_does con m [] (parser_of (con\<lparr>con_state := z\<rparr>) m) (con\<lparr>con_state := z\<rparr>) m" for z
    using ok st by (simp add: con_does_def con_ok_def con_same_def screen_ok_def term_of_def)
  have fr: "escseq_buff_front con = 0" using ok st by (simp add: con_ok_def)
  let ?n = "con\<lparr>con_state := TERM_NORMAL\<rparr>"
  have char: "\<exists>d n. process_char b e k = (d, n) \<and> con_does e k [Char b] Text d n" if "con_ok e" "con_state e = TERM_NORMAL" for b e k
  proof -
    obtain d n where dn: "process_char b e k = (d, n)" by (cases "process_char b e k")
    have "con_refines e k (show_char b) (d, n)" using process_char_ok [of e k b] that(1) dn by (simp add: con_ok_def)
    from con_does_refines [OF that(1) this, of "[Char b]"] that(2) dn show ?thesis by (simp add: parser_of_def)
  qed
  show ?thesis
  proof (cases "con_state con")
    case TERM_NORMAL
    from p show ?thesis using char [OF ok TERM_NORMAL, where b = c and k = m] id [of TERM_ESCSEQ] id [of TERM_EXPECT_CSI_PARTB] fr TERM_NORMAL
      by (auto simp: vram_handle_def parser_of_def CSI_SINGLE_def CSI_DOUBLE_PARTA_def vram_putc_def split: if_splits)
  next
    case TERM_EXPECT_CSI_PARTB
    have n: "con_ok ?n" using ok TERM_EXPECT_CSI_PARTB by (simp add: con_ok_def screen_ok_def)
    from char [OF n, where b = "0x1B" and k = m] obtain d1 n1 where d1: "process_char 0x1B ?n m = (d1, n1)" "con_does ?n m [Char 0x1B] Text d1 n1" by auto
    have d1': "con_ok d1" "con_state d1 = TERM_NORMAL"
      using d1(2) by (auto simp: con_does_def parser_of_def split: term_state.splits)
    from char [OF d1', where b = c and k = n1] obtain d2 n2 where d2: "process_char c d1 n1 = (d2, n2)" "con_does d1 n1 [Char c] Text d2 n2" by auto
    from con_does_trans [OF id [of TERM_NORMAL] con_does_trans [OF d1(2) d2(2)]]
    have "con_does con m [Char 0x1B, Char c] Text d2 n2" by simp
    with p show ?thesis using id [of TERM_ESCSEQ] fr TERM_EXPECT_CSI_PARTB d1(1) d2(1)
      by (auto simp: vram_handle_def parser_of_def CSI_DOUBLE_PARTA_def CSI_DOUBLE_PARTB_def vram_putc_def split: if_splits)
  qed (use st in simp)
qed

lemma interpret_ok:
  assumes "screen_ok con" and "\<not> leaves_screen (sequence_command bs)"
    and "map (\<lambda>i. m (escseq_buff con + of_nat i)) [0..<unat (escseq_buff_front con)] = bs"
  shows "con_refines con m (perform (sequence_command bs)) (interpret_escseq con m)"
proof -
  obtain n k c where a: "sequence_args bs = (n, k, c)" by (metis prod_cases3)
  then have "interpret_escseq con m = execute_escseq c n k con m"
    by (simp add: interpret_escseq_def read_escseq_args_def assms(3) read_args_ok)
  moreover have "sequence_command bs = command_of c n k" by (simp add: sequence_command_def a)
  ultimately show ?thesis using execute_ok [OF assms(1), of c n k m] assms(2) by simp
qed

lemma handle_seq_ok:
  assumes ok: "con_ok con" and st: "con_state con = TERM_ESCSEQ"
    and p: "parse_byte (parser_of con m) c = (p, xs)" and l: "\<forall>x\<in>set xs. \<not> leaves_screen x"
  shows "\<exists>con' m'. vram_handle c con m = Some (con', m') \<and> con_does con m xs p con' m'"
proof -
  let ?bs = "map (\<lambda>i. m (escseq_buff con + of_nat i)) [0..<unat (escseq_buff_front con)]"
  let ?m1 = "m(escseq_buff con + escseq_buff_front con := c)" and ?c1 = "con\<lparr>escseq_buff_front := escseq_buff_front con + 1\<rparr>"
  note sb = store_byte(1,2) [OF ok st, where m = m and c = c] store_byte(3) [OF ok st]
    store_byte(4) [OF ok st, where m = m and c = c] store_byte(5) [OF ok st]
  have b0: "escseq_buff con \<noteq> 0" using ok by (simp add: con_ok_def)
  have pp: "parser_of con m = Sequence ?bs" by (simp add: parser_of_def st)
  have h: "vram_handle c con m = put_escseq_buff c con m" by (simp add: vram_handle_def st)
  have n: "length ?bs = 127 \<longleftrightarrow> escseq_buff_front con + 1 = 128" using sb(3) by (simp add: word_unat_eq_iff)
  show ?thesis
  proof (cases "is_terminating_char c")
    case True
    then have x: "p = Text" "xs = [sequence_command (?bs @ [c])]" using p pp by auto
    obtain c2 m2 where i: "interpret_escseq ?c1 ?m1 = (c2, m2)" by (cases "interpret_escseq ?c1 ?m1")
    have r: "con_refines ?c1 ?m1 (perform (sequence_command (?bs @ [c]))) (c2, m2)"
      unfolding i [symmetric] by (rule interpret_ok [OF sb(5) _ sb(1)]) (use l x(2) in simp)
    let ?c3 = "c2\<lparr>escseq_buff_front := 0, con_state := TERM_NORMAL\<rparr>"
    have "vram_handle c con m = Some (?c3, m2)"
      using True b0 i by (simp add: h put_escseq_buff_def Let_def)
    moreover have "term_of ?c3 m2 = term_of c2 m2" by (simp add: term_of_def)
    then have "con_does con m xs p ?c3 m2" using r ok sb(2,4)
      by (auto simp: con_does_def con_refines_def con_ok_def con_same_def con_fixed_def screen_ok_def parser_of_def x)
    ultimately show ?thesis by blast
  next
    case False
    let ?c3 = "if escseq_buff_front con + 1 = 128 then con\<lparr>escseq_buff_front := 0, con_state := TERM_NORMAL\<rparr> else ?c1"
    have v: "vram_handle c con m = Some (?c3, ?m1)"
      using False b0 by (simp add: h put_escseq_buff_def Let_def ESCSEQ_BUFF_SIZE_def)
    have x: "p = (if escseq_buff_front con + 1 = 128 then Text else Sequence (?bs @ [c]))" "xs = []"
      using p pp False n by (auto split: if_splits)
    have f: "unat (escseq_buff_front con + 1) < 128 \<or> escseq_buff_front con + 1 = 128"
      using ok sb(3) by (auto simp: con_ok_def word_unat_eq_iff)
    have t: "term_of ?c3 ?m1 = term_of con m" using sb(2) by (auto simp: term_of_def)
    have q: "parser_of ?c3 ?m1 = p" using sb(1) st by (auto simp: parser_of_def x(1))
    have "con_does con m xs p ?c3 ?m1" unfolding con_does_def
      using ok f st sb(4) t q x(2) by (auto simp: con_ok_def con_same_def screen_ok_def)
    then show ?thesis using v by blast
  qed
qed

lemma write_loop_ok:
  assumes "con_ok con" and "parse (parser_of con m) str = (p, xs)" and "\<forall>x\<in>set xs. \<not> leaves_screen x"
  shows "\<exists>con' m'. vram_write_loop str con m = Some (con', m') \<and> con_does con m xs p con' m'"
  using assms
proof (induction str arbitrary: con m xs)
  case Nil
  then show ?case by (simp add: con_does_def con_same_def)
next
  case (Cons c str)
  obtain q ys where q: "parse_byte (parser_of con m) c = (q, ys)" by (cases "parse_byte (parser_of con m) c")
  obtain zs where z: "parse q str = (p, zs)" "xs = ys @ zs" using Cons.prems(2) q by (auto split: prod.splits)
  obtain con1 m1 where s: "vram_handle c con m = Some (con1, m1)" "con_does con m ys q con1 m1"
    using handle_text_ok [OF Cons.prems(1) _ q] handle_seq_ok [OF Cons.prems(1) _ q] Cons.prems(3) z(2) by (cases "con_state con") auto
  have "con_ok con1" "parser_of con1 m1 = q" using s(2) by (simp_all add: con_does_def)
  with Cons.IH [of con1 m1 zs] z Cons.prems(3) obtain con2 m2
    where "vram_write_loop str con1 m1 = Some (con2, m2)" "con_does con1 m1 zs p con2 m2" by auto
  then show ?case using s con_does_trans [OF s(2)] z(2) by auto
qed

lemma refresh_does:
  assumes "con_does con m xs p con' m'"
  shows "con_does con m xs p (do_refresh_cursor con') m'"
proof -
  have "con_ok (do_refresh_cursor con') = con_ok con'" "parser_of (do_refresh_cursor con') m' = parser_of con' m'"
    "term_of (do_refresh_cursor con') m' = term_of con' m'" "con_same con (do_refresh_cursor con') = con_same con con'"
    by (simp_all add: con_ok_def screen_ok_def con_same_def parser_of_def term_of_def split: term_state.split)
  then show ?thesis using assms by (simp add: con_does_def)
qed

section \<open>Properties\<close>


definition demo_console :: console where
  "demo_console = \<lparr>con_port = 0x3D4, con_vram = 0xB8000, con_row = 24, con_col = 0, con_color = 7, con_state = TERM_NORMAL,
     escseq_buff = 0x200000, escseq_buff_front = 0, con_lockup = False, crtc_sel = 0, crtc_regs = (\<lambda>_. 0), con_beeps = 0\<rparr>"

lemma demo_console_ok: "con_ok demo_console"
proof -
  have "\<not> on_screen 0xB8000 (0x200000 + of_nat i)" if "i < 128" for i
  proof -
    have "unat (0x200000 + of_nat i - 0xB8000 :: u32) = 0x148000 + i"
      using that by (simp add: unat_word_ariths unat_of_nat take_bit_nat_eq_self)
    then show ?thesis by (simp add: on_screen_def)
  qed
  then show ?thesis by (simp add: con_ok_def demo_console_def screen_ok_def)
qed


lemma forward_handled:
  assumes ok: "con_ok con" and p: "parser_of con m = Sequence [57, 57, 57, 57]" and c: "con_row con = 0" "con_col con = 0"
  shows "\<exists>con' m'. vram_handle 67 con m = Some (con', m') \<and> con_state con' = TERM_NORMAL \<and> con_vram con' = con_vram con
    \<and> con_row con' = 0 \<and> con_col con' = 9999"
proof -
  have st: "con_state con = TERM_ESCSEQ" using p by (auto simp: parser_of_def split: term_state.splits)
  let ?m1 = "m(escseq_buff con + escseq_buff_front con := 67)" and ?c1 = "con\<lparr>escseq_buff_front := escseq_buff_front con + 1\<rparr>"
  have "map (\<lambda>i. m (escseq_buff con + of_nat i)) [0..<unat (escseq_buff_front con)] = [57, 57, 57, 57]"
    using p st by (simp add: parser_of_def)
  then have "read_escseq_args ?c1 ?m1 = read_args [57, 57, 57, 57, 67] (- 1) True (- 1) (- 1)"
    using store_byte(1) [OF ok st, where m = m and c = 67] unfolding read_escseq_args_def by (simp only:) simp
  also have "\<dots> = (9999, - 1, 67)" by code_simp
  finally have "interpret_escseq ?c1 ?m1 = (cursor_forward 9999 ?c1, ?m1)"
    by (simp add: interpret_escseq_def execute_escseq_def dflt_def)
  moreover have "is_terminating_char 67" by code_simp
  ultimately show ?thesis using ok st c
    by (simp add: vram_handle_def put_escseq_buff_def con_ok_def cursor_forward_def MAX_u_def)
qed

definition plain :: "u8 \<Rightarrow> bool" where
  "plain c = (c \<notin> {7, 8, 9, 10, 13, 0x1B, 0x9B})"



end
