(* ===== verification/Spec2Isabelle.thy ===== *)
theory Spec2Isabelle
  imports Word_Ops Intrusive_List Hash_Table Ring_Buffer Boot_Memory String_Lib Ticket_Lock Ram_FS Scheduler Descriptors Vfs_Lookup Console
begin

text \<open>
  A verification library for K-OS, a 32-bit multi-processor kernel (\<^verbatim>\<open>src/kernel\<close>).

  \<^bold>\<open>Reading the models.\<close> Definitions carry the names of the C functions they translate. Integers are
  words of their width and wrap as in C. \<^verbatim>\<open>BUG_ON\<close>, \<^verbatim>\<open>BUG\<close> and \<^verbatim>\<open>panic\<close> end in \<^term>\<open>None\<close>, and so do
  accesses the hardware or the compiler leaves undefined (a null pointer, an index outside an array, a
  shift by the width); a theorem that an operation returns \<^term>\<open>Some\<close> therefore says that none of
  them happens. State is passed explicitly, a C structure being a record and an object its address.
  Error codes are negated numbers, as in C.

  \<^bold>\<open>The parts and their theories\<close>, from the bottom up.

  \<^item> \<open>KOS_Prelude\<close>: word types, panics, facts on words.
  \<^item> \<open>Word_Ops\<close>: byte swapping, 64-bit division, logarithms, hashing, random numbers, the internet
    checksum (\<^verbatim>\<open>inc/common/swap.h\<close>, \<^verbatim>\<open>math.h\<close>, \<^verbatim>\<open>hash.h\<close>, \<^verbatim>\<open>lib/math.c\<close>, \<^verbatim>\<open>lib/rand.c\<close>,
    \<^verbatim>\<open>net/ip/checksum.h\<close>), against their mathematical meaning.
  \<^item> \<open>Intrusive_List\<close>, \<open>Hash_Table\<close>, \<open>Ring_Buffer\<close>: the data structures of \<^verbatim>\<open>inc/common\<close> over explicit
    pointer memories. Each operation implements one on HOL lists or byte queues and leaves disjoint
    structures alone; later theories use the lists.
  \<^item> \<open>Buddy\<close>: the page allocator of \<^verbatim>\<open>mm/mm.c\<close>. \<open>Page_Map\<close>: kernel and user page tables
    (\<^verbatim>\<open>arch/mmu.c\<close>) and allocation with mapping. \<open>Slab_Cache\<close>: object caches (\<^verbatim>\<open>mm/cache.c\<close>), \<^verbatim>\<open>kmalloc\<close>
    and \<^verbatim>\<open>kfree\<close>. \<open>Object_Cache\<close>: caches as their clients see them. \<open>Boot_Memory\<close>: start-up from the
    memory map of the boot loader, boot modules. Shown: no check fires for any order of allocations and
    frees, live memory is disjoint, allocation fails only without memory, freed memory is fully
    merged, mappings translate back, address spaces are isolated.
  \<^item> \<open>String_Lib\<close>: \<^verbatim>\<open>lib/string.c\<close> over a flat byte memory, with the heap where it allocates.
  \<^item> \<open>Ticket_Lock\<close>: \<^verbatim>\<open>arch/spinlock.c\<close> and \<^verbatim>\<open>arch/atomic.c\<close>, one step per memory access; mutual exclusion
    for every interleaving and, for fair runs, no starvation.
  \<^item> \<open>Task\<close>: task nodes, sessions, process groups, contexts and descriptor tables of
    \<^verbatim>\<open>sched/sched.c\<close>, the file table of \<^verbatim>\<open>fs/fd.c\<close>. \<open>Scheduler\<close>: sleeping, waking, switching, signals sent,
    death of threads; runs of any number of processors keep the scheduler's lists, flags and
    processors in agreement. \<open>Descriptors\<close>: files live exactly as long as their descriptors.
  \<^item> \<open>Ram_FS\<close>: contents of files of \<^verbatim>\<open>fs/type/ramfs.c\<close>. \<open>Vfs\<close>: dentries, inodes, mounts, path names
    (\<^verbatim>\<open>fs/vfs.c\<close>), the inodes of the RAM file system and the device file system (\<^verbatim>\<open>fs/type/devfs.c\<close>).
    \<open>Vfs_Lookup\<close>: well-formed name spaces; lookup refines a walk over whole names; creation keeps the
    name space well formed and is found again.
  \<^item> \<open>Console\<close>: the text console (\<^verbatim>\<open>driver/console/vram.c\<close>): characters, escape sequences,
    scrolling and the cursor registers refine an abstract terminal of 25 rows of 80 cells, as long as no
    sequence moves the cursor down or forward; those that do can write outside the screen.

  \<^bold>\<open>Interfaces.\<close> Locales state what one part relies on in another, each interpreted on the model:
  \<open>linked_list\<close> by the pointer lists, \<open>byte_fifo\<close> by the ring buffer, \<open>page_allocator\<close> by the buddy
  allocator, \<open>object_allocator\<close> by \<^verbatim>\<open>kmalloc\<close> and \<^verbatim>\<open>kfree\<close>, \<open>object_caches\<close> by the slab caches.

  \<^bold>\<open>Concurrency.\<close> A function that holds its lock throughout, with interrupts off, is one step; that
  the locks exclude each other is the result of \<open>Ticket_Lock\<close>. The scheduler's step relation
  interleaves such steps of all processors.

  \<^bold>\<open>Bounds and termination.\<close> Loops are structural or have a measure; no model carries fuel. Loops that do
  not end in every memory are partial functions, for which not returning is \<^term>\<open>None\<close>: the traversals of
  pointer lists and chains, the loops that look for the end of a string, \<^verbatim>\<open>itoa\<close> and \<^verbatim>\<open>atoi\<close>, the normalisation
  of a divisor, and the two loops of \<^verbatim>\<open>vfs_lookup\<close>. The theorems show that they return on well-formed lists,
  on memory that holds a string, for every non-zero divisor, and on well-formed name spaces; nothing is
  shown of the measuring of a string table. Memory is bounded only by what the machine has; theorems say
  which room an operation needs.

  \<^bold>\<open>Memory for names.\<close> Copies of names made by \<^verbatim>\<open>strdup\<close> in \<^verbatim>\<open>vfs.c\<close> are values in the model; \<^verbatim>\<open>strdup\<close> itself is
  verified in \<open>String_Lib\<close>.

  \<^bold>\<open>Not modelled.\<close> Device drivers (disk, network), interrupt controllers, platform timers,
  the PCI bus and the processor tables: their behaviour is that of hardware registers. Assembly
  entry points. The network protocols, keyboard and terminal input, semaphores, program loading, partition
  labels, formatted output, the remaining system calls and the delivery of signals to user code. User
  programs and the user library, which only trap into the kernel. The manifest lists these parts with
  their sources.
\<close>

end
